(* ===== verification/Prelude.thy ===== *)
theory Prelude
  imports Main "HOL-Library.Word"
begin

section \<open>Shared types, results and lemmas\<close>

text \<open>
  What every component uses: the C integer types as words, the result type of code that may
  call \<open>panic\<close>, loops over results, the two generic interfaces (an invariant of a transition
  system, a queue implemented by some state), and lemmas on lists, folds and words that several
  components share. No definition of this theory translates code; the components do.
\<close>

unbundle bit_operations_syntax

subsection \<open>The C integer types of kernel/types.h\<close>

type_synonym byte = "8 word"
type_synonym ushort = "16 word"
type_synonym uint = "32 word"
type_synonym uint64 = "64 word"

text \<open>A C \<open>int\<close> is kept as a 32-bit word where it may wrap; \<^const>\<open>sint\<close> reads its sign.\<close>

type_synonym cint = "32 word"

subsection \<open>Results: the code either returns or panics\<close>

text \<open>\<open>Inl msg\<close> is a call of \<open>panic(msg)\<close>, which never returns; \<open>Inr x\<close> a normal return of x.\<close>

type_synonym 'a res = "string + 'a"

abbreviation panic :: "string \<Rightarrow> 'a res" where
  "panic msg \<equiv> Inl msg"

definition bindR :: "'a res \<Rightarrow> ('a \<Rightarrow> 'b res) \<Rightarrow> 'b res" where
  "bindR m f = (case m of Inl e \<Rightarrow> Inl e | Inr x \<Rightarrow> f x)"

lemma bindR_simps [simp]:
  "bindR (Inl e) f = Inl e"
  "bindR (Inr x) f = f x"
  by (simp_all add: bindR_def)

lemma bindR_assoc: "bindR (bindR m f) g = bindR m (\<lambda>x. bindR (f x) g)"
  by (cases m) simp_all

lemma bindR_eq_Inr [simp]: "bindR m f = Inr y \<longleftrightarrow> (\<exists>x. m = Inr x \<and> f x = Inr y)"
  by (cases m) simp_all

lemma bindR_eq_Inl: "bindR m f = Inl e \<longleftrightarrow> m = Inl e \<or> (\<exists>x. m = Inr x \<and> f x = Inl e)"
  by (cases m) simp_all

lemma bindR_cong [fundef_cong]:
  "m = m' \<Longrightarrow> (\<And>x. m' = Inr x \<Longrightarrow> f x = f' x) \<Longrightarrow> bindR m f = bindR m' f'"
  by (cases m) auto

text \<open>A loop over a list whose body may panic.\<close>

fun foldR :: "('i \<Rightarrow> 's \<Rightarrow> 's res) \<Rightarrow> 'i list \<Rightarrow> 's \<Rightarrow> 's res" where
  "foldR f [] s = Inr s"
| "foldR f (x # xs) s = bindR (f x s) (foldR f xs)"

lemma foldR_append: "foldR f (xs @ ys) s = bindR (foldR f xs s) (foldR f ys)"
  by (induction xs arbitrary: s) (auto simp: bindR_assoc intro: bindR_cong)

lemma foldR_invariant:
  assumes "foldR f xs s = Inr t" and "I s"
    and "\<And>x u v. x \<in> set xs \<Longrightarrow> I u \<Longrightarrow> f x u = Inr v \<Longrightarrow> I v"
  shows "I t"
  using assms
proof (induction xs arbitrary: s)
  case Nil
  then show ?case by simp
next
  case (Cons x xs)
  then obtain u where u: "f x s = Inr u" "foldR f xs u = Inr t" by auto
  with Cons.prems have "I u" by auto
  with u(2) Cons.prems(3) show ?case by (auto intro: Cons.IH)
qed

subsection \<open>Pointers to table entries\<close>

text \<open>A pointer into a fixed table is the index of its entry; \<open>None\<close> is the null pointer.\<close>

type_synonym ptr = "nat option"

subsection \<open>Loops over a table that write one entry at a time\<close>

lemma fold_upd_upt:
  "fold (\<lambda>i f. f(i := g i (f i))) [0..<n] f = (\<lambda>i. if i < n then g i (f i) else f i)"
  by (induction n) (auto simp: fun_eq_iff less_Suc_eq)

lemma find_upt_Some_iff:
  "List.find P [0..<n] = Some i \<longleftrightarrow> i < n \<and> P i \<and> (\<forall>j<i. \<not> P j)"
  by (auto simp: find_Some_iff intro!: exI [of _ i])

lemma find_upt_None_iff: "List.find P [0..<n] = None \<longleftrightarrow> (\<forall>i<n. \<not> P i)"
  by (auto simp: find_None_iff)

lemma fold_invariant_list:
  assumes "I s" and "\<And>x u. x \<in> set xs \<Longrightarrow> I u \<Longrightarrow> I (f x u)"
  shows "I (fold f xs s)"
  using assms by (induction xs arbitrary: s) auto

subsection \<open>Transition systems and their invariants\<close>

inductive reach :: "('s \<Rightarrow> bool) \<Rightarrow> ('s \<Rightarrow> 's \<Rightarrow> bool) \<Rightarrow> 's \<Rightarrow> bool"
  for start :: "'s \<Rightarrow> bool" and step :: "'s \<Rightarrow> 's \<Rightarrow> bool" where
  reach_start: "start s \<Longrightarrow> reach start step s"
| reach_step: "reach start step s \<Longrightarrow> step s t \<Longrightarrow> reach start step t"

locale transition_invariant =
  fixes start :: "'s \<Rightarrow> bool"
    and step :: "'s \<Rightarrow> 's \<Rightarrow> bool"
    and inv :: "'s \<Rightarrow> bool"
  assumes start_inv: "start s \<Longrightarrow> inv s"
    and step_inv: "inv s \<Longrightarrow> step s t \<Longrightarrow> inv t"
begin

lemma reach_inv: "reach start step s \<Longrightarrow> inv s"
  by (induction rule: reach.induct) (auto intro: start_inv step_inv)

lemma steps_inv: "step\<^sup>*\<^sup>* s t \<Longrightarrow> inv s \<Longrightarrow> inv t"
  by (induction rule: rtranclp_induct) (auto intro: step_inv)

end

subsection \<open>Bounded queues\<close>

text \<open>
  The contract of a bounded first-in first-out buffer: \<open>items\<close> reads the queued elements in
  order, \<open>put\<close> appends one when there is room and \<open>get\<close> removes the oldest. The pipe, the
  console input buffer and the uart transmit buffer provide it.
\<close>

locale bounded_queue =
  fixes ok :: "'q \<Rightarrow> bool"
    and items :: "'q \<Rightarrow> 'a list"
    and cap :: nat
    and put :: "'a \<Rightarrow> 'q \<Rightarrow> 'q"
    and get :: "'q \<Rightarrow> 'a \<times> 'q"
  assumes items_cap: "ok q \<Longrightarrow> length (items q) \<le> cap"
    and put_ok: "ok q \<Longrightarrow> length (items q) < cap \<Longrightarrow> ok (put x q)"
    and put_items: "ok q \<Longrightarrow> length (items q) < cap \<Longrightarrow> items (put x q) = items q @ [x]"
    and get_ok: "ok q \<Longrightarrow> items q \<noteq> [] \<Longrightarrow> ok (snd (get q))"
    and get_items: "ok q \<Longrightarrow> items q \<noteq> [] \<Longrightarrow> items q = fst (get q) # items (snd (get q))"
begin

primrec put_list :: "'a list \<Rightarrow> 'q \<Rightarrow> 'q" where
  "put_list [] q = q"
| "put_list (x # xs) q = put_list xs (put x q)"

primrec get_n :: "nat \<Rightarrow> 'q \<Rightarrow> 'a list \<times> 'q" where
  "get_n 0 q = ([], q)"
| "get_n (Suc n) q = (let (x, q1) = get q; (xs, q2) = get_n n q1 in (x # xs, q2))"

lemma put_list_items:
  "ok q \<Longrightarrow> length (items q) + length xs \<le> cap \<Longrightarrow>
    ok (put_list xs q) \<and> items (put_list xs q) = items q @ xs"
  by (induction xs arbitrary: q) (auto simp: put_ok put_items)

lemma get_n_items:
  "ok q \<Longrightarrow> n \<le> length (items q) \<Longrightarrow>
    ok (snd (get_n n q)) \<and> fst (get_n n q) = take n (items q) \<and>
    items (snd (get_n n q)) = drop n (items q)"
proof (induction n arbitrary: q)
  case 0
  then show ?case by simp
next
  case (Suc n)
  then have ne: "items q \<noteq> []" by auto
  with Suc.prems have *: "items q = fst (get q) # items (snd (get q))" "ok (snd (get q))"
    by (auto intro: get_items get_ok)
  from Suc.prems(2) have "n \<le> length (items (snd (get q)))"
    by (subst (asm) *(1)) simp
  from Suc.IH [OF *(2) this] show ?case
    by (subst (1 2) *(1)) (auto simp: Let_def split_beta)
qed

lemma put_get_fifo:
  assumes "ok q" and "items q = []" and "length xs \<le> cap"
  shows "fst (get_n (length xs) (put_list xs q)) = xs"
  using put_list_items [of q xs] get_n_items [of "put_list xs q" "length xs"] assms by simp

end

subsection \<open>Ring indices\<close>

text \<open>The window of length n that starts at r in a ring of size N.\<close>

definition ring_window :: "nat \<Rightarrow> (nat \<Rightarrow> 'a) \<Rightarrow> nat \<Rightarrow> nat \<Rightarrow> 'a list" where
  "ring_window N d r n = map (\<lambda>i. d ((r + i) mod N)) [0..<n]"

lemma length_ring_window [simp]: "length (ring_window N d r n) = n"
  by (simp add: ring_window_def)

lemma ring_window_0 [simp]: "ring_window N d r 0 = []"
  by (simp add: ring_window_def)

lemma ring_window_Suc_left: "ring_window N d r (Suc n) = d (r mod N) # ring_window N d (Suc r) n"
proof -
  have "[0..<Suc n] = 0 # map Suc [0..<n]"
    by (simp add: upt_conv_Cons map_Suc_upt del: upt_Suc)
  then show ?thesis
    by (simp add: ring_window_def comp_def del: upt_Suc)
qed

lemma ring_window_Suc_right: "ring_window N d r (Suc n) = ring_window N d r n @ [d ((r + n) mod N)]"
  by (simp add: ring_window_def)

lemma ring_window_mod: "ring_window N d (r mod N) n = ring_window N d r n"
  by (simp add: ring_window_def mod_add_left_eq)

lemma add_mod_distinct:
  fixes r i j N :: nat
  assumes "i < j" and "j < i + N"
  shows "(r + i) mod N \<noteq> (r + j) mod N"
proof
  assume "(r + i) mod N = (r + j) mod N"
  then have "N dvd (r + j) - (r + i)"
    using assms(1) by (subst mod_eq_dvd_iff_nat [symmetric]) auto
  then have "N dvd j - i" by simp
  with assms show False by (auto dest: dvd_imp_le)
qed

lemma ring_window_upd_outside:
  assumes "n \<le> k" and "k < N"
  shows "ring_window N (d((r + k) mod N := x)) r n = ring_window N d r n"
proof -
  have "(r + i) mod N \<noteq> (r + k) mod N" if "i < n" for i
    using assms that by (intro add_mod_distinct) auto
  then show ?thesis by (simp add: ring_window_def)
qed

lemma ring_window_push:
  assumes "n < N"
  shows "ring_window N (d((r + n) mod N := x)) r (Suc n) = ring_window N d r n @ [x]"
  using assms by (simp add: ring_window_Suc_right ring_window_upd_outside)

end
