(* ===== verification/Spinlock.thy ===== *)
theory Spinlock
  imports Prelude
begin

section \<open>kernel/spinlock.c: spin locks and interrupt nesting\<close>

text \<open>
  The locks of the kernel and the per-CPU interrupt bookkeeping. A CPU is a number, a lock is
  identified by the number the client gives it; \<open>sie\<close> is the interrupt-enable bit that
  \<open>intr_get\<close>, \<open>intr_on\<close> and \<open>intr_off\<close> access. \<open>acquire\<close> and \<open>release\<close> are the functions as one
  CPU runs them when it meets no contention; the step relation below cuts them into the
  individually atomic accesses and lets the CPUs interleave, spinning included.
\<close>

record cpu =
  noff :: int
  intena :: bool
  sie :: bool

record spinlock =
  locked :: bool
  lcpu :: "nat option"
  lname :: string

record lockstate =
  cpus :: "nat \<Rightarrow> cpu"
  locks :: "nat \<Rightarrow> spinlock"

definition initlock :: "nat \<Rightarrow> string \<Rightarrow> lockstate \<Rightarrow> lockstate" where
  "initlock l nm s = s\<lparr>locks := (locks s)(l := \<lparr>locked = False, lcpu = None, lname = nm\<rparr>)\<rparr>"

definition holding :: "nat \<Rightarrow> nat \<Rightarrow> lockstate \<Rightarrow> bool" where
  "holding c l s \<longleftrightarrow> locked (locks s l) \<and> lcpu (locks s l) = Some c"

definition push_off :: "nat \<Rightarrow> lockstate \<Rightarrow> lockstate" where
  "push_off c s =
     (let old = sie (cpus s c);
          k1 = (cpus s c)\<lparr>sie := False\<rparr>;
          k2 = (if noff k1 = 0 then k1\<lparr>intena := old\<rparr> else k1);
          k3 = k2\<lparr>noff := noff k2 + 1\<rparr>
      in s\<lparr>cpus := (cpus s)(c := k3)\<rparr>)"

definition pop_off :: "nat \<Rightarrow> lockstate \<Rightarrow> lockstate res" where
  "pop_off c s =
     (if sie (cpus s c) then panic ''pop_off - interruptible''
      else if noff (cpus s c) < 1 then panic ''pop_off''
      else
        let k1 = (cpus s c)\<lparr>noff := noff (cpus s c) - 1\<rparr>;
            k2 = (if noff k1 = 0 \<and> intena k1 then k1\<lparr>sie := True\<rparr> else k1)
        in Inr (s\<lparr>cpus := (cpus s)(c := k2)\<rparr>))"

text \<open>The swap of \<open>acquire\<close>: it returns the old value and leaves the lock taken.\<close>

definition test_and_set :: "nat \<Rightarrow> lockstate \<Rightarrow> bool \<times> lockstate" where
  "test_and_set l s =
     (locked (locks s l), s\<lparr>locks := (locks s)(l := (locks s l)\<lparr>locked := True\<rparr>)\<rparr>)"

text \<open>
  \<open>acquire\<close> up to the loop, and the loop: with no other CPU running, a taken lock is never
  released, so the loop does not end and the value is None.
\<close>

definition acquire_enter :: "nat \<Rightarrow> nat \<Rightarrow> lockstate \<Rightarrow> lockstate res" where
  "acquire_enter c l s =
     (let s1 = push_off c s in if holding c l s1 then panic ''acquire'' else Inr s1)"

definition set_owner :: "nat \<Rightarrow> nat option \<Rightarrow> lockstate \<Rightarrow> lockstate" where
  "set_owner l c s = s\<lparr>locks := (locks s)(l := (locks s l)\<lparr>lcpu := c\<rparr>)\<rparr>"

definition acquire :: "nat \<Rightarrow> nat \<Rightarrow> lockstate \<Rightarrow> lockstate res option" where
  "acquire c l s =
     (case acquire_enter c l s of
        Inl e \<Rightarrow> Some (Inl e)
      | Inr s1 \<Rightarrow>
          let (old, s2) = test_and_set l s1
          in if old then None else Some (Inr (set_owner l (Some c) s2)))"

definition unlock :: "nat \<Rightarrow> lockstate \<Rightarrow> lockstate" where
  "unlock l s = s\<lparr>locks := (locks s)(l := (locks s l)\<lparr>locked := False\<rparr>)\<rparr>"

definition release :: "nat \<Rightarrow> nat \<Rightarrow> lockstate \<Rightarrow> lockstate res" where
  "release c l s =
     (if \<not> holding c l s then panic ''release''
      else pop_off c (unlock l (set_owner l None s)))"

subsection \<open>Interleaved execution\<close>

text \<open>
  Where a CPU is inside \<open>acquire\<close> or \<open>release\<close>: \<open>Trying\<close> after \<open>push_off\<close> and the check, \<open>Taken\<close>
  between the successful swap and the store of \<open>lk->cpu\<close>, \<open>Dropping\<close> between clearing \<open>lk->cpu\<close>
  and the releasing store. \<open>held\<close> is the list of locks the CPU has acquired and not released.
\<close>

datatype pc = Running | Trying nat | Taken nat | Dropping nat

record world =
  lk :: lockstate
  pcs :: "nat \<Rightarrow> pc"
  held :: "nat \<Rightarrow> nat list"

inductive spin_step :: "world \<Rightarrow> world \<Rightarrow> bool" where
  enter: "pcs w c = Running \<Longrightarrow> l \<notin> set (held w c) \<Longrightarrow> acquire_enter c l (lk w) = Inr s \<Longrightarrow>
    spin_step w (w\<lparr>lk := s, pcs := (pcs w)(c := Trying l)\<rparr>)"
| spin: "pcs w c = Trying l \<Longrightarrow> test_and_set l (lk w) = (True, s) \<Longrightarrow> spin_step w (w\<lparr>lk := s\<rparr>)"
| swap: "pcs w c = Trying l \<Longrightarrow> test_and_set l (lk w) = (False, s) \<Longrightarrow>
    spin_step w (w\<lparr>lk := s, pcs := (pcs w)(c := Taken l)\<rparr>)"
| own: "pcs w c = Taken l \<Longrightarrow>
    spin_step w (w\<lparr>lk := set_owner l (Some c) (lk w), pcs := (pcs w)(c := Running), held := (held w)(c := l # held w c)\<rparr>)"
| drop: "pcs w c = Running \<Longrightarrow> l \<in> set (held w c) \<Longrightarrow> holding c l (lk w) \<Longrightarrow>
    spin_step w (w\<lparr>lk := set_owner l None (lk w), pcs := (pcs w)(c := Dropping l), held := (held w)(c := remove1 l (held w c))\<rparr>)"
| unlock: "pcs w c = Dropping l \<Longrightarrow> pop_off c (Spinlock.unlock l (lk w)) = Inr s \<Longrightarrow>
    spin_step w (w\<lparr>lk := s, pcs := (pcs w)(c := Running)\<rparr>)"

text \<open>A CPU has a lock from the successful swap to the releasing store.\<close>

definition owns :: "world \<Rightarrow> nat \<Rightarrow> nat \<Rightarrow> bool" where
  "owns w c l \<longleftrightarrow> l \<in> set (held w c) \<or> pcs w c = Taken l \<or> pcs w c = Dropping l"

definition own_inv :: "world \<Rightarrow> bool" where
  "own_inv w \<longleftrightarrow> (\<forall>l. locked (locks (lk w) l) = (\<exists>c. owns w c l)) \<and>
     (\<forall>c d l. owns w c l \<longrightarrow> owns w d l \<longrightarrow> c = d)"

definition holder_inv :: "world \<Rightarrow> bool" where
  "holder_inv w \<longleftrightarrow> (\<forall>c l. lcpu (locks (lk w) l) = Some c \<longleftrightarrow> l \<in> set (held w c)) \<and>
     (\<forall>c. distinct (held w c)) \<and>
     (\<forall>c l. pcs w c = Taken l \<or> pcs w c = Dropping l \<longrightarrow> l \<notin> set (held w c))"

definition count_inv :: "world \<Rightarrow> nat \<Rightarrow> bool" where
  "count_inv w c \<longleftrightarrow> noff (cpus (lk w) c) = int (length (held w c)) + (if pcs w c = Running then 0 else 1) \<and>
     (noff (cpus (lk w) c) > 0 \<longrightarrow> \<not> sie (cpus (lk w) c))"

definition spin_inv :: "world \<Rightarrow> bool" where
  "spin_inv w \<longleftrightarrow> own_inv w \<and> holder_inv w \<and> (\<forall>c. count_inv w c)"

definition spin_start :: "world \<Rightarrow> bool" where
  "spin_start w \<longleftrightarrow> (\<forall>l. \<not> locked (locks (lk w) l) \<and> lcpu (locks (lk w) l) = None) \<and>
     (\<forall>c. pcs w c = Running \<and> held w c = [] \<and> noff (cpus (lk w) c) = 0)"

lemma push_off_locks [simp]: "locks (push_off c s) = locks s"
  by (simp add: push_off_def Let_def)

lemma push_off_cpu:
  "noff (cpus (push_off c s) d) = (if d = c then noff (cpus s c) + 1 else noff (cpus s d))"
  "sie (cpus (push_off c s) d) = (if d = c then False else sie (cpus s d))"
  by (simp_all add: push_off_def Let_def)

lemma pop_off_Inr:
  assumes "pop_off c s = Inr t"
  shows "locks t = locks s" and "noff (cpus t d) = (if d = c then noff (cpus s c) - 1 else noff (cpus s d))"
    and "d \<noteq> c \<or> noff (cpus s c) > 1 \<Longrightarrow> sie (cpus t d) = sie (cpus s d)"
  using assms by (auto simp: pop_off_def Let_def split: if_splits)

lemma acquire_enter_Inr: "acquire_enter c l s = Inr t \<Longrightarrow> t = push_off c s"
  by (auto simp: acquire_enter_def Let_def split: if_splits)

lemma own_inv_cong:
  "own_inv w \<Longrightarrow> (\<And>c l. owns w' c l = owns w c l) \<Longrightarrow> (\<And>l. locked (locks (lk w') l) = locked (locks (lk w) l)) \<Longrightarrow> own_inv w'"
  by (simp add: own_inv_def)

lemma own_inv_step: "spin_step w w' \<Longrightarrow> own_inv w \<Longrightarrow> holder_inv w \<Longrightarrow> own_inv w'"
proof (induction rule: spin_step.induct)
  case (enter w c l s)
  from enter(4) show ?case
    by (rule own_inv_cong) (use enter(1,3) in \<open>auto simp: owns_def dest!: acquire_enter_Inr\<close>)
next
  case (spin w c l s)
  from spin(3) show ?case
    by (rule own_inv_cong) (use spin(1,2) in \<open>auto simp: owns_def test_and_set_def split: if_splits\<close>)
next
  case (swap w c l s)
  let ?w = "w\<lparr>lk := s, pcs := (pcs w)(c := Taken l)\<rparr>"
  have o: "owns ?w d k \<longleftrightarrow> owns w d k \<or> d = c \<and> k = l" for d k
    using swap(1) by (auto simp: owns_def)
  have "\<not> owns w d l" for d using swap(2,3) by (auto simp: own_inv_def test_and_set_def)
  then show ?case using swap(2,3) unfolding own_inv_def o by (auto simp: test_and_set_def split: if_splits)
next
  case (own w c l)
  from own(2) show ?case
    by (rule own_inv_cong) (use own(1) in \<open>auto simp: owns_def set_owner_def\<close>)
next
  case (drop w c l)
  from drop(4) show ?case
    by (rule own_inv_cong) (use drop(1,2) in \<open>auto simp: owns_def set_owner_def in_set_remove1 dest: subsetD [OF set_remove1_subset]\<close>)
next
  case (unlock w c l s)
  have l: "l \<notin> set (held w c)" using unlock(1,4) by (simp add: holder_inv_def)
  let ?w = "w\<lparr>lk := s, pcs := (pcs w)(c := Running)\<rparr>"
  have o: "owns ?w d k \<longleftrightarrow> owns w d k \<and> \<not> (d = c \<and> k = l)" for d k
    using unlock(1) l by (auto simp: owns_def)
  have "owns w c l" using unlock(1) by (simp add: owns_def)
  then show ?case
    using pop_off_Inr(1) [OF unlock(2)] unlock(3) unfolding own_inv_def o by (auto simp: Spinlock.unlock_def)
qed

lemma holder_inv_step: "spin_step w w' \<Longrightarrow> own_inv w \<Longrightarrow> holder_inv w \<Longrightarrow> holder_inv w'"
proof (induction rule: spin_step.induct)
  case (enter w c l s)
  then show ?case by (auto simp: holder_inv_def dest!: acquire_enter_Inr split: if_splits)
next
  case (spin w c l s)
  then show ?case by (auto simp: holder_inv_def test_and_set_def split: if_splits)
next
  case (swap w c l s)
  have "\<not> owns w c l" using swap(2,3) by (auto simp: own_inv_def test_and_set_def)
  then show ?case using swap(2,4) by (auto simp: holder_inv_def owns_def test_and_set_def split: if_splits)
next
  case (own w c l)
  have c: "owns w c l" "l \<notin> set (held w c)" using own(1,3) by (auto simp: owns_def holder_inv_def)
  have "l \<notin> set (held w d)" for d
    using c own(2) unfolding own_inv_def owns_def by metis
  then show ?case using own(1,3) by (auto simp: holder_inv_def set_owner_def split: if_splits)
next
  case (drop w c l)
  have "l \<notin> set (held w d)" if "d \<noteq> c" for d
    using that drop(2,4) unfolding own_inv_def owns_def by metis
  then show ?case using drop(1,2,5) by (auto simp: holder_inv_def set_owner_def split: if_splits)
next
  case (unlock w c l s)
  then show ?case
    using pop_off_Inr(1) [OF unlock(2)] by (auto simp: holder_inv_def Spinlock.unlock_def split: if_splits)
qed

lemma count_inv_step: "spin_step w w' \<Longrightarrow> count_inv w d \<Longrightarrow> holder_inv w \<Longrightarrow> count_inv w' d"
proof (induction rule: spin_step.induct)
  case (enter w c l s)
  then show ?case by (auto simp: count_inv_def push_off_cpu dest!: acquire_enter_Inr)
next
  case (spin w c l s)
  then show ?case by (auto simp: count_inv_def test_and_set_def)
next
  case (swap w c l s)
  then show ?case by (auto simp: count_inv_def test_and_set_def)
next
  case (own w c l)
  then show ?case by (auto simp: count_inv_def set_owner_def)
next
  case (drop w c l)
  have "int (length (held w c)) = int (length (remove1 l (held w c))) + 1"
    unfolding length_remove1 if_P [OF drop(2)] using length_pos_if_in_set [OF drop(2)] by linarith
  with drop show ?case by (auto simp: count_inv_def set_owner_def)
next
  case (unlock w c l s)
  then show ?case
    using pop_off_Inr(2,3) [OF unlock(2), of d] by (auto simp: count_inv_def Spinlock.unlock_def split: if_splits)
qed

interpretation spl: transition_invariant spin_start spin_step spin_inv
proof (unfold_locales, goal_cases)
  case (1 w)
  then show ?case
    by (simp add: spin_start_def spin_inv_def own_inv_def holder_inv_def count_inv_def owns_def)
next
  case (2 w w')
  then show ?case
    using own_inv_step holder_inv_step count_inv_step unfolding spin_inv_def by blast
qed

definition idle_world :: world where
  "idle_world = \<lparr>lk = \<lparr>cpus = (\<lambda>_. \<lparr>noff = 0, intena = False, sie = True\<rparr>),
     locks = (\<lambda>_. \<lparr>locked = False, lcpu = None, lname = ''lk''\<rparr>)\<rparr>, pcs = (\<lambda>_. Running), held = (\<lambda>_. [])\<rparr>"

lemma waiting_reachable:
  "\<exists>w. reach spin_start spin_step w \<and> pcs w 0 = Trying 7 \<and> held w 0 = [] \<and> pcs w 1 = Running"
proof -
  have r: "reach spin_start spin_step idle_world"
    by (rule reach_start) (simp add: spin_start_def idle_world_def)
  have "acquire_enter 0 7 (lk idle_world) = Inr (push_off 0 (lk idle_world))"
    by (simp add: acquire_enter_def holding_def idle_world_def)
  then have "spin_step idle_world (idle_world\<lparr>lk := push_off 0 (lk idle_world), pcs := (pcs idle_world)(0 := Trying 7)\<rparr>)"
    by (intro spin_step.enter) (simp_all add: idle_world_def)
  from reach_step [OF r this] show ?thesis
    by (intro exI [of _ "idle_world\<lparr>lk := push_off 0 (lk idle_world), pcs := (pcs idle_world)(0 := Trying 7)\<rparr>"])
      (simp add: idle_world_def)
qed

subsection \<open>Properties\<close>

text \<open>
  C10. Mutual exclusion: however the CPUs interleave, no two of them are between the
  successful swap of \<open>acquire\<close> and the releasing store of \<open>release\<close> of the same lock, and
  \<open>holding\<close> tells a running CPU exactly whether it has the lock.
\<close>

theorem spinlock_mutual_exclusion:
  assumes "reach spin_start spin_step w"
  shows "(owns w c l \<and> owns w d l \<longrightarrow> c = d) \<and> (pcs w c = Running \<longrightarrow> holding c l (lk w) = (l \<in> set (held w c)))"
proof -
  have i: "own_inv w" "holder_inv w" using spl.reach_inv [OF assms] by (auto simp: spin_inv_def)
  then show ?thesis by (auto simp: own_inv_def holder_inv_def holding_def owns_def)
qed

theorem spinlock_mutual_exclusion_witness:
  "\<exists>w. reach spin_start spin_step w \<and> pcs w 0 = Trying 7 \<and>
    (owns w 0 7 \<and> owns w 1 7 \<longrightarrow> (0 :: nat) = 1) \<and>
    (pcs w 1 = Running \<longrightarrow> holding 1 7 (lk w) = (7 \<in> set (held w 1)))"
proof -
  from waiting_reachable obtain w where w: "reach spin_start spin_step w" "pcs w 0 = Trying 7" by blast
  show ?thesis
    using spinlock_mutual_exclusion [OF w(1), of 0 7 1] spinlock_mutual_exclusion [OF w(1), of 1 7 1] w
    by (intro exI [of _ w]) blast
qed

text \<open>
  C11. A CPU that has a lock, or is waiting for one, runs with interrupts off, and the counter of
  \<open>push_off\<close> is the number of locks it has (plus the one it is taking or dropping); in particular
  neither panic of \<open>pop_off\<close> is reached in \<open>release\<close>.
\<close>

theorem spinlock_interrupts_off:
  assumes "reach spin_start spin_step w" and "held w c \<noteq> [] \<or> pcs w c \<noteq> Running"
  shows "\<not> sie (cpus (lk w) c) \<and>
    noff (cpus (lk w) c) = int (length (held w c)) + (if pcs w c = Running then 0 else 1) \<and>
    (pcs w c = Dropping l \<longrightarrow> (\<exists>s. pop_off c (Spinlock.unlock l (lk w)) = Inr s))"
proof -
  have "count_inv w c" using spl.reach_inv [OF assms(1)] by (simp add: spin_inv_def)
  moreover have "0 < int (length (held w c)) + (if pcs w c = Running then 0 else 1)" using assms(2) by auto
  ultimately show ?thesis by (auto simp: count_inv_def pop_off_def Spinlock.unlock_def Let_def)
qed

theorem spinlock_interrupts_off_witness:
  "\<exists>w. reach spin_start spin_step w \<and> pcs w 0 = Trying 7 \<and> \<not> sie (cpus (lk w) 0) \<and> noff (cpus (lk w) 0) = 1"
proof -
  from waiting_reachable obtain w where w: "reach spin_start spin_step w" "pcs w 0 = Trying 7" "held w 0 = []" by blast
  show ?thesis using spinlock_interrupts_off [OF w(1), of 0 7] w by (intro exI [of _ w]) auto
qed

end
