(* ===== verification/Machine.thy ===== *)
theory Machine
  imports Prelude
begin

section \<open>The machine: parameters, address macros and byte memory\<close>

text \<open>
  The constants of kernel/param.h and kernel/memlayout.h, the address and page-table-entry
  macros of kernel/riscv.h, and physical memory as a function from addresses to bytes with the
  little-endian loads and stores the C code performs on it. The lemmas relate the bit
  operations of the macros to arithmetic and give the frame rules of loads and stores.
\<close>

subsection \<open>kernel/param.h\<close>

abbreviation (input) MAX_THREAD :: nat where "MAX_THREAD \<equiv> 4"
abbreviation (input) NPROC :: nat where "NPROC \<equiv> 64"
abbreviation (input) NCPU :: nat where "NCPU \<equiv> 8"
abbreviation (input) NOFILE :: nat where "NOFILE \<equiv> 16"
abbreviation (input) NFILE :: nat where "NFILE \<equiv> 100"
abbreviation (input) NINODE :: nat where "NINODE \<equiv> 50"
abbreviation (input) NDEV :: nat where "NDEV \<equiv> 10"
abbreviation (input) ROOTDEV :: uint where "ROOTDEV \<equiv> 1"
abbreviation (input) MAXARG :: nat where "MAXARG \<equiv> 32"
abbreviation (input) MAXOPBLOCKS :: nat where "MAXOPBLOCKS \<equiv> 10"

text \<open>\<open>LOGSIZE\<close> and \<open>NBUF\<close> are both \<open>MAXOPBLOCKS*3\<close>.\<close>

abbreviation (input) LOGSIZE :: nat where "LOGSIZE \<equiv> 30"
abbreviation (input) NBUF :: nat where "NBUF \<equiv> 30"
abbreviation (input) FSSIZE :: nat where "FSSIZE \<equiv> 2000"
abbreviation (input) MAXPATH :: nat where "MAXPATH \<equiv> 128"
abbreviation (input) USERSTACK :: uint64 where "USERSTACK \<equiv> 1"

subsection \<open>kernel/memlayout.h and the address macros of kernel/riscv.h\<close>

abbreviation (input) PGSIZE :: uint64 where "PGSIZE \<equiv> 4096"
abbreviation (input) KERNBASE :: uint64 where "KERNBASE \<equiv> 0x80000000"
abbreviation (input) PHYSTOP :: uint64 where "PHYSTOP \<equiv> 0x88000000"
abbreviation (input) MAXVA :: uint64 where "MAXVA \<equiv> 0x4000000000"
abbreviation (input) TRAMPOLINE :: uint64 where "TRAMPOLINE \<equiv> MAXVA - PGSIZE"
abbreviation (input) TRAPFRAME :: uint64 where "TRAPFRAME \<equiv> TRAMPOLINE - PGSIZE"

definition KSTACK :: "nat \<Rightarrow> uint64" where
  "KSTACK p = TRAMPOLINE - of_nat ((p + 1) * 2 * 4096)"

definition PGROUNDUP :: "uint64 \<Rightarrow> uint64" where
  "PGROUNDUP sz = (sz + PGSIZE - 1) AND NOT (PGSIZE - 1)"

definition PGROUNDDOWN :: "uint64 \<Rightarrow> uint64" where
  "PGROUNDDOWN a = a AND NOT (PGSIZE - 1)"

abbreviation (input) PTE_V :: uint64 where "PTE_V \<equiv> 1"
abbreviation (input) PTE_R :: uint64 where "PTE_R \<equiv> 2"
abbreviation (input) PTE_W :: uint64 where "PTE_W \<equiv> 4"
abbreviation (input) PTE_X :: uint64 where "PTE_X \<equiv> 8"
abbreviation (input) PTE_U :: uint64 where "PTE_U \<equiv> 16"

definition PA2PTE :: "uint64 \<Rightarrow> uint64" where
  "PA2PTE pa = push_bit 10 (drop_bit 12 pa)"

definition PTE2PA :: "uint64 \<Rightarrow> uint64" where
  "PTE2PA pte = push_bit 12 (drop_bit 10 pte)"

definition PTE_FLAGS :: "uint64 \<Rightarrow> uint64" where
  "PTE_FLAGS pte = pte AND 0x3FF"

definition PXSHIFT :: "nat \<Rightarrow> nat" where
  "PXSHIFT level = 12 + 9 * level"

definition PX :: "nat \<Rightarrow> uint64 \<Rightarrow> uint64" where
  "PX level va = drop_bit (PXSHIFT level) va AND 0x1FF"

subsection \<open>Byte memory\<close>

type_synonym memory = "uint64 \<Rightarrow> byte"

definition mem_read :: "memory \<Rightarrow> uint64 \<Rightarrow> nat \<Rightarrow> byte list" where
  "mem_read m a n = map (\<lambda>i. m (a + of_nat i)) [0..<n]"

definition mem_write :: "memory \<Rightarrow> uint64 \<Rightarrow> byte list \<Rightarrow> memory" where
  "mem_write m a bs = (\<lambda>x. if unat (x - a) < length bs then bs ! unat (x - a) else m x)"

primrec bytes_of_word :: "nat \<Rightarrow> 'a::len word \<Rightarrow> byte list" where
  "bytes_of_word 0 w = []"
| "bytes_of_word (Suc n) w = ucast w # bytes_of_word n (drop_bit 8 w)"

primrec word_of_bytes :: "byte list \<Rightarrow> 'a::len word" where
  "word_of_bytes [] = 0"
| "word_of_bytes (b # bs) = ucast b OR push_bit 8 (word_of_bytes bs)"

definition load64 :: "memory \<Rightarrow> uint64 \<Rightarrow> uint64" where
  "load64 m a = word_of_bytes (mem_read m a 8)"

definition store64 :: "memory \<Rightarrow> uint64 \<Rightarrow> uint64 \<Rightarrow> memory" where
  "store64 m a v = mem_write m a (bytes_of_word 8 v)"

definition load32 :: "memory \<Rightarrow> uint64 \<Rightarrow> uint" where
  "load32 m a = word_of_bytes (mem_read m a 4)"

definition store32 :: "memory \<Rightarrow> uint64 \<Rightarrow> uint \<Rightarrow> memory" where
  "store32 m a v = mem_write m a (bytes_of_word 4 v)"

subsection \<open>Page-aligned addresses\<close>

text \<open>\<open>pg_aligned a\<close> is the test \<open>a % PGSIZE == 0\<close> of the code; \<open>in_page p x\<close> says x lies in the page at p.\<close>

definition pg_aligned :: "uint64 \<Rightarrow> bool" where
  "pg_aligned a \<longleftrightarrow> a mod PGSIZE = 0"

definition in_page :: "uint64 \<Rightarrow> uint64 \<Rightarrow> bool" where
  "in_page p x \<longleftrightarrow> unat (x - p) < 4096"

lemma pg_aligned_unat: "pg_aligned a \<longleftrightarrow> unat a mod 4096 = 0"
proof -
  have "unat (a mod PGSIZE) = unat a mod 4096"
    by (simp add: unat_mod)
  then show ?thesis
    by (metis pg_aligned_def unat_eq_zero)
qed

lemma unat64_bound: "unat (a :: uint64) < 18446744073709551616"
proof -
  have "unat a < 2 ^ LENGTH(64)" by (rule unsigned_less)
  then show ?thesis by simp
qed

lemma aligned_add_less:
  fixes p k :: nat
  assumes "p mod 4096 = 0" and "k < 4096" and "p < 18446744073709551616"
  shows "p + k < 18446744073709551616"
proof -
  from assms(1) obtain q where q: "p = 4096 * q" by (auto elim: dvdE)
  with assms(3) have "q < 4503599627370496" by simp
  with q assms(2) show ?thesis by linarith
qed

text \<open>The masks of the macros, bit by bit.\<close>

lemma bit_int_masks [simp]:
  "bit (4095 :: int) n \<longleftrightarrow> n < 12"
  "bit (1023 :: int) n \<longleftrightarrow> n < 10"
  "bit (511 :: int) n \<longleftrightarrow> n < 9"
proof -
  have "(4095 :: int) = mask 12" "(1023 :: int) = mask 10" "(511 :: int) = mask 9"
    by (simp_all add: mask_eq_exp_minus_1)
  then show "bit (4095 :: int) n \<longleftrightarrow> n < 12" "bit (1023 :: int) n \<longleftrightarrow> n < 10"
    "bit (511 :: int) n \<longleftrightarrow> n < 9"
    by (simp_all only: bit_mask_iff) auto
qed

lemma PGROUNDDOWN_shift: "PGROUNDDOWN a = push_bit 12 (drop_bit 12 a)"
  by (rule bit_word_eqI) (auto simp: PGROUNDDOWN_def bit_simps)

lemma unat_PGROUNDDOWN: "unat (PGROUNDDOWN a) = unat a div 4096 * 4096"
proof -
  have "PGROUNDDOWN a = (a div 4096) * 4096"
    by (simp add: PGROUNDDOWN_shift push_bit_eq_mult drop_bit_eq_div)
  moreover have "unat (a div 4096) = unat a div 4096" by (simp add: unat_div)
  moreover have "unat a div 4096 * 4096 < 18446744073709551616"
    using unat64_bound [of a] div_times_less_eq_dividend [of "unat a" 4096] by linarith
  ultimately show ?thesis by (simp add: unat_word_ariths)
qed

lemma PGROUNDDOWN_aligned [simp]: "pg_aligned (PGROUNDDOWN a)"
  by (simp add: pg_aligned_unat unat_PGROUNDDOWN)

lemma PGROUNDDOWN_le: "PGROUNDDOWN a \<le> a"
  by (simp add: word_le_nat_alt unat_PGROUNDDOWN)

lemma PGROUNDUP_down: "PGROUNDUP sz = PGROUNDDOWN (sz + 4095)"
  by (simp add: PGROUNDUP_def PGROUNDDOWN_def add.commute)

lemma PGROUNDUP_aligned [simp]: "pg_aligned (PGROUNDUP a)"
  by (simp add: PGROUNDUP_down)

lemma unat_PGROUNDUP:
  assumes "unat sz + 4095 < 2 ^ 64"
  shows "unat (PGROUNDUP sz) = (unat sz + 4095) div 4096 * 4096"
proof -
  have "unat (sz + 4095) = unat sz + 4095"
    using assms by (subst unat_add_lem [THEN iffD1]) auto
  then show ?thesis by (simp add: PGROUNDUP_down unat_PGROUNDDOWN)
qed

lemma in_page_self [simp]: "in_page p p"
  by (simp add: in_page_def)

lemma in_page_iff:
  assumes "pg_aligned p"
  shows "in_page p x \<longleftrightarrow> PGROUNDDOWN x = p"
proof
  assume "in_page p x"
  define k where "k = unat (x - p)"
  have k: "k < 4096" using \<open>in_page p x\<close> by (simp add: in_page_def k_def)
  have x: "x = p + of_nat k" by (simp add: k_def)
  have "unat p + k < 18446744073709551616"
    using assms k by (auto simp: pg_aligned_unat unat64_bound intro: aligned_add_less)
  then have "unat x = unat p + k"
    using k by (simp add: x unat_word_ariths unat_of_nat)
  moreover from assms obtain q where "unat p = 4096 * q"
    by (auto simp: pg_aligned_unat elim: dvdE)
  ultimately have "unat (PGROUNDDOWN x) = unat p"
    using k by (simp add: unat_PGROUNDDOWN)
  then show "PGROUNDDOWN x = p" by (simp add: word_unat_eq_iff)
next
  assume "PGROUNDDOWN x = p"
  then have "p \<le> x" "unat p = unat x div 4096 * 4096"
    using PGROUNDDOWN_le unat_PGROUNDDOWN by auto
  then have "unat (x - p) = unat x - unat x div 4096 * 4096"
    by (simp add: unat_sub)
  then show "in_page p x" by (simp add: in_page_def minus_div_mult_eq_mod)
qed

lemma in_page_unique: "pg_aligned p \<Longrightarrow> pg_aligned q \<Longrightarrow> in_page p x \<Longrightarrow> in_page q x \<Longrightarrow> p = q"
  by (simp add: in_page_iff)

subsection \<open>Loads and stores\<close>

lemma length_mem_read [simp]: "length (mem_read m a n) = n"
  by (simp add: mem_read_def)

lemma length_bytes_of_word [simp]: "length (bytes_of_word n w) = n"
  by (induction n arbitrary: w) simp_all

lemma mem_write_outside: "\<not> unat (x - a) < length bs \<Longrightarrow> mem_write m a bs x = m x"
  by (simp add: mem_write_def)

lemma mem_write_Nil [simp]: "mem_write m a [] = m"
  by (simp add: mem_write_def)

lemma unat_of_nat64: "i < 18446744073709551616 \<Longrightarrow> unat (of_nat i :: uint64) = i"
  by (simp add: unat_of_nat)

lemma mem_read_nth: "i < n \<Longrightarrow> mem_read m a n ! i = m (a + of_nat i)"
  by (simp add: mem_read_def)

lemma mem_read_write_same:
  assumes "length bs \<le> 18446744073709551616"
  shows "mem_read (mem_write m a bs) a (length bs) = bs"
  using assms by (intro nth_equalityI) (simp_all add: mem_read_nth mem_write_def unat_of_nat64)

lemma mem_read_write_prefix:
  assumes "length bs \<le> n" and "n \<le> 18446744073709551616"
  shows "mem_read (mem_write m a bs) a n = bs @ drop (length bs) (mem_read m a n)"
proof (rule nth_equalityI)
  fix i assume "i < length (mem_read (mem_write m a bs) a n)"
  with assms show "mem_read (mem_write m a bs) a n ! i = (bs @ drop (length bs) (mem_read m a n)) ! i"
    by (auto simp: mem_read_nth mem_write_def unat_of_nat64 nth_append)
qed (use assms in simp)

lemma mem_read_cong: "(\<And>i. i < n \<Longrightarrow> m (a + of_nat i) = m' (a + of_nat i)) \<Longrightarrow> mem_read m a n = mem_read m' a n"
  by (simp add: mem_read_def)

lemma word_of_bytes_of_word:
  "word_of_bytes (bytes_of_word n w) = (take_bit (8 * n) w :: 'a::len word)"
proof (induction n arbitrary: w)
  case 0
  then show ?case by simp
next
  case (Suc n)
  have "ucast (ucast w :: byte) OR push_bit 8 (take_bit (8 * n) (drop_bit 8 w)) = take_bit (8 + 8 * n) w"
    by (rule bit_word_eqI) (auto simp: bit_simps)
  with Suc.IH show ?case by simp
qed

lemma load64_store64_same [simp]: "load64 (store64 m a v) a = v"
proof -
  have "mem_read (store64 m a v) a 8 = bytes_of_word 8 v"
    using mem_read_write_same [of "bytes_of_word 8 v" m a] by (simp add: store64_def)
  moreover have "word_of_bytes (bytes_of_word 8 v) = v"
    by (simp only: word_of_bytes_of_word) (simp add: take_bit_word_eq_self)
  ultimately show ?thesis by (simp add: load64_def)
qed

lemma load32_store32_same [simp]: "load32 (store32 m a v) a = v"
proof -
  have "mem_read (store32 m a v) a 4 = bytes_of_word 4 v"
    using mem_read_write_same [of "bytes_of_word 4 v" m a] by (simp add: store32_def)
  moreover have "word_of_bytes (bytes_of_word 4 v) = v"
    by (simp only: word_of_bytes_of_word) (simp add: take_bit_word_eq_self)
  ultimately show ?thesis by (simp add: load32_def)
qed

lemma load64_cong: "(\<And>i. i < 8 \<Longrightarrow> m (a + of_nat i) = m' (a + of_nat i)) \<Longrightarrow> load64 m a = load64 m' a"
  by (simp add: load64_def cong: mem_read_cong)

lemma store64_outside: "\<not> unat (x - a) < 8 \<Longrightarrow> store64 m a v x = m x"
  by (simp add: store64_def mem_write_def)

lemma unat64_minus_neg: "a \<noteq> b \<Longrightarrow> unat (a - b) = 18446744073709551616 - unat (b - a)" for a b :: uint64
  using unat64_bound [of a] unat64_bound [of b]
  by (auto simp: unat_sub_if' word_unat_eq_iff)

lemma load64_store64_other:
  assumes "8 \<le> unat (b - a)" and "8 \<le> unat (a - b)"
  shows "load64 (store64 m a v) b = load64 m b"
proof (rule load64_cong)
  fix i :: nat assume i: "i < 8"
  have "a \<noteq> b" using assms by auto
  then have "unat (b - a) \<le> 18446744073709551608"
    using assms unat64_minus_neg [of a b] by simp
  with i have "unat ((b - a) + of_nat i) = unat (b - a) + i"
    by (subst unat_add_lem [THEN iffD1]) (simp_all add: unat_of_nat64)
  then have "\<not> unat (b + of_nat i - a) < 8"
    using assms(1) by (simp add: algebra_simps)
  then show "store64 m a v (b + of_nat i) = m (b + of_nat i)"
    by (rule store64_outside)
qed

subsection \<open>Entries of a page of 64-bit words\<close>

text \<open>The address of \<open>pagetable[i]\<close>.\<close>

definition entry :: "uint64 \<Rightarrow> uint64 \<Rightarrow> uint64" where
  "entry p i = p + 8 * i"

lemma unat_8_mult: "i < 512 \<Longrightarrow> unat (8 * i :: uint64) = 8 * unat i"
  by (subst unat_mult_lem [THEN iffD1]) (simp_all add: word_less_nat_alt)

lemma unat_entry_offset:
  assumes "i < 512" and "k < 8"
  shows "unat (entry p i + of_nat k - p) = 8 * unat i + k"
proof -
  have "unat (8 * i + of_nat k :: uint64) = 8 * unat i + k"
    using assms by (subst unat_add_lem [THEN iffD1])
      (simp_all add: unat_8_mult unat_of_nat64 word_less_nat_alt)
  then show ?thesis by (simp add: entry_def algebra_simps)
qed

lemma entry_in_page: "i < 512 \<Longrightarrow> k < 8 \<Longrightarrow> in_page p (entry p i + of_nat k)"
  by (simp add: in_page_def unat_entry_offset word_less_nat_alt)

lemma entry_in_page0 [simp]: "i < 512 \<Longrightarrow> in_page p (entry p i)"
  using entry_in_page [of i 0 p] by simp

lemma entry_inj: "i < 512 \<Longrightarrow> j < 512 \<Longrightarrow> entry p i = entry p j \<longleftrightarrow> i = j"
  using unat_entry_offset [of i 0 p] unat_entry_offset [of j 0 p]
  by (metis add_0_right mult_cancel1 of_nat_0 word_unat_eq_iff zero_neq_numeral zero_less_numeral)

lemma unat_entry_diff:
  assumes "i < 512" and "j < 512" and "i \<noteq> j"
  shows "8 \<le> unat (entry p i - entry p j)"
proof -
  have *: "8 \<le> unat (entry p i - entry p j)" if "j < i" "i < 512" "j < 512" for i j :: uint64
  proof -
    have "entry p i - entry p j = 8 * (i - j)" by (simp add: entry_def algebra_simps)
    moreover have "i - j < 512" using that by (simp add: word_less_nat_alt unat_sub word_le_nat_alt)
    moreover have "1 \<le> unat (i - j)" using that by (simp add: unat_sub word_less_nat_alt word_le_nat_alt)
    ultimately show ?thesis by (simp only: unat_8_mult)
  qed
  have up: "unat (entry p j - entry p i) \<le> 4088" if "i < j" "i < 512" "j < 512" for i j :: uint64
  proof -
    have "entry p j - entry p i = 8 * (j - i)" by (simp add: entry_def algebra_simps)
    moreover have "j - i < 512" "unat (j - i) \<le> 511"
      using that by (simp_all add: word_less_nat_alt unat_sub word_le_nat_alt)
    ultimately show ?thesis by (simp only: unat_8_mult)
  qed
  show ?thesis
  proof (cases "j < i")
    case True
    with * assms show ?thesis by blast
  next
    case False
    with assms have "i < j" by simp
    with up [of i j] assms have "unat (entry p j - entry p i) \<le> 4088" by blast
    moreover have "entry p i \<noteq> entry p j" using assms by (simp add: entry_inj)
    ultimately show ?thesis using unat64_minus_neg [of "entry p i" "entry p j"] by simp
  qed
qed

lemma load64_store64_entry:
  "i < 512 \<Longrightarrow> j < 512 \<Longrightarrow> i \<noteq> j \<Longrightarrow> load64 (store64 m (entry p j) v) (entry p i) = load64 m (entry p i)"
  by (intro load64_store64_other unat_entry_diff) auto

text \<open>A store to an entry of one page leaves every other page as it was.\<close>

lemma store64_entry_in_page:
  assumes "j < 512" and "\<not> in_page p x"
  shows "store64 m (entry p j) v x = m x"
proof (rule store64_outside, rule notI)
  assume less: "unat (x - entry p j) < 8"
  define k where "k = unat (x - entry p j)"
  have x: "entry p j + of_nat k = x" by (simp add: k_def)
  have "in_page p (entry p j + of_nat k)"
    using assms(1) less by (intro entry_in_page) (simp_all add: k_def)
  with assms(2) show False by (simp only: x)
qed

lemma load64_other_page:
  assumes "pg_aligned p" "pg_aligned q" "p \<noteq> q" "i < 512"
    and "\<And>x. \<not> in_page p x \<Longrightarrow> m' x = m x"
  shows "load64 m' (entry q i) = load64 m (entry q i)"
proof (rule load64_cong)
  fix k :: nat assume "k < 8"
  with assms(4) have "in_page q (entry q i + of_nat k)" by (rule entry_in_page)
  with assms(1-3) have "\<not> in_page p (entry q i + of_nat k)" using in_page_unique by blast
  then show "m' (entry q i + of_nat k) = m (entry q i + of_nat k)" by (rule assms(5))
qed

subsection \<open>Page-table entries and indices\<close>

lemma PTE2PA_PA2PTE:
  assumes "pg_aligned pa" and "flags \<le> 0x3FF"
  shows "PTE2PA (PA2PTE pa OR flags) = pa"
proof -
  have "drop_bit 10 flags = 0"
    using assms(2) by (simp add: drop_bit_eq_div word_le_nat_alt word_unat_eq_iff unat_div)
  moreover have "push_bit 12 (drop_bit 12 pa) = pa"
    using assms(1) by (metis PGROUNDDOWN_shift in_page_iff in_page_self)
  moreover have "PTE2PA (PA2PTE pa OR flags) = push_bit 12 (drop_bit 12 pa) OR push_bit 12 (drop_bit 10 flags)"
    by (rule bit_word_eqI) (auto simp: PTE2PA_def PA2PTE_def bit_simps)
  ultimately show ?thesis by simp
qed

lemma PTE2PA_aligned [simp]: "pg_aligned (PTE2PA pte)"
proof -
  have "PGROUNDDOWN (PTE2PA pte) = PTE2PA pte"
    by (rule bit_word_eqI) (auto simp: PGROUNDDOWN_shift PTE2PA_def bit_simps)
  then show ?thesis by (metis PGROUNDDOWN_aligned)
qed

lemma PX_less [simp]: "PX l va < 512"
proof -
  have "PX l va \<le> 0x1FF" unfolding PX_def by (rule word_and_le1)
  then show ?thesis by (simp add: word_le_nat_alt word_less_nat_alt)
qed

lemma bit_PX: "bit (PX l va) n \<longleftrightarrow> n < 9 \<and> bit va (12 + 9 * l + n)"
  by (auto simp: PX_def PXSHIFT_def bit_simps)

lemma sv39_bits: "(va :: uint64) < 0x8000000000 \<Longrightarrow> 39 \<le> n \<Longrightarrow> \<not> bit va n"
proof -
  assume "va < 0x8000000000" "39 \<le> n"
  then have "drop_bit 39 va = 0"
    by (simp add: drop_bit_eq_div word_unat_eq_iff unat_div word_less_nat_alt)
  then have "\<not> bit (drop_bit 39 va) (n - 39)" by simp
  with \<open>39 \<le> n\<close> show ?thesis by (simp add: bit_drop_bit_eq)
qed

text \<open>Below \<open>2^39\<close>, twice \<open>MAXVA\<close>, the three indices determine the page of a virtual address.\<close>

lemma PX_page_inj:
  assumes "va < 0x8000000000" "vb < 0x8000000000" "PX 2 va = PX 2 vb" "PX 1 va = PX 1 vb" "PX 0 va = PX 0 vb"
  shows "PGROUNDDOWN va = PGROUNDDOWN vb"
proof (rule bit_word_eqI)
  fix n assume "n < LENGTH(64)"
  have px: "bit va (12 + 9 * l + k) = bit vb (12 + 9 * l + k)" if "l < 3" "k < 9" for l k
  proof -
    have "PX l va = PX l vb" using that assms(3-5) by (auto simp: less_Suc_eq numeral_3_eq_3 numeral_2_eq_2)
    with that show ?thesis by (metis bit_PX)
  qed
  have "bit va n = bit vb n" if "12 \<le> n"
  proof (cases "n < 39")
    case True
    define l k where "l = (n - 12) div 9" and "k = (n - 12) mod 9"
    have "n = 12 + 9 * l + k" using that by (simp add: l_def k_def)
    moreover have "l < 3" "k < 9" using True that by (auto simp: l_def k_def)
    ultimately show ?thesis using px [of l k] by simp
  next
    case False
    with assms(1,2) sv39_bits show ?thesis by auto
  qed
  then show "bit (PGROUNDDOWN va) n = bit (PGROUNDDOWN vb) n"
    by (auto simp: PGROUNDDOWN_shift bit_simps)
qed

lemma unat_PX: "unat (PX l va) = unat va div 4096 div 512 ^ l mod 512"
proof -
  have "PX l va = take_bit 9 (drop_bit (12 + 9 * l) va)"
    by (rule bit_word_eqI) (auto simp: bit_PX bit_take_bit_iff bit_drop_bit_eq)
  also have "unat \<dots> = unat va div 2 ^ (12 + 9 * l) mod 512"
    by (simp only: unsigned_take_bit_eq unat_drop_bit_eq) (simp add: take_bit_eq_mod drop_bit_eq_div)
  also have "(2 :: nat) ^ (12 + 9 * l) = 4096 * 512 ^ l" by (simp add: power_add power_mult)
  finally show ?thesis by (simp add: div_mult2_eq)
qed

end
