(* ===== verification/Kstring.thy ===== *)
theory Kstring
  imports Machine
begin

section \<open>kernel/string.c: memory and string routines\<close>

text \<open>
  The routines of kernel/string.c as the loops of the source over byte memory. Lengths that are
  C \<open>uint\<close> or \<open>int\<close> arguments keep their width; the loops count down a natural number. The
  closed forms (\<open>mem_write\<close> of a byte list) proved here are what the other components use;
  \<open>strncpy_bytes\<close> and \<open>safestrcpy_bytes\<close> are the effect of the copies on a character array
  that is a field of a struct.
\<close>

subsection \<open>memset, memcmp, memmove, memcpy\<close>

function memset_loop :: "memory \<Rightarrow> uint64 \<Rightarrow> byte \<Rightarrow> nat \<Rightarrow> nat \<Rightarrow> memory" where
  "memset_loop m cdst c i n =
     (if i < n then memset_loop (m(cdst + of_nat i := c)) cdst c (Suc i) n else m)"
  by pat_completeness auto
termination
  by (relation "measure (\<lambda>(m, cdst, c, i, n). n - i)") auto

declare memset_loop.simps [simp del]

definition memset :: "memory \<Rightarrow> uint64 \<Rightarrow> cint \<Rightarrow> uint \<Rightarrow> memory" where
  "memset m dst c n = memset_loop m dst (ucast c) 0 (unat n)"

fun memcmp_loop :: "memory \<Rightarrow> uint64 \<Rightarrow> uint64 \<Rightarrow> nat \<Rightarrow> int" where
  "memcmp_loop m s1 s2 0 = 0"
| "memcmp_loop m s1 s2 (Suc n) =
     (if m s1 \<noteq> m s2 then uint (m s1) - uint (m s2) else memcmp_loop m (s1 + 1) (s2 + 1) n)"

definition memcmp :: "memory \<Rightarrow> uint64 \<Rightarrow> uint64 \<Rightarrow> uint \<Rightarrow> int" where
  "memcmp m v1 v2 n = memcmp_loop m v1 v2 (unat n)"

fun move_forward :: "memory \<Rightarrow> uint64 \<Rightarrow> uint64 \<Rightarrow> nat \<Rightarrow> memory" where
  "move_forward m d s 0 = m"
| "move_forward m d s (Suc n) = move_forward (m(d := m s)) (d + 1) (s + 1) n"

fun move_backward :: "memory \<Rightarrow> uint64 \<Rightarrow> uint64 \<Rightarrow> nat \<Rightarrow> memory" where
  "move_backward m d s 0 = m"
| "move_backward m d s (Suc n) = move_backward (m(d - 1 := m (s - 1))) (d - 1) (s - 1) n"

definition memmove :: "memory \<Rightarrow> uint64 \<Rightarrow> uint64 \<Rightarrow> uint \<Rightarrow> memory" where
  "memmove m dst src n =
     (if n = 0 then m
      else if src < dst \<and> src + ucast n > dst
      then move_backward m (dst + ucast n) (src + ucast n) (unat n)
      else move_forward m dst src (unat n))"

definition memcpy :: "memory \<Rightarrow> uint64 \<Rightarrow> uint64 \<Rightarrow> uint \<Rightarrow> memory" where
  "memcpy m dst src n = memmove m dst src n"

subsection \<open>strncmp, strncpy, safestrcpy, strlen\<close>

fun strncmp_loop :: "memory \<Rightarrow> uint64 \<Rightarrow> uint64 \<Rightarrow> nat \<Rightarrow> int" where
  "strncmp_loop m p q 0 = 0"
| "strncmp_loop m p q (Suc n) =
     (if m p \<noteq> 0 \<and> m p = m q then strncmp_loop m (p + 1) (q + 1) n
      else uint (m p) - uint (m q))"

definition strncmp :: "memory \<Rightarrow> uint64 \<Rightarrow> uint64 \<Rightarrow> uint \<Rightarrow> int" where
  "strncmp m p q n = strncmp_loop m p q (unat n)"

fun strncpy_pad :: "memory \<Rightarrow> uint64 \<Rightarrow> nat \<Rightarrow> memory" where
  "strncpy_pad m s 0 = m"
| "strncpy_pad m s (Suc n) = strncpy_pad (m(s := 0)) (s + 1) n"

fun strncpy_loop :: "memory \<Rightarrow> uint64 \<Rightarrow> uint64 \<Rightarrow> nat \<Rightarrow> memory" where
  "strncpy_loop m s t 0 = m"
| "strncpy_loop m s t (Suc n) =
     (if m t \<noteq> 0 then strncpy_loop (m(s := m t)) (s + 1) (t + 1) n
      else strncpy_pad (m(s := m t)) (s + 1) n)"

definition strncpy :: "memory \<Rightarrow> uint64 \<Rightarrow> uint64 \<Rightarrow> cint \<Rightarrow> memory" where
  "strncpy m s t n = strncpy_loop m s t (nat (sint n))"

text \<open>The loop's counter is the number of iterations \<open>--n > 0\<close> still allows.\<close>

fun safestrcpy_loop :: "memory \<Rightarrow> uint64 \<Rightarrow> uint64 \<Rightarrow> nat \<Rightarrow> memory" where
  "safestrcpy_loop m s t 0 = m(s := 0)"
| "safestrcpy_loop m s t (Suc n) =
     (if m t \<noteq> 0 then safestrcpy_loop (m(s := m t)) (s + 1) (t + 1) n
      else m(s := m t, s + 1 := 0))"

definition safestrcpy :: "memory \<Rightarrow> uint64 \<Rightarrow> uint64 \<Rightarrow> cint \<Rightarrow> memory" where
  "safestrcpy m s t n = (if sint n \<le> 0 then m else safestrcpy_loop m s t (nat (sint n - 1)))"

partial_function (option) strlen_from :: "memory \<Rightarrow> uint64 \<Rightarrow> nat \<Rightarrow> nat option" where
  "strlen_from m s n = (if m (s + of_nat n) = 0 then Some n else strlen_from m s (Suc n))"

definition strlen :: "memory \<Rightarrow> uint64 \<Rightarrow> nat option" where
  "strlen m s = strlen_from m s 0"

subsection \<open>The same copies on character arrays\<close>

definition cstr :: "byte list \<Rightarrow> byte list" where
  "cstr bs = takeWhile (\<lambda>b. b \<noteq> 0) bs"

definition strncpy_bytes :: "nat \<Rightarrow> byte list \<Rightarrow> byte list" where
  "strncpy_bytes n t = take n (cstr t @ replicate n 0)"

text \<open>When the loop of \<open>safestrcpy\<close> ends on a copied NUL, the final \<open>*s = 0\<close> writes a second one.\<close>

definition safestrcpy_written :: "nat \<Rightarrow> byte list \<Rightarrow> byte list" where
  "safestrcpy_written n t = take n (take (n - 1) (cstr t) @ [0, 0])"

definition safestrcpy_bytes :: "nat \<Rightarrow> byte list \<Rightarrow> byte list \<Rightarrow> byte list" where
  "safestrcpy_bytes n old t = safestrcpy_written n t @ drop (length (safestrcpy_written n t)) old"

subsection \<open>Writes as byte lists\<close>

lemma mem_write_Cons:
  assumes "length bs < 18446744073709551616"
  shows "mem_write m d (b # bs) = mem_write (m(d := b)) (d + 1) bs"
proof
  fix x
  show "mem_write m d (b # bs) x = mem_write (m(d := b)) (d + 1) bs x"
  proof (cases "x = d")
    case True
    have "unat (d - (d + 1)) = 18446744073709551615" by (simp add: unsigned_minus_1_eq_mask mask_eq_exp_minus_1)
    with True assms show ?thesis by (simp add: mem_write_def)
  next
    case False
    then have "1 \<le> unat (x - d)" by (simp add: Suc_leI unat_gt_0)
    moreover have "unat (x - (d + 1)) = unat (x - d) - 1"
      using calculation by (simp add: diff_diff_eq [symmetric] unat_sub word_le_nat_alt)
    ultimately show ?thesis using False
      by (auto simp: mem_write_def nth_Cons' less_diff_conv)
  qed
qed

lemma mem_write_snoc:
  assumes "length bs < 18446744073709551616"
  shows "mem_write m d (bs @ [b]) = mem_write (m(d + of_nat (length bs) := b)) d bs"
proof
  fix x
  show "mem_write m d (bs @ [b]) x = mem_write (m(d + of_nat (length bs) := b)) d bs x"
  proof (cases "unat (x - d) = length bs")
    case True
    moreover have "x = d + of_nat (unat (x - d))" by simp
    ultimately have "x = d + of_nat (length bs)" by simp
    with True show ?thesis by (simp add: mem_write_def)
  next
    case False
    moreover have "x \<noteq> d + of_nat (length bs)" using False assms by (auto simp: unat_of_nat64)
    ultimately show ?thesis by (auto simp: mem_write_def nth_append less_Suc_eq)
  qed
qed

lemma mem_read_Suc: "mem_read m a (Suc n) = m a # mem_read m (a + 1) n"
proof -
  have "[0..<Suc n] = 0 # map Suc [0..<n]"
    by (simp add: upt_conv_Cons map_Suc_upt del: upt_Suc)
  then show ?thesis
    by (simp add: mem_read_def comp_def algebra_simps del: upt_Suc)
qed

lemma mem_read_snoc: "mem_read m a (Suc n) = mem_read m a n @ [m (a + of_nat n)]"
  by (simp add: mem_read_def)

lemma mem_read_0 [simp]: "mem_read m a 0 = []"
  by (simp add: mem_read_def)

lemma memset_loop_eq:
  "i \<le> n \<Longrightarrow> n < 18446744073709551616 \<Longrightarrow>
    memset_loop m d c i n = mem_write m (d + of_nat i) (replicate (n - i) c)"
proof (induction "n - i" arbitrary: i m)
  case 0
  then show ?case by (subst memset_loop.simps) simp
next
  case (Suc k)
  then have i: "i < n" "k = n - Suc i" and r: "n - i = Suc (n - Suc i)" by auto
  have "memset_loop m d c i n = memset_loop (m(d + of_nat i := c)) d c (Suc i) n"
    using i by (subst memset_loop.simps) simp
  also have "\<dots> = mem_write (m(d + of_nat i := c)) (d + of_nat (Suc i)) (replicate (n - Suc i) c)"
    using Suc.prems i by (intro Suc.hyps) auto
  also have "\<dots> = mem_write m (d + of_nat i) (c # replicate (n - Suc i) c)"
    using Suc.prems by (subst mem_write_Cons) (simp_all add: add.assoc add.commute [of 1])
  finally show ?case by (simp add: r)
qed

lemma memset_eq: "memset m d c n = mem_write m d (replicate (unat n) (ucast c))"
proof -
  have "unat n < 2 ^ LENGTH(32)" by (rule unsigned_less)
  then show ?thesis by (simp add: memset_def memset_loop_eq)
qed

lemma memcmp_loop_0_iff: "memcmp_loop m a b n = 0 \<longleftrightarrow> mem_read m a n = mem_read m b n"
  by (induction n arbitrary: a b) (auto simp: mem_read_Suc word_uint_eq_iff)

subsection \<open>memmove copies the original bytes, also between overlapping regions\<close>

text \<open>
  The forward loop is right unless the destination starts inside the source, the backward loop
  when it starts at or after it. Both are stated for regions that do not wrap around.
\<close>

lemma unat_add_of_nat: "unat a + n < 18446744073709551616 \<Longrightarrow> unat (a + of_nat n) = unat a + n"
  for a :: uint64
  by (simp add: unat_word_ariths unat_of_nat)

lemma mem_read_upd_outside:
  assumes "unat a + n \<le> 18446744073709551616"
    and "unat x < unat a \<or> unat a + n \<le> unat x"
  shows "mem_read (m(x := v)) a n = mem_read m a n"
proof (rule mem_read_cong)
  fix i assume "i < n"
  with assms(1) have "unat (a + of_nat i) = unat a + i" by (intro unat_add_of_nat) simp
  with \<open>i < n\<close> assms(2) have "a + of_nat i \<noteq> x" by auto
  then show "(m(x := v)) (a + of_nat i) = m (a + of_nat i)" by simp
qed

lemma move_forward_eq:
  assumes "unat d + n < 18446744073709551616" and "unat s + n < 18446744073709551616"
    and "unat d \<le> unat s \<or> unat s + n \<le> unat d"
  shows "move_forward m d s n = mem_write m d (mem_read m s n)"
  using assms
proof (induction n arbitrary: m d s)
  case 0
  then show ?case by simp
next
  case (Suc n)
  have u: "unat (d + 1) = unat d + 1" "unat (s + 1) = unat s + 1"
    using Suc.prems unat_add_of_nat [of d 1] unat_add_of_nat [of s 1] by simp_all
  have "move_forward m d s (Suc n) = mem_write (m(d := m s)) (d + 1) (mem_read (m(d := m s)) (s + 1) n)"
    unfolding move_forward.simps by (rule Suc.IH) (use Suc.prems u in auto)
  also have "mem_read (m(d := m s)) (s + 1) n = mem_read m (s + 1) n"
    using Suc.prems u by (intro mem_read_upd_outside) auto
  also have "mem_write (m(d := m s)) (d + 1) (mem_read m (s + 1) n) = mem_write m d (m s # mem_read m (s + 1) n)"
    using Suc.prems by (subst mem_write_Cons) simp_all
  finally show ?case by (simp add: mem_read_Suc)
qed

lemma move_backward_eq:
  assumes "unat d + n < 18446744073709551616" and "unat s + n < 18446744073709551616"
    and "unat s \<le> unat d"
  shows "move_backward m (d + of_nat n) (s + of_nat n) n = mem_write m d (mem_read m s n)"
  using assms
proof (induction n arbitrary: m)
  case 0
  then show ?case by simp
next
  case (Suc n)
  let ?m = "m(d + of_nat n := m (s + of_nat n))"
  have u: "unat (d + of_nat n) = unat d + n" using Suc.prems by (intro unat_add_of_nat) simp
  have "move_backward m (d + of_nat (Suc n)) (s + of_nat (Suc n)) (Suc n)
      = move_backward ?m (d + of_nat n) (s + of_nat n) n"
    by (simp add: add.commute add.left_commute)
  also have "\<dots> = mem_write ?m d (mem_read ?m s n)"
    using Suc.prems by (intro Suc.IH) simp_all
  also have "mem_read ?m s n = mem_read m s n"
    using Suc.prems u by (intro mem_read_upd_outside) auto
  also have "mem_write ?m d (mem_read m s n) = mem_write m d (mem_read m s n @ [m (s + of_nat n)])"
    using Suc.prems by (subst mem_write_snoc) simp_all
  finally show ?case by (simp add: mem_read_snoc)
qed

lemma memmove_eq:
  assumes "unat dst + unat n < 18446744073709551616" and "unat src + unat n < 18446744073709551616"
  shows "memmove m dst src n = mem_write m dst (mem_read m src (unat n))"
proof (cases "n = 0")
  case True
  then show ?thesis by (simp add: memmove_def)
next
  case False
  have n: "ucast n = (of_nat (unat n) :: uint64)" by (simp add: unsigned_eq_0_iff)
  have s: "unat (src + ucast n) = unat src + unat n"
    unfolding n using assms(2) by (rule unat_add_of_nat)
  show ?thesis
  proof (cases "src < dst \<and> src + ucast n > dst")
    case True
    with False have "memmove m dst src n = move_backward m (dst + of_nat (unat n)) (src + of_nat (unat n)) (unat n)"
      unfolding n [symmetric] by (simp add: memmove_def)
    also have "\<dots> = mem_write m dst (mem_read m src (unat n))"
      using True assms by (intro move_backward_eq) (simp_all add: word_less_nat_alt)
    finally show ?thesis .
  next
    case outside: False
    with False have "memmove m dst src n = move_forward m dst src (unat n)"
      by (auto simp: memmove_def)
    also have "\<dots> = mem_write m dst (mem_read m src (unat n))"
      using outside assms s by (intro move_forward_eq) (auto simp: word_less_nat_alt)
    finally show ?thesis .
  qed
qed

subsection \<open>String comparison and copies\<close>

lemma cstr_simps [simp]:
  "cstr [] = []"
  "cstr (b # bs) = (if b = 0 then [] else b # cstr bs)"
  by (simp_all add: cstr_def)

lemma cstr_nonzero: "0 \<notin> set (cstr bs)"
  by (induction bs) auto

lemma cstr_take: "cstr (take n (cstr bs)) = take n (cstr bs)"
  by (induction bs arbitrary: n) (auto simp: take_Cons')

lemma cstr_append_NUL: "0 \<notin> set xs \<Longrightarrow> cstr (xs @ 0 # ys) = xs"
  by (induction xs) auto

lemma strncmp_loop_0_iff: "strncmp_loop m p q n = 0 \<longleftrightarrow> cstr (mem_read m p n) = cstr (mem_read m q n)"
  by (induction n arbitrary: p q) (auto simp: mem_read_Suc word_uint_eq_iff)

lemma strncpy_pad_eq:
  "n < 18446744073709551616 \<Longrightarrow> strncpy_pad m s n = mem_write m s (replicate n 0)"
  by (induction n arbitrary: m s) (simp_all add: mem_write_Cons)

lemma strncpy_bytes_simps [simp]:
  "strncpy_bytes 0 t = []"
  "strncpy_bytes (Suc n) (c # t) = (if c = 0 then replicate (Suc n) 0 else c # strncpy_bytes n t)"
  by (auto simp: strncpy_bytes_def take_append simp flip: replicate_Suc)

lemma length_strncpy_bytes [simp]: "length (strncpy_bytes n t) = n"
  by (simp add: strncpy_bytes_def)

lemma strncpy_loop_eq:
  assumes "unat s + n < 18446744073709551616" and "unat t + n < 18446744073709551616"
    and "unat s \<le> unat t \<or> unat t + n \<le> unat s"
  shows "strncpy_loop m s t n = mem_write m s (strncpy_bytes n (mem_read m t n))"
  using assms
proof (induction n arbitrary: m s t)
  case 0
  then show ?case by simp
next
  case (Suc n)
  have u: "unat (s + 1) = unat s + 1" "unat (t + 1) = unat t + 1"
    using Suc.prems unat_add_of_nat [of s 1] unat_add_of_nat [of t 1] by simp_all
  show ?case
  proof (cases "m t = 0")
    case True
    have "strncpy_loop m s t (Suc n) = mem_write (m(s := 0)) (s + 1) (replicate n 0)"
      using Suc.prems True by (simp add: strncpy_pad_eq)
    also have "\<dots> = mem_write m s (0 # replicate n 0)"
      using Suc.prems by (subst mem_write_Cons) simp_all
    finally show ?thesis using True by (simp add: mem_read_Suc)
  next
    case False
    have "strncpy_loop m s t (Suc n)
        = mem_write (m(s := m t)) (s + 1) (strncpy_bytes n (mem_read (m(s := m t)) (t + 1) n))"
      using False by (simp, intro Suc.IH) (use Suc.prems u in auto)
    also have "mem_read (m(s := m t)) (t + 1) n = mem_read m (t + 1) n"
      using Suc.prems u by (intro mem_read_upd_outside) auto
    also have "mem_write (m(s := m t)) (s + 1) (strncpy_bytes n (mem_read m (t + 1) n))
        = mem_write m s (m t # strncpy_bytes n (mem_read m (t + 1) n))"
      using Suc.prems by (subst mem_write_Cons) simp_all
    finally show ?thesis using False by (simp add: mem_read_Suc)
  qed
qed

lemma safestrcpy_written_simps [simp]:
  "safestrcpy_written (Suc 0) t = [0]"
  "safestrcpy_written (Suc (Suc n)) (c # t) = (if c = 0 then [0, 0] else c # safestrcpy_written (Suc n) t)"
  by (auto simp: safestrcpy_written_def)

lemma length_safestrcpy_written: "length (safestrcpy_written n t) \<le> n"
  by (simp add: safestrcpy_written_def)

lemma safestrcpy_loop_eq:
  assumes "unat s + Suc n < 18446744073709551616" and "unat t + Suc n < 18446744073709551616"
    and "unat s \<le> unat t \<or> unat t + n \<le> unat s"
  shows "safestrcpy_loop m s t n = mem_write m s (safestrcpy_written (Suc n) (mem_read m t n))"
  using assms
proof (induction n arbitrary: m s t)
  case 0
  then show ?case by (simp add: mem_write_Cons)
next
  case (Suc n)
  have u: "unat (s + 1) = unat s + 1" "unat (t + 1) = unat t + 1"
    using Suc.prems unat_add_of_nat [of s 1] unat_add_of_nat [of t 1] by simp_all
  show ?case
  proof (cases "m t = 0")
    case True
    then show ?thesis by (simp add: mem_read_Suc mem_write_Cons)
  next
    case False
    have "safestrcpy_loop m s t (Suc n)
        = mem_write (m(s := m t)) (s + 1) (safestrcpy_written (Suc n) (mem_read (m(s := m t)) (t + 1) n))"
      using False by (simp, intro Suc.IH) (use Suc.prems u in auto)
    also have "mem_read (m(s := m t)) (t + 1) n = mem_read m (t + 1) n"
      using Suc.prems u by (intro mem_read_upd_outside) auto
    also have "mem_write (m(s := m t)) (s + 1) (safestrcpy_written (Suc n) (mem_read m (t + 1) n))
        = mem_write m s (m t # safestrcpy_written (Suc n) (mem_read m (t + 1) n))"
      using Suc.prems(1) length_safestrcpy_written [of "Suc n" "mem_read m (t + 1) n"]
      by (intro mem_write_Cons [symmetric]) linarith
    finally show ?thesis using False by (simp add: mem_read_Suc)
  qed
qed

lemma cstr_safestrcpy_written:
  "0 < n \<Longrightarrow> cstr (safestrcpy_written n t @ r) = take (n - 1) (cstr t)"
proof -
  assume "0 < n"
  then obtain k where n: "n = Suc k" by (cases n) auto
  have "cstr (take (Suc k) (take k xs @ [0, 0]) @ r) = take k xs" if "0 \<notin> set xs" for xs :: "byte list"
  proof -
    have "take (Suc k) (take k xs @ [0, 0]) @ r = take k xs @ 0 # (take (k - length (take k xs)) [0] @ r)"
      by (simp add: take_append Suc_diff_le)
    moreover have "0 \<notin> set (take k xs)" using that by (meson in_set_takeD)
    ultimately show ?thesis by (metis cstr_append_NUL)
  qed
  with cstr_nonzero show ?thesis by (simp add: safestrcpy_written_def n)
qed

lemma strlen_from_Some:
  assumes "m (s + of_nat k) = 0" and "n \<le> k" and "\<And>j. n \<le> j \<Longrightarrow> j < k \<Longrightarrow> m (s + of_nat j) \<noteq> 0"
  shows "strlen_from m s n = Some k"
  using assms
proof (induction "k - n" arbitrary: n)
  case 0
  then show ?case by (simp add: strlen_from.simps)
next
  case (Suc d)
  then have "m (s + of_nat n) \<noteq> 0" by simp
  moreover have "strlen_from m s (Suc n) = Some k" using Suc by (intro Suc.hyps) auto
  ultimately show ?case by (simp add: strlen_from.simps)
qed

subsection \<open>Properties\<close>

text \<open>
  C8. \<open>memmove\<close> leaves at the destination the bytes the source held before the call, and every
  other byte of memory as it was, whichever way the two regions overlap, when neither region
  reaches the end of the address space.
\<close>

theorem memmove_correct:
  assumes "unat dst + unat n < 2 ^ 64" and "unat src + unat n < 2 ^ 64"
  shows "mem_read (memmove m dst src n) dst (unat n) = mem_read m src (unat n) \<and>
    (\<forall>x. \<not> unat (x - dst) < unat n \<longrightarrow> memmove m dst src n x = m x)"
proof -
  have eq: "memmove m dst src n = mem_write m dst (mem_read m src (unat n))"
    using assms by (intro memmove_eq) simp_all
  show ?thesis
    using assms mem_read_write_same [of "mem_read m src (unat n)" m dst]
    by (simp add: eq mem_write_outside)
qed

text \<open>The two regions of the witness overlap, source first.\<close>

theorem memmove_correct_witness:
  "mem_read (memmove (\<lambda>a. ucast a) 101 100 3) 101 3 = [100, 101, 102]"
  using memmove_correct [of 101 3 100 "\<lambda>a. ucast a"] by (simp add: mem_read_def upt_rec)

text \<open>
  C9. \<open>safestrcpy\<close> with a positive size always leaves a NUL-terminated string that is the source
  string cut to n - 1 characters, and writes nothing outside the n bytes of its destination.
\<close>

theorem safestrcpy_terminates:
  assumes "0 < sint n" and "unat s + nat (sint n) < 2 ^ 64" and "unat t + nat (sint n) < 2 ^ 64"
    and "unat s + nat (sint n) \<le> unat t \<or> unat t + nat (sint n) \<le> unat s"
  shows "cstr (mem_read (safestrcpy m s t n) s (nat (sint n)))
      = cstr (mem_read m t (nat (sint n) - 1)) \<and>
    0 \<in> set (mem_read (safestrcpy m s t n) s (nat (sint n))) \<and>
    (\<forall>x. \<not> unat (x - s) < nat (sint n) \<longrightarrow> safestrcpy m s t n x = m x)"
proof -
  define k where "k = nat (sint n) - 1"
  have n: "nat (sint n) = Suc k" using assms(1) by (simp add: k_def)
  let ?w = "safestrcpy_written (Suc k) (mem_read m t k)"
  have eq: "safestrcpy m s t n = mem_write m s ?w"
    using assms unfolding n by (subst safestrcpy_loop_eq [symmetric])
      (auto simp: safestrcpy_def k_def nat_diff_distrib)
  have len: "length ?w \<le> Suc k" by (rule length_safestrcpy_written)
  have read: "mem_read (safestrcpy m s t n) s (Suc k) = ?w @ drop (length ?w) (mem_read m s (Suc k))"
    unfolding eq using len assms(2) n by (intro mem_read_write_prefix) simp_all
  have "cstr (?w @ r) = take k (cstr (mem_read m t k))" for r
    by (simp add: cstr_safestrcpy_written)
  also have "take k (cstr (mem_read m t k)) = cstr (mem_read m t k)"
    using length_takeWhile_le [of "\<lambda>b. b \<noteq> 0" "mem_read m t k"] by (simp add: cstr_def)
  finally have "cstr (mem_read (safestrcpy m s t n) s (Suc k)) = cstr (mem_read m t k)"
    unfolding read .
  moreover have "0 \<in> set ?w"
    by (cases "k \<le> length (cstr (mem_read m t k))") (auto simp: safestrcpy_written_def)
  moreover have "\<forall>x. \<not> unat (x - s) < Suc k \<longrightarrow> safestrcpy m s t n x = m x"
    using len by (auto simp: eq intro!: mem_write_outside)
  ultimately show ?thesis by (simp add: n read)
qed

theorem safestrcpy_terminates_witness:
  "cstr (mem_read (safestrcpy (\<lambda>a. if a = 204 then 0 else ucast a) 100 200 3) 100 3) = [200, 201]"
  using safestrcpy_terminates [of 3 100 200 "\<lambda>a. if a = 204 then 0 else ucast a"]
  by (simp add: mem_read_def upt_rec)

end
