(* ===== verification/Kalloc.thy ===== *)
theory Kalloc
  imports Kstring
begin

section \<open>kernel/kalloc.c: the physical page allocator\<close>

text \<open>
  Physical memory together with \<open>kmem\<close>, the allocator's state. The free list is the code's: a
  chain of pages linked through the first eight bytes of each free page, with \<open>freelist\<close> the
  address of the first (0 when the list is empty). \<open>kend\<close> is the linker symbol \<open>end\<close>, the first
  address after the kernel, which no operation changes. \<open>kmem.lock\<close> brackets each list update;
  an operation here is the bracketed section.
\<close>

record pmem =
  mem :: memory
  freelist :: uint64
  kend :: uint64

definition kfree :: "uint64 \<Rightarrow> pmem \<Rightarrow> pmem res" where
  "kfree pa s =
     (if pa mod PGSIZE \<noteq> 0 \<or> pa < kend s \<or> pa \<ge> PHYSTOP then panic ''kfree''
      else
        let m1 = memset (mem s) pa 1 4096;
            m2 = store64 m1 pa (freelist s)
        in Inr (s\<lparr>mem := m2, freelist := pa\<rparr>))"

definition kalloc :: "pmem \<Rightarrow> uint64 \<times> pmem" where
  "kalloc s =
     (let r = freelist s;
          s1 = (if r \<noteq> 0 then s\<lparr>freelist := load64 (mem s) r\<rparr> else s);
          s2 = (if r \<noteq> 0 then s1\<lparr>mem := memset (mem s1) r 5 4096\<rparr> else s1)
      in (r, s2))"

lemma kfree_range: "kfree pa s = Inr t \<Longrightarrow> unat pa < unat PHYSTOP"
  by (auto simp: kfree_def not_le word_less_nat_alt split: if_splits)

function freerange_loop :: "uint64 \<Rightarrow> uint64 \<Rightarrow> pmem \<Rightarrow> pmem res" where
  "freerange_loop p pa_end s =
     (if p + PGSIZE \<le> pa_end
      then bindR (kfree p s) (freerange_loop (p + PGSIZE) pa_end)
      else Inr s)"
  by pat_completeness auto
termination
  by (relation "measure (\<lambda>(p, pa_end, s). unat PHYSTOP - unat p)")
    (auto dest!: kfree_range simp: unat_word_ariths)

declare freerange_loop.simps [simp del]

definition freerange :: "uint64 \<Rightarrow> uint64 \<Rightarrow> pmem \<Rightarrow> pmem res" where
  "freerange pa_start pa_end s = freerange_loop (PGROUNDUP pa_start) pa_end s"

definition kinit :: "pmem \<Rightarrow> pmem res" where
  "kinit s = freerange (kend s) PHYSTOP s"

subsection \<open>The free list and its invariant\<close>

text \<open>\<open>flist m p xs\<close>: starting at p, the chain of \<open>next\<close> pointers visits the pages xs and ends at null.\<close>

fun flist :: "memory \<Rightarrow> uint64 \<Rightarrow> uint64 list \<Rightarrow> bool" where
  "flist m p [] \<longleftrightarrow> p = 0"
| "flist m p (x # xs) \<longleftrightarrow> p = x \<and> x \<noteq> 0 \<and> flist m (load64 m x) xs"

definition page_ok :: "pmem \<Rightarrow> uint64 \<Rightarrow> bool" where
  "page_ok s p \<longleftrightarrow> pg_aligned p \<and> kend s \<le> p \<and> p < PHYSTOP \<and> p \<noteq> 0"

definition kmem_inv :: "pmem \<Rightarrow> uint64 list \<Rightarrow> bool" where
  "kmem_inv s xs \<longleftrightarrow> flist (mem s) (freelist s) xs \<and> distinct xs \<and> (\<forall>x\<in>set xs. page_ok s x)"

text \<open>The pages that are free, as a set: what clients of the allocator know.\<close>

definition free_pages :: "pmem \<Rightarrow> uint64 set \<Rightarrow> bool" where
  "free_pages s F \<longleftrightarrow> (\<exists>xs. kmem_inv s xs \<and> set xs = F)"

lemma flist_cong:
  "(\<And>x i. x \<in> set xs \<Longrightarrow> i < 8 \<Longrightarrow> m (x + of_nat i) = m' (x + of_nat i)) \<Longrightarrow>
    flist m p xs = flist m' p xs"
proof (induction xs arbitrary: p)
  case Nil
  then show ?case by simp
next
  case (Cons x xs)
  have "load64 m x = load64 m' x" using Cons.prems by (intro load64_cong) auto
  with Cons show ?case by auto
qed

lemma word_in_page: "i < 8 \<Longrightarrow> in_page x (x + of_nat i)"
  by (simp add: in_page_def unat_of_nat64)

lemma flist_frame:
  assumes "\<And>y. (\<exists>x\<in>set xs. in_page x y) \<Longrightarrow> m' y = m y"
  shows "flist m' p xs = flist m p xs"
  using assms by (intro flist_cong) (auto intro: word_in_page)

lemma page_ok_aligned: "page_ok s p \<Longrightarrow> pg_aligned p" "page_ok s p \<Longrightarrow> p \<noteq> 0"
  by (simp_all add: page_ok_def)

lemma page_ok_cong: "kend s = kend t \<Longrightarrow> page_ok s = page_ok t"
  by (simp add: page_ok_def fun_eq_iff)

subsection \<open>What each operation does\<close>

lemma memset_page:
  "memset m p c 4096 = (\<lambda>x. if in_page p x then ucast c else m x)"
  by (auto simp: memset_eq mem_write_def in_page_def)

lemma store64_in_page: "\<not> in_page p x \<Longrightarrow> store64 m p v x = m x"
  by (rule store64_outside) (auto simp: in_page_def)

lemma kmem_inv_frame:
  assumes "kmem_inv s xs" and "kend t = kend s" and "freelist t = freelist s"
    and "\<And>y. (\<exists>x\<in>set xs. in_page x y) \<Longrightarrow> mem t y = mem s y"
  shows "kmem_inv t xs"
  using assms flist_frame [of xs "mem t" "mem s"] page_ok_cong [of t s]
  by (auto simp: kmem_inv_def)

lemma kalloc_Nil: "kmem_inv s [] \<Longrightarrow> kalloc s = (0, s)"
  by (simp add: kalloc_def kmem_inv_def)

lemma kalloc_Cons:
  assumes "kmem_inv s (x # xs)"
  shows "\<exists>t. kalloc s = (x, t) \<and> kmem_inv t xs \<and> kend t = kend s \<and>
    mem t = (\<lambda>y. if in_page x y then 5 else mem s y)"
proof -
  let ?t = "s\<lparr>freelist := load64 (mem s) x, mem := memset (mem s) x 5 4096\<rparr>"
  have x: "freelist s = x" "x \<noteq> 0" "flist (mem s) (load64 (mem s) x) xs" "x \<notin> set xs"
    using assms by (auto simp: kmem_inv_def)
  have "kmem_inv (s\<lparr>freelist := load64 (mem s) x\<rparr>) xs"
    using assms x by (auto simp: kmem_inv_def page_ok_def)
  then have "kmem_inv ?t xs"
  proof (rule kmem_inv_frame)
    fix y assume "\<exists>z\<in>set xs. in_page z y"
    then obtain z where z: "z \<in> set xs" "in_page z y" by blast
    with assms x have "z \<noteq> x" "pg_aligned z" "pg_aligned x" by (auto simp: kmem_inv_def page_ok_def)
    with z have "\<not> in_page x y" using in_page_unique by blast
    then show "mem ?t y = mem (s\<lparr>freelist := load64 (mem s) x\<rparr>) y" by (simp add: memset_page)
  qed simp_all
  moreover have "kalloc s = (x, ?t)" using x by (simp add: kalloc_def)
  ultimately show ?thesis by (auto simp: memset_page)
qed

lemma kfree_page:
  assumes "kmem_inv s xs" and "page_ok s p" and "p \<notin> set xs"
  shows "\<exists>t. kfree p s = Inr t \<and> kmem_inv t (p # xs) \<and> kend t = kend s \<and>
    (\<forall>y. \<not> in_page p y \<longrightarrow> mem t y = mem s y)"
proof -
  let ?m = "store64 (memset (mem s) p 1 4096) p (freelist s)"
  have out: "?m y = mem s y" if "\<not> in_page p y" for y
    using that by (simp add: store64_in_page memset_page)
  have "flist ?m (freelist s) xs = flist (mem s) (freelist s) xs"
  proof (rule flist_frame)
    fix y assume "\<exists>z\<in>set xs. in_page z y"
    then obtain z where z: "z \<in> set xs" "in_page z y" by blast
    with assms have "z \<noteq> p" "pg_aligned z" "pg_aligned p" by (auto simp: kmem_inv_def page_ok_def)
    with z have "\<not> in_page p y" using in_page_unique by blast
    then show "?m y = mem s y" by (rule out)
  qed
  then have "kmem_inv (s\<lparr>mem := ?m, freelist := p\<rparr>) (p # xs)"
    using assms by (auto simp: kmem_inv_def page_ok_def)
  moreover have "kfree p s = Inr (s\<lparr>mem := ?m, freelist := p\<rparr>)"
    using assms(2) by (auto simp: kfree_def page_ok_def pg_aligned_def Let_def)
  ultimately show ?thesis using out by auto
qed

subsection \<open>The allocator's contract\<close>

text \<open>
  What the clients of the allocator (page tables, pipes, trapframes) rely on: an allocation takes
  a page out of the set of free pages and changes no other page, freeing puts one back, and
  memory outside the free pages belongs to the client. \<open>usable\<close> pages are those \<open>kfree\<close> accepts.
\<close>

locale page_allocator =
  fixes alloc :: "'s \<Rightarrow> uint64 \<times> 's"
    and dealloc :: "uint64 \<Rightarrow> 's \<Rightarrow> 's res"
    and free :: "'s \<Rightarrow> uint64 set \<Rightarrow> bool"
    and usable :: "'s \<Rightarrow> uint64 \<Rightarrow> bool"
    and contents :: "'s \<Rightarrow> memory"
    and overwrite :: "memory \<Rightarrow> 's \<Rightarrow> 's"
  assumes alloc_empty: "free s {} \<Longrightarrow> alloc s = (0, s)"
    and alloc_page: "free s F \<Longrightarrow> F \<noteq> {} \<Longrightarrow>
      \<exists>p t. alloc s = (p, t) \<and> p \<in> F \<and> free t (F - {p}) \<and> usable t = usable s \<and>
        (\<forall>y. \<not> in_page p y \<longrightarrow> contents t y = contents s y)"
    and dealloc_page: "free s F \<Longrightarrow> usable s p \<Longrightarrow> p \<notin> F \<Longrightarrow>
      \<exists>t. dealloc p s = Inr t \<and> free t (insert p F) \<and> usable t = usable s \<and>
        (\<forall>y. \<not> in_page p y \<longrightarrow> contents t y = contents s y)"
    and free_usable: "free s F \<Longrightarrow> p \<in> F \<Longrightarrow> usable s p"
    and usable_page: "usable s p \<Longrightarrow> pg_aligned p \<and> p \<noteq> 0"
    and overwrite_free: "free s F \<Longrightarrow> (\<And>y. \<exists>x\<in>F. in_page x y \<Longrightarrow> m y = contents s y) \<Longrightarrow>
      free (overwrite m s) F"
    and overwrite_simps: "contents (overwrite m s) = m" "usable (overwrite m s) = usable s"
begin

primrec alloc_n :: "nat \<Rightarrow> 's \<Rightarrow> uint64 list \<times> 's" where
  "alloc_n 0 s = ([], s)"
| "alloc_n (Suc n) s = (let (p, t) = alloc s; (ps, u) = alloc_n n t in (p # ps, u))"

lemma alloc_n_pages:
  "free s F \<Longrightarrow> finite F \<Longrightarrow> n \<le> card F \<Longrightarrow>
    distinct (fst (alloc_n n s)) \<and> set (fst (alloc_n n s)) \<subseteq> F \<and> length (fst (alloc_n n s)) = n \<and>
    free (snd (alloc_n n s)) (F - set (fst (alloc_n n s)))"
proof (induction n arbitrary: s F)
  case 0
  then show ?case by simp
next
  case (Suc n)
  then have "F \<noteq> {}" by auto
  with alloc_page [OF Suc.prems(1)] obtain p t where
    p: "alloc s = (p, t)" "p \<in> F" "free t (F - {p})" by auto
  have "n \<le> card (F - {p})" using Suc.prems p by simp
  from Suc.IH [OF p(3) _ this] Suc.prems(2) p show ?case
    by (auto simp: split_beta Diff_insert2 [symmetric])
qed

lemma alloc_dealloc:
  assumes "free s F" and "alloc s = (p, t)" and "p \<noteq> 0"
  shows "\<exists>u. dealloc p t = Inr u \<and> free u F"
proof -
  have "F \<noteq> {}" using assms alloc_empty by fastforce
  with alloc_page [OF assms(1)] assms(2) have p: "p \<in> F" "free t (F - {p})" "usable t = usable s" by auto
  moreover have "usable t p" using p free_usable [OF assms(1)] by simp
  ultimately show ?thesis using dealloc_page [of t "F - {p}" p] by (auto simp: insert_absorb)
qed

end

lemma free_pages_usable: "free_pages s F \<Longrightarrow> p \<in> F \<Longrightarrow> page_ok s p"
  by (auto simp: free_pages_def kmem_inv_def)

lemma free_pages_finite: "free_pages s F \<Longrightarrow> finite F"
  by (auto simp: free_pages_def)

interpretation km: page_allocator kalloc kfree free_pages page_ok mem "\<lambda>m s. s\<lparr>mem := m\<rparr>"
proof (unfold_locales, goal_cases)
  case (1 s)
  then show ?case by (auto simp: free_pages_def intro: kalloc_Nil)
next
  case (2 s F)
  then obtain xs where xs: "kmem_inv s xs" "set xs = F" by (auto simp: free_pages_def)
  with 2 obtain x ys where ys: "xs = x # ys" by (cases xs) auto
  with kalloc_Cons [of s x ys] xs obtain t where t: "kalloc s = (x, t)" "kmem_inv t ys" "kend t = kend s"
    "mem t = (\<lambda>y. if in_page x y then 5 else mem s y)" by auto
  moreover have "F - {x} = set ys" using xs ys by (auto simp: kmem_inv_def)
  ultimately show ?case using xs ys page_ok_cong [of t s] by (auto simp: free_pages_def)
next
  case (3 s F p)
  then obtain xs where xs: "kmem_inv s xs" "set xs = F" by (auto simp: free_pages_def)
  with 3 kfree_page [of s xs p] obtain t where t: "kfree p s = Inr t" "kmem_inv t (p # xs)" "kend t = kend s"
    "\<forall>y. \<not> in_page p y \<longrightarrow> mem t y = mem s y" by auto
  then have "free_pages t (insert p F)" using xs by (auto simp: free_pages_def intro!: exI [of _ "p # xs"])
  with t page_ok_cong [of t s] show ?case by auto
next
  case (4 s F p)
  then show ?case by (rule free_pages_usable)
next
  case (5 s p)
  then show ?case by (auto simp: page_ok_def)
next
  case (6 s F m)
  then obtain xs where xs: "kmem_inv s xs" "set xs = F" by (auto simp: free_pages_def)
  have "kmem_inv (s\<lparr>mem := m\<rparr>) xs"
    by (rule kmem_inv_frame [OF xs(1)]) (simp_all add: 6(2) xs(2))
  with xs show ?case by (auto simp: free_pages_def)
next
  case (7 m s)
  then show ?case by simp
next
  case (8 m s)
  then show ?case by (simp add: page_ok_def fun_eq_iff)
qed

subsection \<open>kinit builds the free list of all pages\<close>

definition ram_pages :: "uint64 \<Rightarrow> uint64 set" where
  "ram_pages p = {q. pg_aligned q \<and> p \<le> q \<and> q < PHYSTOP}"

lemma ram_pages_step:
  assumes "pg_aligned p" and "p < PHYSTOP"
  shows "ram_pages p = insert p (ram_pages (p + PGSIZE))" and "p \<notin> ram_pages (p + PGSIZE)"
    and "pg_aligned (p + PGSIZE)" and "p + PGSIZE \<le> PHYSTOP"
proof -
  have u: "unat (p + PGSIZE) = unat p + 4096"
    using assms(2) by (subst unat_add_lem [THEN iffD1]) (simp_all add: word_less_nat_alt)
  from assms(1) obtain a where a: "unat p = 4096 * a" by (auto simp: pg_aligned_unat elim: dvdE)
  show "pg_aligned (p + PGSIZE)" using assms(1) by (simp add: pg_aligned_unat u mod_add_eq [symmetric])
  show "p + PGSIZE \<le> PHYSTOP" using assms(2) a u by (simp add: word_less_nat_alt word_le_nat_alt)
  show "p \<notin> ram_pages (p + PGSIZE)" using u by (simp add: ram_pages_def word_le_nat_alt)
  have "p + PGSIZE \<le> q \<or> q = p" if "pg_aligned q" "p \<le> q" for q
  proof -
    from that(1) obtain b where b: "unat q = 4096 * b" by (auto simp: pg_aligned_unat elim: dvdE)
    with that(2) a have "b = a \<or> a + 1 \<le> b" by (auto simp: word_le_nat_alt)
    with a b u show ?thesis by (auto simp: word_le_nat_alt word_unat_eq_iff)
  qed
  moreover have "p \<le> p + PGSIZE" using u by (simp add: word_le_nat_alt)
  ultimately show "ram_pages p = insert p (ram_pages (p + PGSIZE))"
    using assms by (auto simp: ram_pages_def intro: order_trans)
qed

lemma freerange_loop_pages:
  assumes "free_pages s F" and "pg_aligned p" and "kend s \<le> p" and "p \<noteq> 0" and "F \<inter> ram_pages p = {}"
    and "p \<le> PHYSTOP"
  shows "\<exists>t. freerange_loop p PHYSTOP s = Inr t \<and> free_pages t (F \<union> ram_pages p) \<and> kend t = kend s"
  using assms
proof (induction "unat PHYSTOP - unat p" arbitrary: p s F rule: less_induct)
  case less
  show ?case
  proof (cases "p < PHYSTOP")
    case True
    note step = ram_pages_step [OF less.prems(2) True]
    have ok: "page_ok s p" using less.prems True by (simp add: page_ok_def)
    have "p \<notin> F" using less.prems(5) step(1) by auto
    with km.dealloc_page [OF less.prems(1) ok] obtain t where
      t: "kfree p s = Inr t" "free_pages t (insert p F)" "page_ok t = page_ok s" by auto
    have kend: "kend t = kend s" using t(1) by (auto simp: kfree_def Let_def split: if_splits)
    have u: "unat (p + PGSIZE) = unat p + 4096"
      using True by (subst unat_add_lem [THEN iffD1]) (simp_all add: word_less_nat_alt)
    have "\<exists>v. freerange_loop (p + PGSIZE) PHYSTOP t = Inr v \<and>
        free_pages v (insert p F \<union> ram_pages (p + PGSIZE)) \<and> kend v = kend t"
    proof (rule less.hyps)
      show "unat PHYSTOP - unat (p + PGSIZE) < unat PHYSTOP - unat p"
        using True u by (simp add: word_less_nat_alt)
      show "kend t \<le> p + PGSIZE" using kend less.prems(3) u by (simp add: word_le_nat_alt)
      show "p + PGSIZE \<noteq> 0" using u by (auto simp: word_unat_eq_iff)
      show "insert p F \<inter> ram_pages (p + PGSIZE) = {}" using less.prems(5) step by auto
    qed (use t step in auto)
    then show ?thesis using t(1) kend step by (subst freerange_loop.simps) auto
  next
    case False
    with less.prems(6) have "p = PHYSTOP" by simp
    moreover have "ram_pages PHYSTOP = {}" by (auto simp: ram_pages_def dest: leD)
    ultimately show ?thesis using less.prems(1) by (subst freerange_loop.simps) simp
  qed
qed

subsection \<open>Properties\<close>

text \<open>
  C6. \<open>kinit\<close>, started with an empty list, succeeds and makes exactly the page-aligned addresses
  from \<open>end\<close> up to \<open>PHYSTOP\<close> free, each once.
\<close>

theorem kinit_frees_all_ram:
  assumes "freelist s = 0" and "0 < kend s" and "kend s \<le> PHYSTOP"
  shows "\<exists>t. kinit s = Inr t \<and> free_pages t {q. pg_aligned q \<and> kend s \<le> q \<and> q < PHYSTOP}"
proof -
  let ?p = "PGROUNDUP (kend s)"
  have b: "unat (kend s) + 4095 < 2 ^ 64" "0 < unat (kend s)"
    using assms by (simp_all add: word_le_nat_alt word_less_nat_alt)
  have up: "unat ?p = (unat (kend s) + 4095) div 4096 * 4096" using b(1) by (rule unat_PGROUNDUP)
  have "unat (kend s) \<le> unat ?p" "0 < unat ?p" "unat ?p \<le> unat PHYSTOP"
    using b assms(3) up by (auto simp: word_le_nat_alt)
  then have p: "kend s \<le> ?p" "?p \<noteq> 0" "?p \<le> PHYSTOP"
    by (auto simp: word_le_nat_alt word_unat_eq_iff)
  have "?p \<le> q" if "pg_aligned q" "kend s \<le> q" for q
  proof -
    from that(1) obtain a where a: "unat q = 4096 * a" by (auto simp: pg_aligned_unat elim: dvdE)
    with that(2) have "(unat (kend s) + 4095) div 4096 \<le> a" by (simp add: word_le_nat_alt)
    with a up show ?thesis by (simp add: word_le_nat_alt)
  qed
  then have eq: "ram_pages ?p = {q. pg_aligned q \<and> kend s \<le> q \<and> q < PHYSTOP}"
    using p by (auto simp: ram_pages_def)
  have "free_pages s {}" using assms(1) by (auto simp: free_pages_def kmem_inv_def intro!: exI [of _ "[]"])
  from freerange_loop_pages [OF this PGROUNDUP_aligned p(1,2) _ p(3)] show ?thesis
    by (auto simp: kinit_def freerange_def eq)
qed

theorem kinit_frees_all_ram_witness:
  "\<exists>t. kinit \<lparr>mem = (\<lambda>_. 0), freelist = 0, kend = 0x80021d50\<rparr> = Inr t \<and>
     free_pages t {q. pg_aligned q \<and> 0x80021d50 \<le> q \<and> q < PHYSTOP}"
  using kinit_frees_all_ram [of "\<lparr>mem = (\<lambda>_. 0), freelist = 0, kend = 0x80021d50\<rparr>"] by simp

text \<open>
  C7. \<open>kfree\<close> has no defence against a double free: freeing a page that was just freed succeeds
  and links the page to itself, and the next two calls of \<open>kalloc\<close> both hand out that page.
\<close>

theorem kfree_twice_aliases:
  assumes "page_ok s p" and "kfree p s = Inr s1" and "kfree p s1 = Inr s2"
  shows "fst (kalloc s2) = p \<and> fst (kalloc (snd (kalloc s2))) = p"
proof -
  have "freelist s1 = p" using assms(2) by (auto simp: kfree_def Let_def split: if_splits)
  then have "freelist s2 = p" "load64 (mem s2) p = p"
    using assms(3) by (auto simp: kfree_def Let_def split: if_splits)
  moreover have "p \<noteq> 0" using assms(1) by (simp add: page_ok_def)
  ultimately show ?thesis by (simp add: kalloc_def)
qed

theorem kfree_twice_aliases_witness:
  "\<exists>s1 s2. kfree 0x80022000 \<lparr>mem = (\<lambda>_. 0), freelist = 0, kend = 0x80021d50\<rparr> = Inr s1 \<and>
     kfree 0x80022000 s1 = Inr s2 \<and> fst (kalloc s2) = 0x80022000 \<and>
     fst (kalloc (snd (kalloc s2))) = 0x80022000"
proof -
  let ?s = "\<lparr>mem = (\<lambda>_. 0), freelist = 0, kend = 0x80021d50\<rparr>"
  obtain s1 where s1: "kfree 0x80022000 ?s = Inr s1" "kend s1 = 0x80021d50"
    by (simp add: kfree_def Let_def)
  obtain s2 where s2: "kfree 0x80022000 s1 = Inr s2" using s1 by (simp add: kfree_def Let_def)
  have "page_ok ?s 0x80022000" by (simp add: page_ok_def pg_aligned_def)
  from kfree_twice_aliases [OF this s1(1) s2] s1 s2 show ?thesis by blast
qed

end
