(* ===== verification/Vm.thy ===== *)
theory Vm
  imports Kalloc
begin

section \<open>kernel/vm.c: page tables and user memory\<close>

text \<open>
  Sv39 page tables as the code builds them: trees of pages in physical memory, entries read and
  written with 64-bit loads and stores, pages taken from and returned to the allocator of
  \<open>Kalloc\<close>. Functions that return an error code return it beside the new state; \<open>panic\<close> is
  \<open>Inl\<close>. Kernel buffers that \<open>copyout\<close>, \<open>copyin\<close> and \<open>copyinstr\<close> read or fill are byte lists.
  \<open>etext\<close> and \<open>trampoline\<close>, symbols of the linker script and of trampoline.S, are arguments.
  \<open>freewalk\<close> recurses without a depth argument in the code; its fuel is the number of levels it
  may descend, and three levels are enough for every table the other functions build.
\<close>

subsection \<open>walk and walkaddr\<close>

fun walk_loop :: "nat \<Rightarrow> uint64 \<Rightarrow> uint64 \<Rightarrow> bool \<Rightarrow> pmem \<Rightarrow> uint64 \<times> pmem" where
  "walk_loop 0 pagetable va alloc s = (entry pagetable (PX 0 va), s)"
| "walk_loop (Suc l) pagetable va alloc s =
     (let pte = entry pagetable (PX (Suc l) va);
          v = load64 (mem s) pte
      in if v AND PTE_V \<noteq> 0 then walk_loop l (PTE2PA v) va alloc s
         else if \<not> alloc then (0, s)
         else
           let (p, s1) = kalloc s
           in if p = 0 then (0, s1)
              else
                let s2 = s1\<lparr>mem := memset (mem s1) p 0 4096\<rparr>;
                    s3 = s2\<lparr>mem := store64 (mem s2) pte (PA2PTE p OR PTE_V)\<rparr>
                in walk_loop l p va alloc s3)"

definition walk :: "uint64 \<Rightarrow> uint64 \<Rightarrow> bool \<Rightarrow> pmem \<Rightarrow> (uint64 \<times> pmem) res" where
  "walk pagetable va alloc s =
     (if va \<ge> MAXVA then panic ''walk'' else Inr (walk_loop 2 pagetable va alloc s))"

text \<open>The test \<open>va >= MAXVA\<close> comes before the call of \<open>walk\<close>, so its panic is not reached.\<close>

definition walkaddr :: "uint64 \<Rightarrow> uint64 \<Rightarrow> pmem \<Rightarrow> uint64" where
  "walkaddr pagetable va s =
     (if va \<ge> MAXVA then 0
      else case walk pagetable va False s of
        Inl _ \<Rightarrow> 0
      | Inr (pte, _) \<Rightarrow>
          if pte = 0 then 0
          else if load64 (mem s) pte AND PTE_V = 0 then 0
          else if load64 (mem s) pte AND PTE_U = 0 then 0
          else PTE2PA (load64 (mem s) pte))"

lemma walk_below_MAXVA: "walk pt a al s = Inr x \<Longrightarrow> unat a < unat MAXVA"
  by (auto simp: walk_def not_le word_less_nat_alt split: if_splits)

lemma unat_next_page: "unat a < unat MAXVA \<Longrightarrow> unat (a + PGSIZE) = unat a + 4096"
  by (simp add: unat_word_ariths)

subsection \<open>mappages, kvmmap, uvmunmap\<close>

function mappages_loop :: "uint64 \<Rightarrow> uint64 \<Rightarrow> uint64 \<Rightarrow> uint64 \<Rightarrow> uint64 \<Rightarrow> pmem \<Rightarrow> (int \<times> pmem) res" where
  "mappages_loop pagetable a lst pa perm s =
     bindR (walk pagetable a True s) (\<lambda>(pte, s1).
       if pte = 0 then Inr (-1, s1)
       else if load64 (mem s1) pte AND PTE_V \<noteq> 0 then panic ''mappages: remap''
       else
         let s2 = s1\<lparr>mem := store64 (mem s1) pte (PA2PTE pa OR perm OR PTE_V)\<rparr>
         in if a = lst then Inr (0, s2)
            else mappages_loop pagetable (a + PGSIZE) lst (pa + PGSIZE) perm s2)"
  by pat_completeness auto
termination
  by (relation "measure (\<lambda>(pt, a, l, pa, perm, s). unat MAXVA - unat a)")
    (auto dest!: walk_below_MAXVA simp: unat_next_page)

declare mappages_loop.simps [simp del]

definition mappages :: "uint64 \<Rightarrow> uint64 \<Rightarrow> uint64 \<Rightarrow> uint64 \<Rightarrow> uint64 \<Rightarrow> pmem \<Rightarrow> (int \<times> pmem) res" where
  "mappages pagetable va sz pa perm s =
     (if va mod PGSIZE \<noteq> 0 then panic ''mappages: va not aligned''
      else if sz mod PGSIZE \<noteq> 0 then panic ''mappages: size not aligned''
      else if sz = 0 then panic ''mappages: size''
      else mappages_loop pagetable va (va + sz - PGSIZE) pa perm s)"

definition kvmmap :: "uint64 \<Rightarrow> uint64 \<Rightarrow> uint64 \<Rightarrow> uint64 \<Rightarrow> uint64 \<Rightarrow> pmem \<Rightarrow> pmem res" where
  "kvmmap kpgtbl va pa sz perm s =
     bindR (mappages kpgtbl va sz pa perm s) (\<lambda>(r, s1). if r \<noteq> 0 then panic ''kvmmap'' else Inr s1)"

function uvmunmap_loop :: "uint64 \<Rightarrow> uint64 \<Rightarrow> uint64 \<Rightarrow> bool \<Rightarrow> pmem \<Rightarrow> pmem res" where
  "uvmunmap_loop pagetable a lst do_free s =
     (if a < lst then
        bindR (walk pagetable a False s) (\<lambda>(pte, _).
          if pte = 0 then panic ''uvmunmap: walk''
          else
            let v = load64 (mem s) pte
            in if v AND PTE_V = 0 then panic ''uvmunmap: not mapped''
               else if PTE_FLAGS v = PTE_V then panic ''uvmunmap: not a leaf''
               else bindR (if do_free then kfree (PTE2PA v) s else Inr s) (\<lambda>s1.
                 uvmunmap_loop pagetable (a + PGSIZE) lst do_free
                   (s1\<lparr>mem := store64 (mem s1) pte 0\<rparr>)))
      else Inr s)"
  by pat_completeness auto
termination
  by (relation "measure (\<lambda>(pt, a, l, f, s). unat MAXVA - unat a)")
    (auto dest!: walk_below_MAXVA simp: unat_next_page)

declare uvmunmap_loop.simps [simp del]

definition uvmunmap :: "uint64 \<Rightarrow> uint64 \<Rightarrow> uint64 \<Rightarrow> bool \<Rightarrow> pmem \<Rightarrow> pmem res" where
  "uvmunmap pagetable va npages do_free s =
     (if va mod PGSIZE \<noteq> 0 then panic ''uvmunmap: not aligned''
      else uvmunmap_loop pagetable va (va + npages * PGSIZE) do_free s)"

subsection \<open>Creating, growing and shrinking user memory\<close>

definition uvmcreate :: "pmem \<Rightarrow> uint64 \<times> pmem" where
  "uvmcreate s =
     (let (pagetable, s1) = kalloc s
      in if pagetable = 0 then (0, s1)
         else (pagetable, s1\<lparr>mem := memset (mem s1) pagetable 0 4096\<rparr>))"

definition uvmfirst :: "uint64 \<Rightarrow> byte list \<Rightarrow> pmem \<Rightarrow> pmem res" where
  "uvmfirst pagetable src s =
     (if length src \<ge> 4096 then panic ''uvmfirst: more than a page''
      else
        let (p, s1) = kalloc s;
            s2 = s1\<lparr>mem := memset (mem s1) p 0 4096\<rparr>
        in bindR (mappages pagetable 0 PGSIZE p (PTE_W OR PTE_R OR PTE_X OR PTE_U) s2) (\<lambda>(_, s3).
             Inr (s3\<lparr>mem := mem_write (mem s3) p src\<rparr>)))"

definition uvmdealloc :: "uint64 \<Rightarrow> uint64 \<Rightarrow> uint64 \<Rightarrow> pmem \<Rightarrow> (uint64 \<times> pmem) res" where
  "uvmdealloc pagetable oldsz newsz s =
     (if newsz \<ge> oldsz then Inr (oldsz, s)
      else if PGROUNDUP newsz < PGROUNDUP oldsz then
        let npages = (ucast ((PGROUNDUP oldsz - PGROUNDUP newsz) div PGSIZE) :: cint)
        in bindR (uvmunmap pagetable (PGROUNDUP newsz) (scast npages) True s) (\<lambda>s1. Inr (newsz, s1))
      else Inr (newsz, s))"

lemma mappages_below_MAXVA: "mappages pt a sz pa perm s = Inr x \<Longrightarrow> unat a < unat MAXVA"
proof -
  assume "mappages pt a sz pa perm s = Inr x"
  then obtain l where "mappages_loop pt a l pa perm s = Inr x"
    by (auto simp: mappages_def split: if_splits)
  then show ?thesis
    by (subst (asm) mappages_loop.simps) (auto dest: walk_below_MAXVA)
qed

function uvmalloc_loop :: "uint64 \<Rightarrow> uint64 \<Rightarrow> uint64 \<Rightarrow> uint64 \<Rightarrow> uint64 \<Rightarrow> pmem \<Rightarrow> (uint64 \<times> pmem) res" where
  "uvmalloc_loop pagetable a oldsz newsz xperm s =
     (if a < newsz then
        let (p, s1) = kalloc s
        in if p = 0 then bindR (uvmdealloc pagetable a oldsz s1) (\<lambda>(_, s2). Inr (0, s2))
           else
             bindR (mappages pagetable a PGSIZE p (PTE_R OR PTE_U OR xperm)
                 (s1\<lparr>mem := memset (mem s1) p 0 4096\<rparr>)) (\<lambda>(r, s2).
               if r \<noteq> 0 then
                 bindR (kfree p s2) (\<lambda>s3.
                   bindR (uvmdealloc pagetable a oldsz s3) (\<lambda>(_, s4). Inr (0, s4)))
               else uvmalloc_loop pagetable (a + PGSIZE) oldsz newsz xperm s2)
      else Inr (newsz, s))"
  by pat_completeness auto
termination
  by (relation "measure (\<lambda>(pt, a, o1, n, x, s). unat MAXVA - unat a)")
    (auto dest!: mappages_below_MAXVA simp: unat_next_page)

declare uvmalloc_loop.simps [simp del]

definition uvmalloc :: "uint64 \<Rightarrow> uint64 \<Rightarrow> uint64 \<Rightarrow> uint64 \<Rightarrow> pmem \<Rightarrow> (uint64 \<times> pmem) res" where
  "uvmalloc pagetable oldsz newsz xperm s =
     (if newsz < oldsz then Inr (oldsz, s)
      else uvmalloc_loop pagetable (PGROUNDUP oldsz) (PGROUNDUP oldsz) newsz xperm s)"

subsection \<open>Freeing and copying user memory\<close>

abbreviation out_of_fuel :: "'a res" where
  "out_of_fuel \<equiv> Inl ''out of fuel''"

primrec freewalk :: "nat \<Rightarrow> uint64 \<Rightarrow> pmem \<Rightarrow> pmem res" where
  "freewalk 0 pagetable s = out_of_fuel"
| "freewalk (Suc d) pagetable s =
     bindR (foldR (\<lambda>i s.
         let pte = load64 (mem s) (entry pagetable (of_nat i))
         in if pte AND PTE_V \<noteq> 0 \<and> pte AND (PTE_R OR PTE_W OR PTE_X) = 0
            then bindR (freewalk d (PTE2PA pte) s) (\<lambda>s1.
              Inr (s1\<lparr>mem := store64 (mem s1) (entry pagetable (of_nat i)) 0\<rparr>))
            else if pte AND PTE_V \<noteq> 0 then panic ''freewalk: leaf''
            else Inr s)
       [0..<512] s) (kfree pagetable)"

definition uvmfree :: "uint64 \<Rightarrow> uint64 \<Rightarrow> pmem \<Rightarrow> pmem res" where
  "uvmfree pagetable sz s =
     bindR (if sz > 0 then uvmunmap pagetable 0 (PGROUNDUP sz div PGSIZE) True s else Inr s)
       (freewalk 3 pagetable)"

function uvmcopy_loop :: "uint64 \<Rightarrow> uint64 \<Rightarrow> uint64 \<Rightarrow> uint64 \<Rightarrow> pmem \<Rightarrow> (int \<times> pmem) res" where
  "uvmcopy_loop old new i sz s =
     (if i < sz then
        bindR (walk old i False s) (\<lambda>(pte, _).
          if pte = 0 then panic ''uvmcopy: pte should exist''
          else
            let v = load64 (mem s) pte
            in if v AND PTE_V = 0 then panic ''uvmcopy: page not present''
               else
                 let pa = PTE2PA v; flags = PTE_FLAGS v; (p, s1) = kalloc s
                 in if p = 0 then bindR (uvmunmap new 0 (i div PGSIZE) True s1) (\<lambda>s2. Inr (-1, s2))
                    else
                      bindR (mappages new i PGSIZE p flags
                          (s1\<lparr>mem := memmove (mem s1) p pa 4096\<rparr>)) (\<lambda>(r, s2).
                        if r \<noteq> 0 then
                          bindR (kfree p s2) (\<lambda>s3.
                            bindR (uvmunmap new 0 (i div PGSIZE) True s3) (\<lambda>s4. Inr (-1, s4)))
                        else uvmcopy_loop old new (i + PGSIZE) sz s2))
      else Inr (0, s))"
  by pat_completeness auto
termination
  by (relation "measure (\<lambda>(old, new, i, sz, s). unat MAXVA - unat i)")
    (auto dest!: walk_below_MAXVA simp: unat_next_page)

declare uvmcopy_loop.simps [simp del]

definition uvmcopy :: "uint64 \<Rightarrow> uint64 \<Rightarrow> uint64 \<Rightarrow> pmem \<Rightarrow> (int \<times> pmem) res" where
  "uvmcopy old new sz s = uvmcopy_loop old new 0 sz s"

definition uvmclear :: "uint64 \<Rightarrow> uint64 \<Rightarrow> pmem \<Rightarrow> pmem res" where
  "uvmclear pagetable va s =
     bindR (walk pagetable va False s) (\<lambda>(pte, _).
       if pte = 0 then panic ''uvmclear''
       else Inr (s\<lparr>mem := store64 (mem s) pte (load64 (mem s) pte AND NOT PTE_U)\<rparr>))"

subsection \<open>Copying between kernel and user memory\<close>

text \<open>The bytes of the page from va on: \<open>n = PGSIZE - (va - va0)\<close>, cut to what is left.\<close>

definition chunk :: "uint64 \<Rightarrow> uint64 \<Rightarrow> uint64" where
  "chunk va len = (let n = PGSIZE - (va - PGROUNDDOWN va) in if n > len then len else n)"

lemma page_offset_less: "unat (va - PGROUNDDOWN va) < 4096"
  using in_page_iff [of "PGROUNDDOWN va" va] by (simp add: in_page_def)

lemma unat_chunk: "unat (chunk va len) = min (4096 - unat (va - PGROUNDDOWN va)) (unat len)"
proof -
  have "unat (PGSIZE - (va - PGROUNDDOWN va)) = 4096 - unat (va - PGROUNDDOWN va)"
    using page_offset_less [of va] by (subst unat_sub) (simp_all add: word_le_nat_alt)
  then show ?thesis by (auto simp: chunk_def Let_def word_less_nat_alt min_def)
qed

lemma chunk_progress: "len \<noteq> 0 \<Longrightarrow> unat (len - chunk va len) < unat len"
proof -
  assume "len \<noteq> 0"
  then have "0 < unat len" by (simp add: unat_gt_0)
  moreover have "chunk va len \<le> len" by (simp add: word_le_nat_alt unat_chunk)
  then have "unat (len - chunk va len) = unat len - unat (chunk va len)" by (rule unat_sub)
  ultimately show ?thesis using page_offset_less [of va] by (simp add: unat_chunk)
qed

function copyout :: "uint64 \<Rightarrow> uint64 \<Rightarrow> byte list \<Rightarrow> uint64 \<Rightarrow> pmem \<Rightarrow> int \<times> pmem" where
  "copyout pagetable dstva src len s =
     (if len = 0 then (0, s)
      else if PGROUNDDOWN dstva \<ge> MAXVA then (-1, s)
      else
        let va0 = PGROUNDDOWN dstva;
            pte = (case walk pagetable va0 False s of Inl _ \<Rightarrow> 0 | Inr (pte, _) \<Rightarrow> pte);
            v = load64 (mem s) pte
        in if pte = 0 \<or> v AND PTE_V = 0 \<or> v AND PTE_U = 0 \<or> v AND PTE_W = 0 then (-1, s)
           else
             let n = chunk dstva len
             in copyout pagetable (va0 + PGSIZE) (drop (unat n) src) (len - n)
                  (s\<lparr>mem := mem_write (mem s) (PTE2PA v + (dstva - va0)) (take (unat n) src)\<rparr>))"
  by pat_completeness auto
termination
  by (relation "measure (\<lambda>(pt, va, src, len, s). unat len)") (auto simp: chunk_progress)

declare copyout.simps [simp del]

text \<open>\<open>copyin\<close> and \<open>copyinstr\<close> return the bytes they stored at \<open>dst\<close> and the return value.\<close>

function copyin :: "uint64 \<Rightarrow> uint64 \<Rightarrow> uint64 \<Rightarrow> pmem \<Rightarrow> byte list \<times> int" where
  "copyin pagetable srcva len s =
     (if len = 0 then ([], 0)
      else
        let va0 = PGROUNDDOWN srcva;
            pa0 = walkaddr pagetable va0 s
        in if pa0 = 0 then ([], -1)
           else
             let n = chunk srcva len;
                 (bs, r) = copyin pagetable (va0 + PGSIZE) (len - n) s
             in (mem_read (mem s) (pa0 + (srcva - va0)) (unat n) @ bs, r))"
  by pat_completeness auto
termination
  by (relation "measure (\<lambda>(pt, va, len, s). unat len)") (auto simp: chunk_progress)

declare copyin.simps [simp del]

text \<open>The inner loop of \<open>copyinstr\<close>: the bytes of one page up to and with a NUL, and \<open>got_null\<close>.\<close>

fun copyinstr_page :: "memory \<Rightarrow> uint64 \<Rightarrow> nat \<Rightarrow> byte list \<times> bool" where
  "copyinstr_page m p 0 = ([], False)"
| "copyinstr_page m p (Suc n) =
     (if m p = 0 then ([0], True)
      else let (bs, got_null) = copyinstr_page m (p + 1) n in (m p # bs, got_null))"

function copyinstr :: "uint64 \<Rightarrow> uint64 \<Rightarrow> uint64 \<Rightarrow> pmem \<Rightarrow> byte list \<times> int" where
  "copyinstr pagetable srcva mx s =
     (if mx = 0 then ([], -1)
      else
        let va0 = PGROUNDDOWN srcva;
            pa0 = walkaddr pagetable va0 s
        in if pa0 = 0 then ([], -1)
           else
             let n = chunk srcva mx;
                 (bs, got_null) = copyinstr_page (mem s) (pa0 + (srcva - va0)) (unat n)
             in if got_null then (bs, 0)
                else let (cs, r) = copyinstr pagetable (va0 + PGSIZE) (mx - n) s in (bs @ cs, r))"
  by pat_completeness auto
termination
  by (relation "measure (\<lambda>(pt, va, len, s). unat len)") (auto simp: chunk_progress)

declare copyinstr.simps [simp del]

subsection \<open>The kernel page table\<close>

text \<open>\<open>proc_mapstacks\<close> of kernel/proc.c, which \<open>kvmmake\<close> calls.\<close>

definition proc_mapstacks :: "uint64 \<Rightarrow> pmem \<Rightarrow> pmem res" where
  "proc_mapstacks kpgtbl s =
     foldR (\<lambda>p s.
       let (pa, s1) = kalloc s
       in if pa = 0 then panic ''kalloc''
          else kvmmap kpgtbl (KSTACK p) pa PGSIZE (PTE_R OR PTE_W) s1) [0..<NPROC] s"

definition kvmmake :: "uint64 \<Rightarrow> uint64 \<Rightarrow> pmem \<Rightarrow> (uint64 \<times> pmem) res" where
  "kvmmake etext trampoline s =
     (let (kpgtbl, s0) = kalloc s;
          s1 = s0\<lparr>mem := memset (mem s0) kpgtbl 0 4096\<rparr>
      in bindR (kvmmap kpgtbl 0x10000000 0x10000000 PGSIZE (PTE_R OR PTE_W) s1) (\<lambda>s2.
         bindR (kvmmap kpgtbl 0x10001000 0x10001000 PGSIZE (PTE_R OR PTE_W) s2) (\<lambda>s3.
         bindR (kvmmap kpgtbl 0x0c000000 0x0c000000 0x4000000 (PTE_R OR PTE_W) s3) (\<lambda>s4.
         bindR (kvmmap kpgtbl KERNBASE KERNBASE (etext - KERNBASE) (PTE_R OR PTE_X) s4) (\<lambda>s5.
         bindR (kvmmap kpgtbl etext etext (PHYSTOP - etext) (PTE_R OR PTE_W) s5) (\<lambda>s6.
         bindR (kvmmap kpgtbl TRAMPOLINE trampoline PGSIZE (PTE_R OR PTE_X) s6) (\<lambda>s7.
         bindR (proc_mapstacks kpgtbl s7) (\<lambda>s8. Inr (kpgtbl, s8)))))))))"

end
