(* ===== verification/Pagetable.thy ===== *)
theory Pagetable
  imports Vm
begin

section \<open>Page tables as trees\<close>

text \<open>
  What \<open>walk\<close> sees, as functions of the memory: the set of pages a table consists of, the
  well-formedness that every operation of kernel/vm.c keeps (interior pages do not overlap), the
  address of the leaf entry for a virtual address and the valid leaf entry stored there. The
  level l counts down to 0 as the loop of \<open>walk\<close> does; a process's table has level 2.
\<close>

definition ent :: "memory \<Rightarrow> uint64 \<Rightarrow> uint64 \<Rightarrow> uint64" where
  "ent m p i = load64 m (entry p i)"

abbreviation valid :: "uint64 \<Rightarrow> bool" where
  "valid v \<equiv> v AND PTE_V \<noteq> 0"

fun tree :: "nat \<Rightarrow> memory \<Rightarrow> uint64 \<Rightarrow> uint64 set" where
  "tree 0 m p = {p}"
| "tree (Suc l) m p = insert p
     (\<Union>i\<in>{i. i < 512 \<and> valid (ent m p i)}. tree l m (PTE2PA (ent m p i)))"

definition sub :: "nat \<Rightarrow> memory \<Rightarrow> uint64 \<Rightarrow> uint64 \<Rightarrow> uint64 set" where
  "sub l m p i = (if valid (ent m p i) then tree l m (PTE2PA (ent m p i)) else {})"

fun wf_pt :: "nat \<Rightarrow> memory \<Rightarrow> uint64 \<Rightarrow> bool" where
  "wf_pt 0 m p \<longleftrightarrow> pg_aligned p \<and> p \<noteq> 0"
| "wf_pt (Suc l) m p \<longleftrightarrow> pg_aligned p \<and> p \<noteq> 0 \<and>
     (\<forall>i<512. valid (ent m p i) \<longrightarrow>
       ent m p i AND (PTE_R OR PTE_W OR PTE_X) = 0 \<and> wf_pt l m (PTE2PA (ent m p i))) \<and>
     (\<forall>i<512. p \<notin> sub l m p i) \<and>
     (\<forall>i<512. \<forall>j<512. i \<noteq> j \<longrightarrow> sub l m p i \<inter> sub l m p j = {})"

fun leaf :: "nat \<Rightarrow> memory \<Rightarrow> uint64 \<Rightarrow> uint64 \<Rightarrow> uint64" where
  "leaf 0 m p va = entry p (PX 0 va)"
| "leaf (Suc l) m p va =
     (let v = ent m p (PX (Suc l) va) in if valid v then leaf l m (PTE2PA v) va else 0)"

fun pmap :: "nat \<Rightarrow> memory \<Rightarrow> uint64 \<Rightarrow> uint64 \<Rightarrow> uint64 option" where
  "pmap 0 m p va = (let v = ent m p (PX 0 va) in if valid v then Some v else None)"
| "pmap (Suc l) m p va =
     (let v = ent m p (PX (Suc l) va) in if valid v then pmap l m (PTE2PA v) va else None)"

definition same_on :: "uint64 set \<Rightarrow> memory \<Rightarrow> memory \<Rightarrow> bool" where
  "same_on T m m' \<longleftrightarrow> (\<forall>q\<in>T. \<forall>y. in_page q y \<longrightarrow> m' y = m y)"

definition same_off :: "uint64 set \<Rightarrow> memory \<Rightarrow> memory \<Rightarrow> bool" where
  "same_off T m m' \<longleftrightarrow> (\<forall>y. (\<forall>q\<in>T. \<not> in_page q y) \<longrightarrow> m' y = m y)"

lemma tree_Suc: "tree (Suc l) m p = insert p (\<Union>i\<in>{i. i < 512}. sub l m p i)"
  by (auto simp: sub_def split: if_splits)

declare tree.simps(2) [simp del]

lemma tree_root [simp, intro]: "p \<in> tree l m p"
  by (cases l) (auto simp: tree_Suc)

lemma sub_subset: "i < 512 \<Longrightarrow> sub l m p i \<subseteq> tree (Suc l) m p"
  by (auto simp: tree_Suc)

lemma wf_root: "wf_pt l m p \<Longrightarrow> pg_aligned p \<and> p \<noteq> 0"
  by (cases l) auto

lemma wf_child: "wf_pt (Suc l) m p \<Longrightarrow> i < 512 \<Longrightarrow> valid (ent m p i) \<Longrightarrow> wf_pt l m (PTE2PA (ent m p i))"
  by simp

lemma tree_pages: "wf_pt l m p \<Longrightarrow> q \<in> tree l m p \<Longrightarrow> pg_aligned q \<and> q \<noteq> 0"
proof (induction l arbitrary: p)
  case (Suc l)
  then show ?case by (auto simp: tree_Suc sub_def split: if_splits)
qed auto

subsection \<open>Frames\<close>

lemma same_on_subset: "same_on T m m' \<Longrightarrow> U \<subseteq> T \<Longrightarrow> same_on U m m'"
  by (auto simp: same_on_def)

lemma same_off_trans: "same_off T m m' \<Longrightarrow> same_off T m' m'' \<Longrightarrow> same_off T m m''"
  by (auto simp: same_off_def)

lemma same_off_mono: "same_off T m m' \<Longrightarrow> T \<subseteq> U \<Longrightarrow> same_off U m m'"
  by (auto simp: same_off_def)

lemma same_off_refl [simp]: "same_off T m m"
  by (simp add: same_off_def)

lemma same_off_on:
  assumes "same_off T m m'" and "T \<inter> U = {}" and "\<And>q. q \<in> T \<Longrightarrow> pg_aligned q" and "\<And>q. q \<in> U \<Longrightarrow> pg_aligned q"
  shows "same_on U m m'"
  unfolding same_on_def
proof (intro ballI allI impI)
  fix q y assume q: "q \<in> U" "in_page q y"
  have "\<not> in_page r y" if "r \<in> T" for r
    using in_page_unique [of q r y] q that assms(2-4) by blast
  then show "m' y = m y" using assms(1) by (auto simp: same_off_def)
qed

lemma ent_frame: "same_on {p} m m' \<Longrightarrow> i < 512 \<Longrightarrow> ent m' p i = ent m p i"
  unfolding ent_def by (rule load64_cong) (auto simp: same_on_def entry_in_page)

lemma pt_frame:
  assumes "same_on (tree l m p) m m'"
  shows "tree l m' p = tree l m p" and "wf_pt l m' p = wf_pt l m p"
    and "leaf l m' p va = leaf l m p va" and "pmap l m' p va = pmap l m p va"
proof -
  have "tree l m' p = tree l m p \<and> wf_pt l m' p = wf_pt l m p \<and>
    leaf l m' p va = leaf l m p va \<and> pmap l m' p va = pmap l m p va"
    using assms
  proof (induction l arbitrary: p)
    case 0
    then show ?case by (simp add: ent_frame)
  next
    case (Suc l)
    have e: "ent m' p i = ent m p i" if "i < 512" for i
      using Suc.prems that by (intro ent_frame) (auto intro: same_on_subset)
    have c: "tree l m' c = tree l m c \<and> wf_pt l m' c = wf_pt l m c \<and>
        leaf l m' c va = leaf l m c va \<and> pmap l m' c va = pmap l m c va"
      if "i < 512" "valid (ent m p i)" "c = PTE2PA (ent m p i)" for i c
    proof (rule Suc.IH)
      have "tree l m c \<subseteq> tree (Suc l) m p" using sub_subset [of i l m p] that by (simp add: sub_def)
      with Suc.prems show "same_on (tree l m c) m m'" by (rule same_on_subset)
    qed
    have s: "sub l m' p i = sub l m p i" if "i < 512" for i
      using c [of i] e that by (auto simp: sub_def)
    have "tree (Suc l) m' p = tree (Suc l) m p" by (auto simp: tree_Suc s)
    moreover have "wf_pt (Suc l) m' p = wf_pt (Suc l) m p" using e c by (auto simp: s)
    moreover have "leaf (Suc l) m' p va = leaf (Suc l) m p va"
      and "pmap (Suc l) m' p va = pmap (Suc l) m p va"
      using e c [OF PX_less] by (simp_all add: Let_def)
    ultimately show ?case by blast
  qed
  then show "tree l m' p = tree l m p" and "wf_pt l m' p = wf_pt l m p"
    and "leaf l m' p va = leaf l m p va" and "pmap l m' p va = pmap l m p va" by blast+
qed

lemma walk_loop_no_alloc: "walk_loop l p va False s = (leaf l (mem s) p va, s)"
  by (induction l arbitrary: p) (auto simp: ent_def Let_def)

lemma walk_no_alloc: "va < MAXVA \<Longrightarrow> walk p va False s = Inr (leaf 2 (mem s) p va, s)"
  by (simp add: walk_def walk_loop_no_alloc not_le)

lemma entry_nonzero: "pg_aligned p \<Longrightarrow> p \<noteq> 0 \<Longrightarrow> i < 512 \<Longrightarrow> entry p i \<noteq> 0"
proof
  assume p: "pg_aligned p" "p \<noteq> 0" "i < 512" and "entry p i = 0"
  then have "in_page p 0" using entry_in_page0 [OF p(3), of p] by simp
  then show False using in_page_unique [of p 0 0] p by (simp add: pg_aligned_def)
qed

lemma leaf_pmap:
  assumes "wf_pt l m p"
  shows "pmap l m p va = (if leaf l m p va \<noteq> 0 \<and> valid (load64 m (leaf l m p va))
    then Some (load64 m (leaf l m p va)) else None)"
  using assms
proof (induction l arbitrary: p)
  case 0
  then have "entry p (PX 0 va) \<noteq> 0" using entry_nonzero by simp
  then show ?case by (simp add: ent_def Let_def)
next
  case (Suc l)
  then show ?case by (simp add: Let_def)
qed

subsection \<open>Changing one entry and the subtree below it\<close>

lemma wf_update:
  assumes wf: "wf_pt (Suc l) m p" and i: "i < 512"
    and ent: "\<And>j. j < 512 \<Longrightarrow> j \<noteq> i \<Longrightarrow> ent m' p j = ent m p j"
    and oth: "\<And>j. j < 512 \<Longrightarrow> j \<noteq> i \<Longrightarrow> same_on (sub l m p j) m m'"
    and new: "valid (ent m' p i) \<Longrightarrow>
      ent m' p i AND (PTE_R OR PTE_W OR PTE_X) = 0 \<and> wf_pt l m' (PTE2PA (ent m' p i))"
    and sub: "sub l m' p i \<subseteq> sub l m p i \<union> N" and fresh: "N \<inter> tree (Suc l) m p = {}"
  shows "wf_pt (Suc l) m' p"
    and "tree (Suc l) m' p = (tree (Suc l) m p - sub l m p i) \<union> sub l m' p i"
    and "PX (Suc l) va \<noteq> i \<Longrightarrow> pmap (Suc l) m' p va = pmap (Suc l) m p va"
    and "PX (Suc l) va \<noteq> i \<Longrightarrow> leaf (Suc l) m' p va = leaf (Suc l) m p va"
proof -
  have c: "tree l m' c = tree l m c" "wf_pt l m' c = wf_pt l m c" "pmap l m' c va = pmap l m c va"
      "leaf l m' c va = leaf l m c va"
    if "j < 512" "j \<noteq> i" "valid (ent m p j)" "c = PTE2PA (ent m p j)" for j c va
    using pt_frame [of l m c m'] oth [OF that(1,2)] that(3,4) by (simp_all add: sub_def)
  have s: "sub l m' p j = sub l m p j" if "j < 512" "j \<noteq> i" for j
    using c [OF that] ent [OF that] by (auto simp: sub_def)
  have d: "sub l m p j \<inter> sub l m p k = {}" if "j < 512" "k < 512" "j \<noteq> k" for j k
    using wf that by simp
  have n: "N \<inter> sub l m p j = {}" "p \<notin> N" "p \<notin> sub l m p j" if "j < 512" for j
    using wf fresh sub_subset [OF that, of l m p] that by (auto simp: tree_Suc)
  have di: "sub l m' p i \<inter> sub l m p j = {}" if "j < 512" "j \<noteq> i" for j
    using sub d [OF i that(1)] n(1) [OF that(1)] that(2) by blast
  show "tree (Suc l) m' p = (tree (Suc l) m p - sub l m p i) \<union> sub l m' p i"
  proof -
    have "(\<Union>j\<in>{j. j < 512}. sub l m' p j) = sub l m' p i \<union> (\<Union>j\<in>{j. j < 512 \<and> j \<noteq> i}. sub l m p j)"
      using i s by auto
    moreover have "(\<Union>j\<in>{j. j < 512}. sub l m p j) = sub l m p i \<union> (\<Union>j\<in>{j. j < 512 \<and> j \<noteq> i}. sub l m p j)"
      using i by auto
    moreover have "sub l m p i \<inter> (\<Union>j\<in>{j. j < 512 \<and> j \<noteq> i}. sub l m p j) = {}" using d i by blast
    moreover have "p \<notin> sub l m p i" using n i by blast
    ultimately show ?thesis unfolding tree_Suc by blast
  qed
  have "p \<notin> sub l m' p j" if "j < 512" for j
    using that sub n(2) [OF i] n(3) [OF that] s [OF that] by (cases "j = i") auto
  moreover have "sub l m' p j \<inter> sub l m' p k = {}" if jk: "j < 512" "k < 512" "j \<noteq> k" for j k
  proof -
    consider "j = i" | "k = i" | "j \<noteq> i" "k \<noteq> i" by blast
    then show ?thesis
    proof cases
      case 1
      then show ?thesis using di [of k] s [of k] jk by simp
    next
      case 2
      then show ?thesis using di [of j] s [of j] jk by (simp add: Int_commute)
    next
      case 3
      then show ?thesis using d [OF jk] s [of j] s [of k] jk by simp
    qed
  qed
  moreover have "ent m' p j AND (PTE_R OR PTE_W OR PTE_X) = 0 \<and> wf_pt l m' (PTE2PA (ent m' p j))"
    if "j < 512" "valid (ent m' p j)" for j
  proof (cases "j = i")
    case True
    then show ?thesis using new that by simp
  next
    case False
    have e: "ent m' p j = ent m p j" using ent that(1) False .
    with c(2) [OF that(1) False _ refl] wf that show ?thesis by simp
  qed
  ultimately show "wf_pt (Suc l) m' p" using wf by (simp only: wf_pt.simps) blast
  show "pmap (Suc l) m' p va = pmap (Suc l) m p va" if "PX (Suc l) va \<noteq> i"
    using ent [OF PX_less that] c(3) [OF PX_less that] by (simp add: Let_def)
  show "leaf (Suc l) m' p va = leaf (Suc l) m p va" if "PX (Suc l) va \<noteq> i"
    using ent [OF PX_less that] c(4) [OF PX_less that] by (simp add: Let_def)
qed

lemma zero_page:
  assumes "pg_aligned p" "p \<noteq> 0" and "\<And>y. in_page p y \<Longrightarrow> m y = 0"
  shows "ent m p i = 0 \<or> \<not> i < 512" and "wf_pt l m p" and "tree l m p = {p}" and "pmap l m p va = None"
proof -
  have e: "ent m p i = 0" if "i < 512" for i
  proof -
    have "mem_read m (entry p i) 8 = replicate 8 0"
      by (rule nth_equalityI) (use that assms(3) in \<open>auto simp: mem_read_nth entry_in_page\<close>)
    then show ?thesis by (simp add: ent_def load64_def numeral_eq_Suc)
  qed
  then show "ent m p i = 0 \<or> \<not> i < 512" by blast
  have s: "sub l m p i = {}" if "i < 512" for i l using e [OF that] by (simp add: sub_def)
  show "wf_pt l m p" using assms(1,2) e s by (cases l) auto
  show "tree l m p = {p}" using s by (cases l) (auto simp: tree_Suc)
  show "pmap l m p va = None" using e [OF PX_less] by (cases l) simp_all
qed

lemma leaf_store:
  assumes "wf_pt l m p" and "leaf l m p va \<noteq> 0"
    and "m' = store64 m (leaf l m p va) v"
  shows "wf_pt l m' p \<and> tree l m' p = tree l m p \<and> same_off (tree l m p) m m' \<and>
    (\<forall>w. leaf l m' p w = leaf l m p w) \<and>
    (\<forall>w. pmap l m' p w = (if \<forall>k\<le>l. PX k w = PX k va then (if valid v then Some v else None) else pmap l m p w))"
  using assms(1,2) unfolding assms(3)
proof (induction l arbitrary: p)
  case 0
  then show ?case
    by (auto simp: ent_def load64_store64_entry same_off_def intro!: store64_entry_in_page)
next
  case (Suc l)
  let ?i = "PX (Suc l) va" and ?m = "store64 m (leaf (Suc l) m p va) v"
  define c where "c = PTE2PA (ent m p ?i)"
  have v: "valid (ent m p ?i)" using Suc.prems(2) by (auto simp: Let_def split: if_splits)
  then have lf: "leaf (Suc l) m p va = leaf l m c va" by (simp add: c_def)
  have wc: "wf_pt l m c" using Suc.prems(1) v by (simp add: c_def)
  have sub: "sub l m p ?i = tree l m c" using v by (simp add: sub_def c_def)
  note IH = Suc.IH [OF wc, folded lf, OF Suc.prems(2)]
  have al: "pg_aligned q" if "q \<in> tree (Suc l) m p" for q using tree_pages [OF Suc.prems(1) that] by blast
  have on: "same_on T m ?m" if "T \<subseteq> tree (Suc l) m p" "T \<inter> sub l m p ?i = {}" for T
  proof (rule same_off_on)
    show "same_off (sub l m p ?i) m ?m" using IH sub by simp
  qed (use that al sub_subset [OF PX_less] in blast)+
  have "p \<notin> sub l m p ?i" using Suc.prems(1) by simp
  then have e: "ent ?m p j = ent m p j" if "j < 512" for j
    using that by (intro ent_frame on) (auto simp: tree_Suc)
  have s': "sub l ?m p ?i = sub l m p ?i" using IH e v by (simp add: sub_def c_def)
  have oth: "same_on (sub l m p j) m ?m" if "j < 512" "j \<noteq> ?i" for j
  proof (rule on)
    show "sub l m p j \<subseteq> tree (Suc l) m p" using that(1) by (rule sub_subset)
    have "?i < 512" by simp
    with that Suc.prems(1) show "sub l m p j \<inter> sub l m p ?i = {}"
      unfolding wf_pt.simps by blast
  qed
  have new: "ent ?m p ?i AND (PTE_R OR PTE_W OR PTE_X) = 0 \<and> wf_pt l ?m (PTE2PA (ent ?m p ?i))"
    using Suc.prems(1) v e IH by (simp add: c_def [symmetric])
  have sb: "sub l ?m p ?i \<subseteq> sub l m p ?i \<union> {}" using s' by simp
  note U = wf_update [OF Suc.prems(1) PX_less e oth new sb]
  have pm: "pmap (Suc l) ?m p w = pmap l ?m c w" "leaf (Suc l) ?m p w = leaf l ?m c w"
    "pmap (Suc l) m p w = pmap l m c w" "leaf (Suc l) m p w = leaf l m c w"
    if "PX (Suc l) w = ?i" for w
    using that v e by (simp_all add: c_def Let_def)
  show ?case
  proof (intro conjI allI)
    show "wf_pt (Suc l) ?m p" by (rule U(1)) auto
    show "tree (Suc l) ?m p = tree (Suc l) m p"
      using sub_subset [OF PX_less, of l m p "Suc l" va] s' by (subst U(2)) auto
    have "same_off (sub l m p ?i) m ?m" using IH sub by simp
    then show "same_off (tree (Suc l) m p) m ?m" by (rule same_off_mono) (simp add: sub_subset)
    fix w
    show "leaf (Suc l) ?m p w = leaf (Suc l) m p w"
    proof (cases "PX (Suc l) w = ?i")
      case True
      then show ?thesis using IH pm [OF True] by simp
    qed (rule U(4), auto)
    show "pmap (Suc l) ?m p w = (if \<forall>k\<le>Suc l. PX k w = PX k va then (if valid v then Some v else None)
        else pmap (Suc l) m p w)"
    proof (cases "PX (Suc l) w = ?i")
      case True
      then show ?thesis using IH pm [OF True] by (simp add: le_Suc_eq) auto
    next
      case False
      then have "pmap (Suc l) ?m p w = pmap (Suc l) m p w" by (intro U(3)) auto
      then show ?thesis using False by auto
    qed
  qed
qed

subsection \<open>walk with allocation\<close>

text \<open>
  \<open>walk(pagetable, va, 1)\<close> takes a set N of pages out of the free pages and adds it to the tree;
  no translation changes; it fails only when it has used up the free pages.
\<close>

definition walk_post :: "nat \<Rightarrow> uint64 \<Rightarrow> uint64 \<Rightarrow> pmem \<Rightarrow> uint64 set \<Rightarrow> uint64 \<Rightarrow> pmem \<Rightarrow> uint64 set \<Rightarrow> bool" where
  "walk_post l p va s F a s' N \<longleftrightarrow> N \<subseteq> F \<and> card N \<le> l \<and> free_pages s' (F - N) \<and> page_ok s' = page_ok s \<and>
     wf_pt l (mem s') p \<and> tree l (mem s') p = tree l (mem s) p \<union> N \<and>
     same_off (tree l (mem s) p \<union> N) (mem s) (mem s') \<and>
     (\<forall>w. pmap l (mem s') p w = pmap l (mem s) p w) \<and>
     (a \<noteq> 0 \<longrightarrow> leaf l (mem s') p va = a) \<and> (a = 0 \<longrightarrow> N = F)"

lemma walk_post_down:
  assumes wf: "wf_pt (Suc l) (mem s) p" and v: "valid (ent (mem s) p (PX (Suc l) va))"
    and F: "free_pages s F" "F \<inter> tree (Suc l) (mem s) p = {}"
    and c: "c = PTE2PA (ent (mem s) p (PX (Suc l) va))"
    and post: "walk_post l c va s F a s' N"
  shows "walk_post (Suc l) p va s F a s' N"
proof -
  let ?i = "PX (Suc l) va" and ?m = "mem s" and ?m' = "mem s'"
  have sub: "sub l ?m p ?i = tree l ?m c" using v by (simp add: sub_def c)
  have N: "N \<subseteq> F" "same_off (sub l ?m p ?i \<union> N) ?m ?m'" using post by (simp_all add: walk_post_def sub)
  have al: "pg_aligned q" if "q \<in> tree (Suc l) ?m p \<union> N" for q
    using that tree_pages [OF wf] km.free_usable [OF F(1)] N(1) by (auto dest: page_ok_aligned)
  have on: "same_on T ?m ?m'" if "T \<subseteq> tree (Suc l) ?m p" "T \<inter> sub l ?m p ?i = {}" for T
    using N(2)
  proof (rule same_off_on)
    show "(sub l ?m p ?i \<union> N) \<inter> T = {}" using that N(1) F(2) by auto
  qed (use that al sub_subset [OF PX_less] in blast)+
  have "p \<notin> sub l ?m p ?i" using wf by simp
  then have e: "ent ?m' p j = ent ?m p j" if "j < 512" for j
    using that by (intro ent_frame on) (auto simp: tree_Suc)
  have oth: "same_on (sub l ?m p j) ?m ?m'" if "j < 512" "j \<noteq> ?i" for j
  proof (rule on)
    show "sub l ?m p j \<subseteq> tree (Suc l) ?m p" using that(1) by (rule sub_subset)
    have "?i < 512" by simp
    with that wf show "sub l ?m p j \<inter> sub l ?m p ?i = {}" unfolding wf_pt.simps by blast
  qed
  have new: "ent ?m' p ?i AND (PTE_R OR PTE_W OR PTE_X) = 0 \<and> wf_pt l ?m' (PTE2PA (ent ?m' p ?i))"
    using wf v e post by (simp add: c [symmetric] walk_post_def)
  have s': "sub l ?m' p ?i = sub l ?m p ?i \<union> N" using post v e by (simp add: sub_def c walk_post_def)
  then have sb: "sub l ?m' p ?i \<subseteq> sub l ?m p ?i \<union> N" by simp
  note U = wf_update [OF wf PX_less e oth new sb]
  have fr: "N \<inter> tree (Suc l) ?m p = {}" using N(1) F(2) by auto
  have pm: "pmap (Suc l) ?m' p w = pmap l ?m' c w" "pmap (Suc l) ?m p w = pmap l ?m c w"
    "leaf (Suc l) ?m' p w = leaf l ?m' c w" if "PX (Suc l) w = ?i" for w
    using that v e by (simp_all add: c Let_def)
  show ?thesis
    unfolding walk_post_def
  proof (intro conjI allI)
    show "wf_pt (Suc l) ?m' p" by (rule U(1)) (simp_all add: fr)
    show "tree (Suc l) ?m' p = tree (Suc l) ?m p \<union> N"
      using sub_subset [OF PX_less, of l ?m p "Suc l" va] s' fr by (subst U(2)) auto
    show "same_off (tree (Suc l) ?m p \<union> N) ?m ?m'"
      using N(2) sub_subset [OF PX_less, of l ?m p "Suc l" va] by (auto intro: same_off_mono)
    show "pmap (Suc l) ?m' p w = pmap (Suc l) ?m p w" for w
    proof (cases "PX (Suc l) w = ?i")
      case True
      then show ?thesis using post pm [OF True] by (simp add: walk_post_def)
    qed (rule U(3), simp_all add: fr)
    show "a \<noteq> 0 \<longrightarrow> leaf (Suc l) ?m' p va = a" using post pm(3) [OF refl] by (simp add: walk_post_def)
  qed (use post in \<open>auto simp: walk_post_def\<close>)
qed

lemma valid_bit: "(v AND 1 \<noteq> (0::uint64)) = bit v 0"
  by (simp add: and_one_eq bit_0 odd_iff_mod_2_eq_one)

lemma bit_int_14: "bit (14 :: int) n \<longleftrightarrow> n = 1 \<or> n = 2 \<or> n = 3"
proof -
  have "(14::int) = 2 ^ 1 OR 2 ^ 2 OR 2 ^ 3" by simp
  then show ?thesis by (simp only: bit_or_iff bit_exp_iff) auto
qed


lemma rwx_bits: "(v AND 14 = (0::uint64)) \<longleftrightarrow> \<not> bit v 1 \<and> \<not> bit v 2 \<and> \<not> bit v 3"
  by (subst bit_eq_iff) (auto simp: bit_and_iff bit_int_14 dest: spec [of _ 1] spec [of _ 2] spec [of _ 3])

lemma pte_bits:
  assumes "pg_aligned p"
  shows "valid (PA2PTE p OR PTE_V)" and "(PA2PTE p OR PTE_V) AND (PTE_R OR PTE_W OR PTE_X) = 0"
    and "PTE2PA (PA2PTE p OR PTE_V) = p"
proof -
  have b: "\<not> bit (PA2PTE p) n" if "n < 10" for n
    using that by (simp add: PA2PTE_def bit_simps)
  show "valid (PA2PTE p OR PTE_V)" unfolding valid_bit by (simp add: bit_or_iff)
  have "(PTE_R OR PTE_W OR PTE_X) = 14" by simp
  then show "(PA2PTE p OR PTE_V) AND (PTE_R OR PTE_W OR PTE_X) = 0"
    by (simp only: rwx_bits bit_or_iff) (simp add: b bit_1_iff)
  show "PTE2PA (PA2PTE p OR PTE_V) = p" using PTE2PA_PA2PTE [OF assms, of 1] by simp
qed

lemma new_child:
  assumes wf: "wf_pt (Suc l) (mem s) p" and inv: "\<not> valid (ent (mem s) p i)" and i: "i < 512"
    and q: "pg_aligned q" "q \<noteq> 0" "q \<notin> tree (Suc l) (mem s) p"
    and t: "\<forall>y. \<not> in_page q y \<longrightarrow> mem t y = mem s y"
    and m: "m = store64 (memset (mem t) q 0 4096) (entry p i) (PA2PTE q OR PTE_V)"
  shows "wf_pt (Suc l) m p" and "tree (Suc l) m p = insert q (tree (Suc l) (mem s) p)"
    and "same_off (tree (Suc l) (mem s) p \<union> {q}) (mem s) m"
    and "pmap (Suc l) m p w = pmap (Suc l) (mem s) p w"
    and "ent m p i = PA2PTE q OR PTE_V" and "same_off {p, q} (mem s) m"
proof -
  let ?m = "mem s"
  have pq: "p \<noteq> q" "pg_aligned p" using q(3) wf_root [OF wf] by auto
  have zero: "m y = 0" if "in_page q y" for y
  proof -
    have "\<not> in_page p y" using in_page_unique [of p q y] pq q(1) that by blast
    then show ?thesis using that i by (simp add: m store64_entry_in_page memset_page)
  qed
  note Z = zero_page [OF q(1,2) zero]
  show off: "same_off {p, q} ?m m"
    using i t by (auto simp: same_off_def m store64_entry_in_page memset_page)
  then show "same_off (tree (Suc l) ?m p \<union> {q}) ?m m" by (rule same_off_mono) auto
  have e: "ent m p j = ent ?m p j" if "j < 512" "j \<noteq> i" for j
  proof -
    have "ent m p j = load64 (memset (mem t) q 0 4096) (entry p j)"
      using that i by (simp add: m ent_def load64_store64_entry)
    also have "\<dots> = ent ?m p j" unfolding ent_def
      using q(1) pq t that by (intro load64_other_page [of q]) (auto simp: memset_page)
    finally show ?thesis .
  qed
  show ei: "ent m p i = PA2PTE q OR PTE_V" by (simp add: m ent_def)
  have oth: "same_on (sub l ?m p j) ?m m" if "j < 512" "j \<noteq> i" for j
  proof (rule same_off_on [OF off])
    have "p \<notin> sub l ?m p j" using wf that by simp
    then show "{p, q} \<inter> sub l ?m p j = {}" using q(3) sub_subset [OF that(1), of l ?m p] by auto
    show "pg_aligned r" if "r \<in> sub l ?m p j" for r
      using tree_pages [OF wf, of r] sub_subset [OF \<open>j < 512\<close>, of l ?m p] that by auto
  qed (use pq q(1) in auto)
  have new: "ent m p i AND (PTE_R OR PTE_W OR PTE_X) = 0 \<and> wf_pt l m (PTE2PA (ent m p i))"
    unfolding ei by (simp only: pte_bits [OF q(1)] Z simp_thms)
  have s: "sub l m p i = {q}" "sub l ?m p i = {}"
    using inv by (simp_all only: sub_def ei pte_bits [OF q(1)] Z if_True if_False simp_thms)
  have sb: "sub l m p i \<subseteq> sub l ?m p i \<union> {q}" and fr: "{q} \<inter> tree (Suc l) ?m p = {}"
    using s q(3) by auto
  note U = wf_update [OF wf i e oth new sb fr]
  show "wf_pt (Suc l) m p" by (rule U(1))
  show "tree (Suc l) m p = insert q (tree (Suc l) ?m p)" using U(2) s by auto
  show "pmap (Suc l) m p w = pmap (Suc l) ?m p w"
  proof (cases "PX (Suc l) w = i")
    case True
    then show ?thesis using inv by (simp only: pmap.simps True ei Let_def pte_bits [OF q(1)] Z) simp
  next
    case False
    show ?thesis by (rule U(3)) (use False in auto)
  qed
qed

lemma walk_loop_alloc:
  assumes "wf_pt l (mem s) p" and "free_pages s F" and "F \<inter> tree l (mem s) p = {}"
  shows "\<exists>a s' N. walk_loop l p va True s = (a, s') \<and> walk_post l p va s F a s' N"
  using assms
proof (induction l arbitrary: p s F)
  case 0
  have "leaf 0 (mem s) p va \<noteq> 0"
    using entry_nonzero [of p "PX 0 va"] 0 by simp
  with 0 show ?case
    by (intro exI [of _ "entry p (PX 0 va)"] exI [of _ s] exI [of _ "{}"]) (simp add: walk_post_def)
next
  case (Suc l)
  let ?i = "PX (Suc l) va" and ?v = "ent (mem s) p (PX (Suc l) va)"
  consider "valid ?v" | "\<not> valid ?v" "F = {}" | "\<not> valid ?v" "F \<noteq> {}" by blast
  then show ?case
  proof cases
    case 1
    let ?c = "PTE2PA ?v"
    have "tree l (mem s) ?c \<subseteq> tree (Suc l) (mem s) p"
      using sub_subset [OF PX_less, of l "mem s" p "Suc l" va] 1 by (simp add: sub_def)
    moreover have "wf_pt l (mem s) ?c" using Suc.prems(1) 1 by simp
    ultimately obtain a s' N where w: "walk_loop l ?c va True s = (a, s')" "walk_post l ?c va s F a s' N"
      using Suc.IH [OF _ Suc.prems(2), of ?c] Suc.prems(3) by blast
    from walk_post_down [OF Suc.prems(1) 1 Suc.prems(2,3) refl w(2)] w(1) 1 show ?thesis
      by (auto simp: ent_def Let_def)
  next
    case 2
    then have "kalloc s = (0, s)" using Suc.prems(2) km.alloc_empty by simp
    then have "walk_loop (Suc l) p va True s = (0, s)" using 2 by (simp add: ent_def Let_def)
    with Suc.prems 2 show ?thesis by (auto simp: walk_post_def)
  next
    case 3
    from km.alloc_page [OF Suc.prems(2) 3(2)] obtain q t where q: "kalloc s = (q, t)" "q \<in> F"
      "free_pages t (F - {q})" "page_ok t = page_ok s" "\<forall>y. \<not> in_page q y \<longrightarrow> mem t y = mem s y" by blast
    have qok: "pg_aligned q" "q \<noteq> 0" using km.free_usable [OF Suc.prems(2) q(2)] by (auto dest: page_ok_aligned)
    have qp: "q \<notin> tree (Suc l) (mem s) p" using q(2) Suc.prems(3) by blast
    define m where "m = store64 (memset (mem t) q 0 4096) (entry p ?i) (PA2PTE q OR PTE_V)"
    define u where "u = t\<lparr>mem := m\<rparr>"
    note U = new_child [OF Suc.prems(1) 3(1) PX_less qok qp q(5) m_def]
    have mem_u: "mem u = m" and ok_u: "page_ok u = page_ok s" by (simp_all add: u_def km.overwrite_simps q(4))
    have tr: "tree (Suc l) (mem u) p = insert q (tree (Suc l) (mem s) p)" by (simp add: mem_u U(2))
    have fp: "free_pages u (F - {q})"
      unfolding u_def
    proof (rule km.overwrite_free [OF q(3)])
      fix y assume "\<exists>x\<in>F - {q}. in_page x y"
      then obtain x where x: "x \<in> F" "x \<noteq> q" "in_page x y" by blast
      have xa: "pg_aligned x" using km.free_usable [OF Suc.prems(2) x(1)] by (rule page_ok_aligned)
      have "x \<noteq> p" using x(1) Suc.prems(3) by auto
      then have "\<not> in_page p y" "\<not> in_page q y"
        using in_page_unique [of x _ y] xa x wf_root [OF Suc.prems(1)] qok(1) by blast+
      then show "m y = mem t y" by (simp add: m_def store64_entry_in_page memset_page)
    qed
    have v: "valid (ent (mem u) p ?i)" "PTE2PA (ent (mem u) p ?i) = q"
      by (simp_all only: mem_u U(5) pte_bits [OF qok(1)] simp_thms)
    have wfu: "wf_pt (Suc l) (mem u) p" by (simp only: mem_u U(1))
    from wf_child [OF this PX_less v(1)] have wq: "wf_pt l (mem u) q" by (simp only: v(2))
    have dj: "(F - {q}) \<inter> tree (Suc l) (mem u) p = {}" using Suc.prems(3) tr by auto
    moreover have "tree l (mem u) q \<subseteq> tree (Suc l) (mem u) p"
      using sub_subset [OF PX_less, of l "mem u" p "Suc l" va] v by (simp add: sub_def)
    ultimately obtain a s' N where w: "walk_loop l q va True u = (a, s')" "walk_post l q va u (F - {q}) a s' N"
      using Suc.IH [OF wq fp] by blast
    note W = walk_post_down [OF wfu v(1) fp dj v(2) [symmetric] w(2)]
    have "walk_loop (Suc l) p va True s = (a, s')"
      using 3(1) q(1) qok w(1) by (simp add: ent_def Let_def u_def m_def)
    moreover have "walk_post (Suc l) p va s F a s' (insert q N)"
    proof -
      have "same_off (tree (Suc l) (mem s) p \<union> insert q N) (mem s) (mem s')"
      proof (rule same_off_trans)
        show "same_off (tree (Suc l) (mem s) p \<union> insert q N) (mem s) (mem u)"
          using U(3) by (auto simp: mem_u intro: same_off_mono)
        show "same_off (tree (Suc l) (mem s) p \<union> insert q N) (mem u) (mem s')"
          using W tr by (simp add: walk_post_def)
      qed
      moreover have "card (insert q N) \<le> Suc l"
        using w(2) card_insert_le_m1 [of "Suc l" N q] by (auto simp: walk_post_def)
      moreover have "F - {q} - N = F - insert q N" by auto
      ultimately show ?thesis using W tr q(2) U(4) ok_u by (auto simp: walk_post_def mem_u)
    qed
    ultimately show ?thesis by blast
  qed
qed

end
