(* ===== verification/Uvm.thy ===== *)
theory Uvm
  imports Pagetable
begin

section \<open>Address spaces: what the operations of kernel/vm.c promise\<close>

text \<open>
  The table of a process is abstracted to a partial map from virtual page numbers to leaf
  entries (\<open>vpte\<close>). \<open>mappages\<close>, \<open>uvmunmap\<close>, \<open>uvmalloc\<close>, \<open>uvmcopy\<close> and \<open>uvmfree\<close> are shown to
  implement updates of that map, together with the accounting of physical pages: which pages
  leave the free set, which come back, and that nothing else in memory changes.
\<close>

abbreviation (input) NVP :: nat where "NVP \<equiv> 67108864"

definition pgaddr :: "nat \<Rightarrow> uint64" where
  "pgaddr i = of_nat (4096 * i)"

text \<open>
  The page numbers below \<open>NVP\<close> are those \<open>walk\<close> accepts; a table has entries for twice as many.
\<close>

definition vpte :: "pmem \<Rightarrow> uint64 \<Rightarrow> nat \<Rightarrow> uint64 option" where
  "vpte s pt i = (if i < 2 * NVP then pmap 2 (mem s) pt (pgaddr i) else None)"

lemma unat_pgaddr: "i \<le> 2 * NVP \<Longrightarrow> unat (pgaddr i) = 4096 * i"
  unfolding pgaddr_def by (rule unat_of_nat64) simp

lemma pgaddr_Suc: "pgaddr i + PGSIZE = pgaddr (Suc i)"
  by (simp add: pgaddr_def add.commute)

lemma pgaddr_less: "i < NVP \<Longrightarrow> pgaddr i < MAXVA"
  by (simp add: word_less_nat_alt unat_pgaddr)

lemma pgaddr_less39: "i < 2 * NVP \<Longrightarrow> pgaddr i < 0x8000000000"
  by (simp add: word_less_nat_alt unat_pgaddr)

lemma pgaddr_inj: "i \<le> 2 * NVP \<Longrightarrow> j \<le> 2 * NVP \<Longrightarrow> pgaddr i = pgaddr j \<longleftrightarrow> i = j"
  by (auto simp: word_unat_eq_iff unat_pgaddr)

lemma pgaddr_mono: "i \<le> NVP \<Longrightarrow> j \<le> NVP \<Longrightarrow> pgaddr i < pgaddr j \<longleftrightarrow> i < j"
  by (auto simp: word_less_nat_alt unat_pgaddr)

lemma pgaddr_aligned: "i \<le> 2 * NVP \<Longrightarrow> pg_aligned (pgaddr i)"
  by (simp add: pg_aligned_unat unat_pgaddr)

lemma PGROUNDDOWN_pgaddr: "va < MAXVA \<Longrightarrow> PGROUNDDOWN va = pgaddr (unat va div 4096)"
  by (simp add: word_unat_eq_iff unat_PGROUNDDOWN unat_pgaddr word_less_nat_alt)

lemma PGROUNDDOWN_of_pgaddr: "i < 2 * NVP \<Longrightarrow> PGROUNDDOWN (pgaddr i) = pgaddr i"
  by (simp add: word_unat_eq_iff unat_PGROUNDDOWN unat_pgaddr)

lemma PX_PGROUNDDOWN: "PX l (PGROUNDDOWN va) = PX l va"
  by (rule bit_word_eqI)
    (auto simp: bit_PX PGROUNDDOWN_shift bit_push_bit_iff bit_drop_bit_eq add.assoc dest: bit_imp_le_length)

lemma PX_pgaddr_eq:
  assumes "i < 2 * NVP" "j < 2 * NVP"
  shows "(\<forall>k\<le>2. PX k (pgaddr i) = PX k (pgaddr j)) \<longleftrightarrow> i = j"
proof
  assume "\<forall>k\<le>2. PX k (pgaddr i) = PX k (pgaddr j)"
  then have "PX 2 (pgaddr i) = PX 2 (pgaddr j)" "PX 1 (pgaddr i) = PX 1 (pgaddr j)"
    "PX 0 (pgaddr i) = PX 0 (pgaddr j)" by auto
  from PX_page_inj [OF pgaddr_less39 [OF assms(1)] pgaddr_less39 [OF assms(2)] this]
  show "i = j" using assms by (simp add: PGROUNDDOWN_of_pgaddr pgaddr_inj)
qed simp

lemma leaf_cong_PX: "(\<And>k. k \<le> l \<Longrightarrow> PX k va = PX k vb) \<Longrightarrow> leaf l m p va = leaf l m p vb"
  by (induction l arbitrary: p) (simp_all add: Let_def)

lemma pmap_cong_PX: "(\<And>k. k \<le> l \<Longrightarrow> PX k va = PX k vb) \<Longrightarrow> pmap l m p va = pmap l m p vb"
  by (induction l arbitrary: p) (simp_all add: Let_def)

lemma vpte_of_va: "va < MAXVA \<Longrightarrow> pmap 2 (mem s) pt va = vpte s pt (unat va div 4096)"
proof -
  assume va: "va < MAXVA"
  then have "unat va div 4096 < NVP" by (simp add: word_less_nat_alt)
  moreover have "pmap 2 (mem s) pt (PGROUNDDOWN va) = pmap 2 (mem s) pt va"
    by (rule pmap_cong_PX) (rule PX_PGROUNDDOWN)
  ultimately show ?thesis by (simp add: vpte_def PGROUNDDOWN_pgaddr [OF va])
qed

subsection \<open>The invariant, and one step of each loop\<close>

definition vm_ok :: "pmem \<Rightarrow> uint64 set \<Rightarrow> uint64 \<Rightarrow> bool" where
  "vm_ok s F pt \<longleftrightarrow> free_pages s F \<and> wf_pt 2 (mem s) pt \<and> F \<inter> tree 2 (mem s) pt = {}"

lemma vm_ok_aligned: "vm_ok s F pt \<Longrightarrow> q \<in> F \<union> tree 2 (mem s) pt \<Longrightarrow> pg_aligned q"
  by (auto simp: vm_ok_def dest: tree_pages free_pages_usable page_ok_aligned)

text \<open>
  \<open>grows s F pt N s'\<close>: from s to s' the table took the pages N out of the free pages F and nothing
  outside the table changed.
\<close>

definition grows :: "pmem \<Rightarrow> uint64 set \<Rightarrow> uint64 \<Rightarrow> uint64 set \<Rightarrow> pmem \<Rightarrow> bool" where
  "grows s F pt N s' \<longleftrightarrow> N \<subseteq> F \<and> vm_ok s' (F - N) pt \<and> page_ok s' = page_ok s \<and>
     tree 2 (mem s') pt = tree 2 (mem s) pt \<union> N \<and>
     same_off (tree 2 (mem s) pt \<union> N) (mem s) (mem s')"

lemma grows_trans:
  assumes "grows s F pt N t" and "grows t (F - N) pt M u"
  shows "grows s F pt (N \<union> M) u"
proof -
  have "F - N - M = F - (N \<union> M)" by auto
  moreover have "same_off (tree 2 (mem s) pt \<union> (N \<union> M)) (mem s) (mem u)"
  proof (rule same_off_trans)
    show "same_off (tree 2 (mem s) pt \<union> (N \<union> M)) (mem s) (mem t)"
      using assms(1) by (auto simp: grows_def intro: same_off_mono)
    show "same_off (tree 2 (mem s) pt \<union> (N \<union> M)) (mem t) (mem u)"
      using assms by (auto simp: grows_def Un_assoc)
  qed
  ultimately show ?thesis using assms by (auto simp: grows_def)
qed

lemma vm_store:
  assumes "vm_ok s F pt" and "i < NVP" and "a = leaf 2 (mem s) pt (pgaddr i)" and "a \<noteq> 0"
  defines "s' \<equiv> \<lambda>v. s\<lparr>mem := store64 (mem s) a v\<rparr>"
  shows "grows s F pt {} (s' v)"
    and "vpte (s' v) pt = (vpte s pt)(i := if valid v then Some v else None)"
proof -
  let ?m = "store64 (mem s) a v"
  have wf: "wf_pt 2 (mem s) pt" and F: "free_pages s F" "F \<inter> tree 2 (mem s) pt = {}"
    using assms(1) by (auto simp: vm_ok_def)
  note L = leaf_store [OF wf, of "pgaddr i" ?m v, folded assms(3), OF assms(4) refl]
  have "same_on F (mem s) ?m"
    using L F(2) vm_ok_aligned [OF assms(1)] by (intro same_off_on [of "tree 2 (mem s) pt"]) auto
  then have "free_pages (s' v) F" unfolding s'_def
    by (intro km.overwrite_free [OF F(1)]) (auto simp: same_on_def)
  then show "grows s F pt {} (s' v)"
    using L F km.overwrite_simps(2) by (simp add: grows_def vm_ok_def s'_def)
  show "vpte (s' v) pt = (vpte s pt)(i := if valid v then Some v else None)"
  proof
    fix j
    show "vpte (s' v) pt j = ((vpte s pt)(i := if valid v then Some v else None)) j"
      using L assms(2) PX_pgaddr_eq [of j i] by (auto simp: vpte_def s'_def)
  qed
qed

lemma vm_walk_alloc:
  assumes "vm_ok s F pt" and "i < NVP"
  shows "\<exists>a s1 N. walk pt (pgaddr i) True s = Inr (a, s1) \<and> grows s F pt N s1 \<and> vpte s1 pt = vpte s pt \<and>
    (a \<noteq> 0 \<longrightarrow> leaf 2 (mem s1) pt (pgaddr i) = a) \<and> (a = 0 \<longrightarrow> N = F) \<and> card N \<le> 2"
proof -
  have "\<not> MAXVA \<le> pgaddr i" using pgaddr_less [OF assms(2)] by simp
  moreover obtain a s1 N where w: "walk_loop 2 pt (pgaddr i) True s = (a, s1)"
    "walk_post 2 pt (pgaddr i) s F a s1 N"
    using walk_loop_alloc [of 2 s pt F "pgaddr i"] assms(1) unfolding vm_ok_def by blast
  ultimately have "walk pt (pgaddr i) True s = Inr (a, s1)" by (simp add: walk_def)
  moreover have "grows s F pt N s1" using w(2) assms(1) by (auto simp: walk_post_def grows_def vm_ok_def)
  moreover have "vpte s1 pt = vpte s pt" using w(2) by (auto simp: walk_post_def vpte_def fun_eq_iff)
  ultimately show ?thesis using w(2) by (auto simp: walk_post_def)
qed

lemma vm_walk:
  assumes "vm_ok s F pt" and "i < NVP"
  shows "walk pt (pgaddr i) False s = Inr (leaf 2 (mem s) pt (pgaddr i), s)"
    and "vpte s pt i = (let a = leaf 2 (mem s) pt (pgaddr i)
      in if a \<noteq> 0 \<and> valid (load64 (mem s) a) then Some (load64 (mem s) a) else None)"
  using assms leaf_pmap [of 2 "mem s" pt "pgaddr i"]
  by (auto simp: walk_no_alloc pgaddr_less vpte_def vm_ok_def Let_def)

subsection \<open>mappages\<close>

text \<open>The entry \<open>mappages\<close> stores for the j-th page of a range.\<close>

definition map_pte :: "uint64 \<Rightarrow> uint64 \<Rightarrow> nat \<Rightarrow> uint64" where
  "map_pte pa perm j = PA2PTE (pa + pgaddr j) OR perm OR PTE_V"

definition map_range :: "nat \<Rightarrow> nat \<Rightarrow> (nat \<Rightarrow> uint64) \<Rightarrow> (nat \<Rightarrow> uint64 option) \<Rightarrow> nat \<Rightarrow> uint64 option" where
  "map_range i n f M = (\<lambda>j. if i \<le> j \<and> j < i + n then Some (f (j - i)) else M j)"

lemma map_range_0 [simp]: "map_range i 0 f M = M"
  by (auto simp: map_range_def fun_eq_iff)

lemma map_range_Suc:
  "map_range (Suc i) n (\<lambda>j. f (Suc j)) (M(i \<mapsto> f 0)) = map_range i (Suc n) f M"
  by (auto simp: map_range_def fun_eq_iff Suc_diff_Suc)

lemma map_pte_Suc: "map_pte pa perm (Suc j) = map_pte (pa + PGSIZE) perm j"
  by (simp add: map_pte_def pgaddr_Suc [symmetric] algebra_simps)

lemma map_pte_0: "map_pte pa perm 0 = PA2PTE pa OR perm OR PTE_V"
  by (simp add: map_pte_def pgaddr_def)

lemma valid_or_1: "valid (v OR PTE_V)"
  unfolding valid_bit by (simp add: bit_or_iff)

lemma mappages_loop_step:
  assumes "vm_ok s F pt" and "i < NVP" and "vpte s pt i = None"
  shows "(\<exists>s1. mappages_loop pt (pgaddr i) l pa perm s = Inr (-1, s1) \<and> grows s F pt F s1 \<and> vpte s1 pt = vpte s pt \<and> card F \<le> 2) \<or>
    (\<exists>N s2. mappages_loop pt (pgaddr i) l pa perm s =
        (if pgaddr i = l then Inr (0, s2) else mappages_loop pt (pgaddr (Suc i)) l (pa + PGSIZE) perm s2) \<and>
      grows s F pt N s2 \<and> vpte s2 pt = (vpte s pt)(i \<mapsto> map_pte pa perm 0) \<and> card N \<le> 2)"
proof -
  obtain a s1 N where w: "walk pt (pgaddr i) True s = Inr (a, s1)" "grows s F pt N s1" "vpte s1 pt = vpte s pt"
    "a \<noteq> 0 \<Longrightarrow> leaf 2 (mem s1) pt (pgaddr i) = a" "a = 0 \<Longrightarrow> N = F" "card N \<le> 2"
    using vm_walk_alloc [OF assms(1,2)] by blast
  show ?thesis
  proof (cases "a = 0")
    case True
    with w have "mappages_loop pt (pgaddr i) l pa perm s = Inr (-1, s1)"
      by (subst mappages_loop.simps) simp
    then show ?thesis using w True by blast
  next
    case False
    have ok1: "vm_ok s1 (F - N) pt" using w(2) by (simp add: grows_def)
    define s2 where "s2 = s1\<lparr>mem := store64 (mem s1) a (PA2PTE pa OR perm OR PTE_V)\<rparr>"
    have "valid (PA2PTE pa OR perm OR PTE_V)"
      using valid_or_1 [of "PA2PTE pa OR perm"] unfolding or.assoc .
    with vm_store [OF ok1 assms(2) w(4) [OF False, symmetric] False, of "PA2PTE pa OR perm OR PTE_V"]
    have st: "grows s1 (F - N) pt {} s2" "vpte s2 pt = (vpte s pt)(i \<mapsto> map_pte pa perm 0)"
      by (simp_all add: s2_def w(3) map_pte_0)
    have "\<not> valid (load64 (mem s1) a)"
      using vm_walk(2) [OF ok1 assms(2)] assms(3) w(3) w(4) [OF False] False
      by (auto simp: Let_def split: if_splits)
    then have "mappages_loop pt (pgaddr i) l pa perm s =
        (if pgaddr i = l then Inr (0, s2) else mappages_loop pt (pgaddr (Suc i)) l (pa + PGSIZE) perm s2)"
      using w(1) False by (subst mappages_loop.simps) (simp add: s2_def Let_def pgaddr_Suc)
    moreover have "grows s F pt N s2" using grows_trans [OF w(2) st(1)] by simp
    ultimately show ?thesis using st(2) w(6) by blast
  qed
qed

lemma mappages_loop_spec:
  assumes "vm_ok s F pt" and "i + n < NVP" and "\<And>j. i \<le> j \<Longrightarrow> j \<le> i + n \<Longrightarrow> vpte s pt j = None"
  shows "\<exists>r s' N k. mappages_loop pt (pgaddr i) (pgaddr (i + n)) pa perm s = Inr (r, s') \<and>
    grows s F pt N s' \<and> vpte s' pt = map_range i k (map_pte pa perm) (vpte s pt) \<and>
    (r = 0 \<and> k = Suc n \<or> r = -1 \<and> k \<le> n \<and> N = F)"
  using assms
proof (induction n arbitrary: i s F pa)
  case 0
  have one: "map_range i (Suc 0) (map_pte pa perm) (vpte s pt) = (vpte s pt)(i \<mapsto> map_pte pa perm 0)"
    using map_range_Suc [of i 0 "map_pte pa perm" "vpte s pt"] by simp
  from mappages_loop_step [OF 0(1), of i "pgaddr i" pa perm] 0(2,3) consider
    (fail) s1 where "mappages_loop pt (pgaddr i) (pgaddr i) pa perm s = Inr (-1, s1)"
      "grows s F pt F s1" "vpte s1 pt = vpte s pt"
  | (last_page) N s2 where "mappages_loop pt (pgaddr i) (pgaddr i) pa perm s = Inr (0, s2)"
      "grows s F pt N s2" "vpte s2 pt = (vpte s pt)(i \<mapsto> map_pte pa perm 0)" by auto
  then show ?case
  proof cases
    case fail
    then show ?thesis by (intro exI [of _ "-1"] exI [of _ s1] exI [of _ F] exI [of _ 0]) simp
  next
    case last_page
    then show ?thesis by (intro exI [of _ 0] exI [of _ s2] exI [of _ N] exI [of _ "Suc 0"]) (simp add: one)
  qed
next
  case (Suc n)
  have i: "i < NVP" "vpte s pt i = None" "pgaddr i \<noteq> pgaddr (i + Suc n)"
    using Suc.prems by (auto simp: pgaddr_inj)
  from mappages_loop_step [OF Suc.prems(1) i(1,2), of "pgaddr (i + Suc n)" pa perm] i(3) consider
    (fail) s1 where "mappages_loop pt (pgaddr i) (pgaddr (i + Suc n)) pa perm s = Inr (-1, s1)"
      "grows s F pt F s1" "vpte s1 pt = vpte s pt"
  | (step) N s2 where "mappages_loop pt (pgaddr i) (pgaddr (i + Suc n)) pa perm s =
        mappages_loop pt (pgaddr (Suc i)) (pgaddr (i + Suc n)) (pa + PGSIZE) perm s2"
      "grows s F pt N s2" "vpte s2 pt = (vpte s pt)(i \<mapsto> map_pte pa perm 0)" by auto
  then show ?case
  proof cases
    case fail
    then show ?thesis by (intro exI [of _ "-1"] exI [of _ s1] exI [of _ F] exI [of _ 0]) simp
  next
    case step
    have "vm_ok s2 (F - N) pt" using step(2) by (simp add: grows_def)
    moreover have "vpte s2 pt j = None" if "Suc i \<le> j" "j \<le> Suc i + n" for j
      using Suc.prems(3) [of j] that step(3) by simp
    ultimately obtain r s' M k where IH:
      "mappages_loop pt (pgaddr (Suc i)) (pgaddr (Suc i + n)) (pa + PGSIZE) perm s2 = Inr (r, s')"
      "grows s2 (F - N) pt M s'"
      "vpte s' pt = map_range (Suc i) k (map_pte (pa + PGSIZE) perm) (vpte s2 pt)"
      "r = 0 \<and> k = Suc n \<or> r = -1 \<and> k \<le> n \<and> M = F - N"
      using Suc.IH [of s2 "F - N" "Suc i" "pa + PGSIZE"] Suc.prems(2) by auto
    have "map_pte (pa + PGSIZE) perm = (\<lambda>j. map_pte pa perm (Suc j))" by (simp add: map_pte_Suc fun_eq_iff)
    then have "vpte s' pt = map_range i (Suc k) (map_pte pa perm) (vpte s pt)"
      using IH(3) step(3) by (simp only: map_range_Suc)
    moreover have "grows s F pt (N \<union> M) s'" using grows_trans [OF step(2) IH(2)] .
    moreover have "M = F - N \<Longrightarrow> N \<union> M = F" using step(2) by (auto simp: grows_def)
    ultimately show ?thesis using IH(1,4) step(1)
      by (intro exI [of _ r] exI [of _ s'] exI [of _ "N \<union> M"] exI [of _ "Suc k"]) auto
  qed
qed

lemma mappages_pages:
  assumes "i + n \<le> NVP" and "0 < n"
  shows "mappages pt (pgaddr i) (pgaddr n) pa perm s = mappages_loop pt (pgaddr i) (pgaddr (i + (n - 1))) pa perm s"
proof -
  have "pgaddr i mod PGSIZE = 0" "pgaddr n mod PGSIZE = 0"
    using pgaddr_aligned [of i] pgaddr_aligned [of n] assms by (simp_all add: pg_aligned_def)
  moreover have "pgaddr n \<noteq> 0" using pgaddr_inj [of n 0] assms by (simp add: pgaddr_def)
  moreover have "pgaddr i + pgaddr n - PGSIZE = pgaddr (i + (n - 1))"
    using assms(2) by (cases n) (simp_all add: pgaddr_def algebra_simps)
  ultimately show ?thesis by (simp add: mappages_def)
qed

lemma mappages_spec:
  assumes "vm_ok s F pt" and "i + n \<le> NVP" and "0 < n" and "\<And>j. i \<le> j \<Longrightarrow> j < i + n \<Longrightarrow> vpte s pt j = None"
  shows "\<exists>r s' N k. mappages pt (pgaddr i) (pgaddr n) pa perm s = Inr (r, s') \<and>
    grows s F pt N s' \<and> vpte s' pt = map_range i k (map_pte pa perm) (vpte s pt) \<and>
    (r = 0 \<and> k = n \<or> r = -1 \<and> k < n \<and> N = F)"
proof -
  have "\<exists>r s' N k. mappages_loop pt (pgaddr i) (pgaddr (i + (n - 1))) pa perm s = Inr (r, s') \<and>
    grows s F pt N s' \<and> vpte s' pt = map_range i k (map_pte pa perm) (vpte s pt) \<and>
    (r = 0 \<and> k = Suc (n - 1) \<or> r = -1 \<and> k \<le> n - 1 \<and> N = F)"
    using assms by (intro mappages_loop_spec) auto
  then show ?thesis unfolding mappages_pages [OF assms(2,3)] using assms(3) by fastforce
qed

subsection \<open>uvmunmap\<close>

text \<open>
  \<open>owned s F pt i v\<close>: page i is mapped by the leaf entry v to a page that belongs to this address
  space: not free and not part of the table.
\<close>

definition owned :: "pmem \<Rightarrow> uint64 set \<Rightarrow> uint64 \<Rightarrow> nat \<Rightarrow> uint64 \<Rightarrow> bool" where
  "owned s F pt i v \<longleftrightarrow> vpte s pt i = Some v \<and> PTE_FLAGS v \<noteq> PTE_V \<and> page_ok s (PTE2PA v) \<and>
     PTE2PA v \<notin> F \<and> PTE2PA v \<notin> tree 2 (mem s) pt"

definition frame :: "pmem \<Rightarrow> uint64 \<Rightarrow> nat \<Rightarrow> uint64" where
  "frame s pt i = PTE2PA (the (vpte s pt i))"

lemma unmap_page:
  assumes ok: "vm_ok s F pt" and i: "i < NVP" and own: "owned s F pt i v"
  shows "\<exists>s'. (\<forall>l. pgaddr i < l \<longrightarrow>
      uvmunmap_loop pt (pgaddr i) l True s = uvmunmap_loop pt (pgaddr (Suc i)) l True s') \<and>
    vm_ok s' (insert (PTE2PA v) F) pt \<and> page_ok s' = page_ok s \<and> tree 2 (mem s') pt = tree 2 (mem s) pt \<and>
    same_off (insert (PTE2PA v) (tree 2 (mem s) pt)) (mem s) (mem s') \<and>
    vpte s' pt = (vpte s pt)(i := None)"
proof -
  let ?pa = "PTE2PA v" and ?T = "tree 2 (mem s) pt" and ?a = "leaf 2 (mem s) pt (pgaddr i)"
  from ok have F: "free_pages s F" "F \<inter> ?T = {}" and wf: "wf_pt 2 (mem s) pt" by (auto simp: vm_ok_def)
  note w = vm_walk [OF ok i]
  have a: "?a \<noteq> 0" "valid v" "load64 (mem s) ?a = v"
    using w(2) own by (auto simp: owned_def Let_def split: if_splits)
  from own km.dealloc_page [OF F(1), of ?pa] obtain t where t: "kfree ?pa s = Inr t"
    "free_pages t (insert ?pa F)" "page_ok t = page_ok s" "\<forall>y. \<not> in_page ?pa y \<longrightarrow> mem t y = mem s y"
    by (auto simp: owned_def)
  have off: "same_off {?pa} (mem s) (mem t)" using t(4) by (simp add: same_off_def)
  then have on: "same_on ?T (mem s) (mem t)"
    by (rule same_off_on) (use own tree_pages [OF wf] in \<open>auto simp: owned_def\<close>)
  note fr = pt_frame [OF on]
  have okt: "vm_ok t (insert ?pa F) pt" using t(2) F(2) own wf fr by (auto simp: vm_ok_def owned_def)
  have vt: "vpte t pt = vpte s pt" by (simp add: vpte_def fr fun_eq_iff)
  define s' where "s' = t\<lparr>mem := store64 (mem t) ?a 0\<rparr>"
  note st = vm_store [OF okt i, of ?a, unfolded fr(3), OF refl a(1), of 0, folded s'_def]
  have "uvmunmap_loop pt (pgaddr i) l True s = uvmunmap_loop pt (pgaddr (Suc i)) l True s'"
    if "pgaddr i < l" for l
    using that w(1) a own t(1)
    by (subst uvmunmap_loop.simps) (simp add: Let_def owned_def s'_def pgaddr_Suc)
  moreover have "same_off (insert ?pa ?T) (mem s) (mem s')"
  proof (rule same_off_trans)
    show "same_off (insert ?pa ?T) (mem s) (mem t)" using off by (rule same_off_mono) auto
    show "same_off (insert ?pa ?T) (mem t) (mem s')"
      using st(1) by (auto simp: grows_def fr intro: same_off_mono)
  qed
  ultimately show ?thesis
    using st t(3) vt by (intro exI [of _ s']) (simp add: grows_def fr)
qed

text \<open>A range of pages that belong to the address space, each mapped to a page of its own.\<close>

definition owned_range :: "pmem \<Rightarrow> uint64 set \<Rightarrow> uint64 \<Rightarrow> nat \<Rightarrow> nat \<Rightarrow> bool" where
  "owned_range s F pt i n \<longleftrightarrow> i + n \<le> NVP \<and> (\<forall>j\<in>{i..<i + n}. \<exists>v. owned s F pt j v) \<and>
     inj_on (frame s pt) {i..<i + n}"

definition frames :: "pmem \<Rightarrow> uint64 \<Rightarrow> nat \<Rightarrow> nat \<Rightarrow> uint64 set" where
  "frames s pt i n = frame s pt ` {i..<i + n}"

lemma owned_rangeD: "owned_range s F pt i n \<Longrightarrow> i \<le> j \<Longrightarrow> j < i + n \<Longrightarrow> \<exists>v. owned s F pt j v"
  by (simp add: owned_range_def)

lemma owned_frame: "owned s F pt i v \<Longrightarrow> frame s pt i = PTE2PA v"
  by (simp add: owned_def frame_def)

lemma uvmunmap_loop_spec:
  assumes "vm_ok s F pt" and "owned_range s F pt i n"
  shows "\<exists>s'. uvmunmap_loop pt (pgaddr i) (pgaddr (i + n)) True s = Inr s' \<and>
    vm_ok s' (F \<union> frames s pt i n) pt \<and> page_ok s' = page_ok s \<and> tree 2 (mem s') pt = tree 2 (mem s) pt \<and>
    same_off (frames s pt i n \<union> tree 2 (mem s) pt) (mem s) (mem s') \<and>
    vpte s' pt = (\<lambda>j. if i \<le> j \<and> j < i + n then None else vpte s pt j)"
  using assms
proof (induction n arbitrary: i s F)
  case 0
  then show ?case by (subst uvmunmap_loop.simps) (auto simp: frames_def fun_eq_iff)
next
  case (Suc n)
  have i: "i < NVP" "pgaddr i < pgaddr (i + Suc n)"
    using Suc.prems(2) by (auto simp: owned_range_def pgaddr_mono)
  obtain v where v: "owned s F pt i v" using owned_rangeD [OF Suc.prems(2), of i] by auto
  let ?T = "tree 2 (mem s) pt" and ?pa = "PTE2PA v"
  from unmap_page [OF Suc.prems(1) i(1) v] i(2) obtain t where t:
    "uvmunmap_loop pt (pgaddr i) (pgaddr (i + Suc n)) True s = uvmunmap_loop pt (pgaddr (Suc i)) (pgaddr (i + Suc n)) True t"
    "vm_ok t (insert ?pa F) pt" "page_ok t = page_ok s" "tree 2 (mem t) pt = ?T"
    "same_off (insert ?pa ?T) (mem s) (mem t)" "vpte t pt = (vpte s pt)(i := None)" by blast
  have fr: "frame t pt j = frame s pt j" if "j \<noteq> i" for j using that t(6) by (simp add: frame_def)
  have pa: "frame s pt i = ?pa" by (rule owned_frame [OF v])
  have inj: "inj_on (frame s pt) {i..<i + Suc n}" using Suc.prems(2) by (simp add: owned_range_def)
  have "owned_range t (insert ?pa F) pt (Suc i) n"
    unfolding owned_range_def
  proof (intro conjI ballI)
    show "Suc i + n \<le> NVP" using Suc.prems(2) by (simp add: owned_range_def)
    show "inj_on (frame t pt) {Suc i..<Suc i + n}"
      using inj fr by (auto simp: inj_on_def)
    fix j assume j: "j \<in> {Suc i..<Suc i + n}"
    then obtain w where w: "owned s F pt j w" using owned_rangeD [OF Suc.prems(2), of j] by auto
    have "PTE2PA w \<noteq> ?pa"
      using inj_onD [OF inj, of j i] owned_frame [OF w] pa j by auto
    with w j t(3,4,6) have "owned t (insert ?pa F) pt j w" by (auto simp: owned_def)
    then show "\<exists>v. owned t (insert ?pa F) pt j v" ..
  qed
  from Suc.IH [OF t(2) this] obtain u where u:
    "uvmunmap_loop pt (pgaddr (Suc i)) (pgaddr (Suc i + n)) True t = Inr u"
    "vm_ok u (insert ?pa F \<union> frames t pt (Suc i) n) pt" "page_ok u = page_ok t"
    "tree 2 (mem u) pt = tree 2 (mem t) pt"
    "same_off (frames t pt (Suc i) n \<union> tree 2 (mem t) pt) (mem t) (mem u)"
    "vpte u pt = (\<lambda>j. if Suc i \<le> j \<and> j < Suc i + n then None else vpte t pt j)" by blast
  have "frames t pt (Suc i) n = frames s pt (Suc i) n"
    unfolding frames_def by (rule image_cong) (auto intro: fr)
  moreover have "{i..<i + Suc n} = insert i {Suc i..<Suc i + n}" by auto
  ultimately have frs: "frames s pt i (Suc n) = insert ?pa (frames t pt (Suc i) n)"
    by (simp add: frames_def pa)
  have "same_off (frames s pt i (Suc n) \<union> ?T) (mem s) (mem u)"
    by (rule same_off_trans [of _ _ "mem t"]; rule same_off_mono [OF t(5)] same_off_mono [OF u(5)])
      (auto simp: frs t(4))
  moreover have "vpte u pt = (\<lambda>j. if i \<le> j \<and> j < i + Suc n then None else vpte s pt j)"
    using u(6) t(6) by (auto simp: fun_eq_iff)
  ultimately show ?case using u t by (simp add: frs) 
qed

lemma uvmunmap_spec:
  assumes "vm_ok s F pt" and "owned_range s F pt i n"
  shows "\<exists>s'. uvmunmap pt (pgaddr i) (of_nat n) True s = Inr s' \<and>
    vm_ok s' (F \<union> frames s pt i n) pt \<and> page_ok s' = page_ok s \<and> tree 2 (mem s') pt = tree 2 (mem s) pt \<and>
    same_off (frames s pt i n \<union> tree 2 (mem s) pt) (mem s) (mem s') \<and>
    vpte s' pt = (\<lambda>j. if i \<le> j \<and> j < i + n then None else vpte s pt j)"
proof -
  have "pgaddr i mod PGSIZE = 0"
    using pgaddr_aligned [of i] assms(2) by (simp add: pg_aligned_def owned_range_def)
  moreover have "pgaddr i + of_nat n * PGSIZE = pgaddr (i + n)" by (simp add: pgaddr_def algebra_simps)
  ultimately show ?thesis using uvmunmap_loop_spec [OF assms] by (simp add: uvmunmap_def)
qed

subsection \<open>uvmdealloc\<close>

definition npages :: "uint64 \<Rightarrow> nat" where
  "npages sz = (unat sz + 4095) div 4096"

lemma npages_le: "sz \<le> MAXVA \<Longrightarrow> npages sz \<le> NVP"
  by (simp add: npages_def word_le_nat_alt)

lemma npages_mono: "a \<le> b \<Longrightarrow> npages a \<le> npages b"
  by (simp add: npages_def word_le_nat_alt div_le_mono)

lemma PGROUNDUP_npages: "sz \<le> MAXVA \<Longrightarrow> PGROUNDUP sz = pgaddr (npages sz)"
  using npages_le [of sz]
  by (simp add: word_unat_eq_iff unat_PGROUNDUP unat_pgaddr npages_def word_le_nat_alt)

lemma pgaddr_less_sz: "i \<le> NVP \<Longrightarrow> sz \<le> MAXVA \<Longrightarrow> pgaddr i < sz \<longleftrightarrow> i < npages sz"
  by (auto simp: word_less_nat_alt unat_pgaddr npages_def)

lemma npages_pgaddr [simp]: "i \<le> NVP \<Longrightarrow> npages (pgaddr i) = i"
  by (simp add: npages_def unat_pgaddr)

lemma pgaddr_le_MAXVA: "i \<le> NVP \<Longrightarrow> pgaddr i \<le> MAXVA"
  by (simp add: word_le_nat_alt unat_pgaddr)

lemma cint_of_nat:
  assumes "n < 2147483648"
  shows "scast (ucast (of_nat n :: uint64) :: cint) = (of_nat n :: uint64)"
proof -
  have "signed_take_bit 31 (int n) = int n"
    by (rule signed_take_bit_int_eq_self) (use assms in auto)
  moreover have "unat (of_nat n :: uint64) = n" using assms by (intro unat_of_nat64) simp
  then have "ucast (of_nat n :: uint64) = (of_nat n :: cint)"
    using of_nat_unat [of "of_nat n :: uint64", where ?'a = cint] by simp
  ultimately show ?thesis by (simp add: signed_of_nat)
qed

lemma int_npages:
  assumes "b \<le> a" and "a \<le> NVP"
  shows "scast (ucast ((pgaddr a - pgaddr b) div PGSIZE) :: cint) = (of_nat (a - b) :: uint64)"
proof -
  have le: "pgaddr b \<le> pgaddr a" using assms by (simp add: word_le_nat_alt unat_pgaddr)
  then have "unat ((pgaddr a - pgaddr b) div PGSIZE) = a - b"
    using assms by (simp add: unat_div unat_sub unat_pgaddr diff_mult_distrib2 [symmetric])
  then have d: "(pgaddr a - pgaddr b) div PGSIZE = of_nat (a - b)"
    using assms(2) unat_of_nat64 [of "a - b"] by (simp add: word_unat_eq_iff)
  show ?thesis unfolding d using assms(2) by (intro cint_of_nat) simp
qed

lemma uvmdealloc_spec:
  assumes "vm_ok s F pt" and "newsz \<le> oldsz" and "oldsz \<le> MAXVA"
    and "owned_range s F pt (npages newsz) (npages oldsz - npages newsz)"
  shows "\<exists>s'. uvmdealloc pt oldsz newsz s = Inr (newsz, s') \<and>
    vm_ok s' (F \<union> frames s pt (npages newsz) (npages oldsz - npages newsz)) pt \<and> page_ok s' = page_ok s \<and>
    tree 2 (mem s') pt = tree 2 (mem s) pt \<and>
    same_off (frames s pt (npages newsz) (npages oldsz - npages newsz) \<union> tree 2 (mem s) pt) (mem s) (mem s') \<and>
    vpte s' pt = (\<lambda>j. if npages newsz \<le> j \<and> j < npages oldsz then None else vpte s pt j)"
proof -
  let ?i = "npages newsz" and ?k = "npages oldsz"
  have le: "?i \<le> ?k" "?k \<le> NVP" using npages_mono [OF assms(2)] npages_le [OF assms(3)] by auto
  have up: "PGROUNDUP newsz = pgaddr ?i" "PGROUNDUP oldsz = pgaddr ?k"
    using assms(2,3) by (auto intro: PGROUNDUP_npages order_trans)
  show ?thesis
  proof (cases "?i = ?k")
    case True
    then have "uvmdealloc pt oldsz newsz s = Inr (newsz, s)"
      using assms(2) by (auto simp: uvmdealloc_def up)
    with True assms(1) show ?thesis by (auto simp: frames_def fun_eq_iff)
  next
    case False
    with le have lt: "?i < ?k" by simp
    then have "pgaddr ?i < pgaddr ?k" using le by (simp add: pgaddr_mono)
    moreover have "\<not> oldsz \<le> newsz" using lt npages_mono [of oldsz newsz] by auto
    ultimately have "uvmdealloc pt oldsz newsz s =
        bindR (uvmunmap pt (pgaddr ?i) (of_nat (?k - ?i)) True s) (\<lambda>s1. Inr (newsz, s1))"
      using int_npages [OF le] by (simp add: uvmdealloc_def up Let_def)
    then show ?thesis using uvmunmap_spec [OF assms(1,4)] lt by auto
  qed
qed

subsection \<open>uvmalloc\<close>

lemma vm_outside:
  assumes "vm_ok s F pt" and "free_pages t G" and "same_off U (mem s) (mem t)"
    and "U \<inter> tree 2 (mem s) pt = {}" and "\<And>q. q \<in> U \<Longrightarrow> pg_aligned q" and "G \<inter> tree 2 (mem s) pt = {}"
  shows "vm_ok t G pt" and "vpte t pt = vpte s pt" and "tree 2 (mem t) pt = tree 2 (mem s) pt"
proof -
  have "same_on (tree 2 (mem s) pt) (mem s) (mem t)"
    using assms by (intro same_off_on [OF assms(3,4,5)]) (auto simp: vm_ok_def dest: tree_pages)
  note fr = pt_frame [OF this]
  show "vm_ok t G pt" "vpte t pt = vpte s pt" "tree 2 (mem t) pt = tree 2 (mem s) pt"
    using assms fr by (auto simp: vm_ok_def vpte_def fun_eq_iff)
qed

lemma vm_alloc:
  assumes "vm_ok s F pt" and "F \<noteq> {}"
  shows "\<exists>q t. kalloc s = (q, t) \<and> q \<in> F \<and> q \<noteq> 0 \<and> page_ok s q \<and> free_pages t (F - {q}) \<and>
    page_ok t = page_ok s \<and> same_off {q} (mem s) (mem t)"
proof -
  have F: "free_pages s F" using assms(1) by (simp add: vm_ok_def)
  from km.alloc_page [OF F assms(2)] obtain q t where q: "kalloc s = (q, t)" "q \<in> F"
    "free_pages t (F - {q})" "page_ok t = page_ok s" "\<forall>y. \<not> in_page q y \<longrightarrow> mem t y = mem s y" by blast
  moreover have "page_ok s q" using km.free_usable [OF F q(2)] .
  ultimately show ?thesis by (auto simp: same_off_def page_ok_def)
qed

text \<open>Filling the new page before it is mapped.\<close>

lemma vm_fill:
  assumes ok: "vm_ok s F pt" and q: "q \<in> F" "page_ok s q" "free_pages t (F - {q})" "page_ok t = page_ok s"
    "same_off {q} (mem s) (mem t)" and m: "same_off {q} (mem t) m"
  defines "u \<equiv> t\<lparr>mem := m\<rparr>"
  shows "vm_ok u (F - {q}) pt" and "page_ok u = page_ok s" and "vpte u pt = vpte s pt"
    and "tree 2 (mem u) pt = tree 2 (mem s) pt" and "same_off {q} (mem s) (mem u)"
proof -
  have F: "free_pages s F" "F \<inter> tree 2 (mem s) pt = {}" using ok by (auto simp: vm_ok_def)
  have qa: "pg_aligned q" using q(2) by (simp add: page_ok_def)
  show off: "same_off {q} (mem s) (mem u)" using same_off_trans [OF q(5) m] by (simp add: u_def)
  show "page_ok u = page_ok s" using q(4) km.overwrite_simps(2) [of m t] by (simp add: u_def)
  have "same_on (F - {q}) (mem t) m"
    using m by (rule same_off_on) (use F(1) qa in \<open>auto dest: km.free_usable page_ok_aligned\<close>)
  then have fp: "free_pages u (F - {q})"
    unfolding u_def by (intro km.overwrite_free [OF q(3)]) (auto simp: same_on_def)
  have "{q} \<inter> tree 2 (mem s) pt = {}" "(F - {q}) \<inter> tree 2 (mem s) pt = {}" using F(2) q(1) by auto
  from vm_outside [OF ok fp off this(1) _ this(2)] qa
  show "vm_ok u (F - {q}) pt" "vpte u pt = vpte s pt" "tree 2 (mem u) pt = tree 2 (mem s) pt" by auto
qed

lemma mappages_one:
  assumes "vm_ok s F pt" and "i < NVP" and "vpte s pt i = None"
  shows "(\<exists>s1. mappages pt (pgaddr i) PGSIZE pa perm s = Inr (-1, s1) \<and> grows s F pt F s1 \<and>
      vpte s1 pt = vpte s pt \<and> card F \<le> 2) \<or>
    (\<exists>N s2. mappages pt (pgaddr i) PGSIZE pa perm s = Inr (0, s2) \<and> grows s F pt N s2 \<and>
      vpte s2 pt = (vpte s pt)(i \<mapsto> map_pte pa perm 0) \<and> card N \<le> 2)"
proof -
  have "pgaddr 1 = PGSIZE" by (simp add: pgaddr_def)
  then have "mappages pt (pgaddr i) PGSIZE pa perm s = mappages_loop pt (pgaddr i) (pgaddr i) pa perm s"
    using mappages_pages [of i 1 pt pa perm s] assms(2) by simp
  then show ?thesis using mappages_loop_step [OF assms, of "pgaddr i" pa perm] by simp
qed

text \<open>
  \<open>added s F pt i n N s'\<close>: from s to s' the n pages from page i on were mapped, each to a page taken
  out of the free pages F, while the table itself took the pages N; everything else is as before.
\<close>

definition added :: "pmem \<Rightarrow> uint64 set \<Rightarrow> uint64 \<Rightarrow> nat \<Rightarrow> nat \<Rightarrow> uint64 set \<Rightarrow> pmem \<Rightarrow> bool" where
  "added s F pt i n N s' \<longleftrightarrow> N \<subseteq> F \<and> frames s' pt i n \<subseteq> F - N \<and>
     vm_ok s' (F - N - frames s' pt i n) pt \<and> page_ok s' = page_ok s \<and>
     owned_range s' (F - N - frames s' pt i n) pt i n \<and> tree 2 (mem s') pt = tree 2 (mem s) pt \<union> N \<and>
     same_off (tree 2 (mem s) pt \<union> F) (mem s) (mem s') \<and>
     (\<forall>j. \<not> (i \<le> j \<and> j < i + n) \<longrightarrow> vpte s' pt j = vpte s pt j)"

text \<open>\<open>restored s F pt N s'\<close>: only pages N for the table itself are gone; the mapping is as before.\<close>

definition restored :: "pmem \<Rightarrow> uint64 set \<Rightarrow> uint64 \<Rightarrow> uint64 set \<Rightarrow> pmem \<Rightarrow> bool" where
  "restored s F pt N s' \<longleftrightarrow> N \<subseteq> F \<and> vm_ok s' (F - N) pt \<and> page_ok s' = page_ok s \<and>
     tree 2 (mem s') pt = tree 2 (mem s) pt \<union> N \<and> same_off (tree 2 (mem s) pt \<union> F) (mem s) (mem s') \<and>
     vpte s' pt = vpte s pt"

lemma added_0: "vm_ok s F pt \<Longrightarrow> i \<le> NVP \<Longrightarrow> added s F pt i 0 {} s"
  by (simp add: added_def frames_def owned_range_def)

lemma map_pte_flags:
  assumes "PTE_FLAGS perm = perm"
  shows "PTE_FLAGS (map_pte pa perm 0) = perm OR PTE_V"
proof (rule bit_word_eqI)
  fix n
  have "bit perm n \<Longrightarrow> n < 10"
    using arg_cong [OF assms, of "\<lambda>w. bit w n"] by (simp add: PTE_FLAGS_def bit_and_iff)
  then show "bit (PTE_FLAGS (map_pte pa perm 0)) n = bit (perm OR PTE_V) n"
    by (auto simp: PTE_FLAGS_def map_pte_0 PA2PTE_def bit_and_iff bit_or_iff bit_push_bit_iff bit_1_iff)
qed

lemma map_pte_pa:
  assumes "PTE_FLAGS perm = perm" and "pg_aligned pa"
  shows "PTE2PA (map_pte pa perm 0) = pa"
proof -
  have "PTE_FLAGS (perm OR PTE_V) = perm OR PTE_V"
    using assms(1) by (simp add: PTE_FLAGS_def bit.conj_disj_distrib2)
  then have "perm OR PTE_V \<le> 0x3FF" by (metis PTE_FLAGS_def word_and_le1)
  then show ?thesis unfolding map_pte_0 by (rule PTE2PA_PA2PTE [OF assms(2)])
qed

lemma added_restored:
  assumes ad: "added s F pt i n N t" and none: "\<And>j. i \<le> j \<Longrightarrow> j < i + n \<Longrightarrow> vpte s pt j = None"
    and un: "vm_ok u (F - N - frames t pt i n \<union> frames t pt i n) pt" "page_ok u = page_ok t"
      "tree 2 (mem u) pt = tree 2 (mem t) pt"
      "same_off (frames t pt i n \<union> tree 2 (mem t) pt) (mem t) (mem u)"
      "vpte u pt = (\<lambda>j. if i \<le> j \<and> j < i + n then None else vpte t pt j)"
  shows "restored s F pt N u"
proof -
  have sub: "frames t pt i n \<subseteq> F - N" using ad by (simp add: added_def)
  then have eq: "F - N - frames t pt i n \<union> frames t pt i n = F - N" by auto
  have "same_off (tree 2 (mem s) pt \<union> F) (mem s) (mem u)"
  proof (rule same_off_trans)
    show "same_off (tree 2 (mem s) pt \<union> F) (mem s) (mem t)"
      using ad sub by (auto simp: added_def intro: same_off_mono)
    show "same_off (tree 2 (mem s) pt \<union> F) (mem t) (mem u)"
      using un(4) ad sub by (auto simp: added_def intro!: same_off_mono [OF un(4)])
  qed
  moreover have "vpte u pt = vpte s pt" using un(5) ad none by (auto simp: added_def fun_eq_iff)
  ultimately show ?thesis using ad un eq by (simp add: restored_def added_def)
qed

lemma added_Suc:
  assumes ad: "added s0 F0 pt i0 k N s" and i: "i = i0 + k" "i < NVP"
    and F: "F = F0 - N - frames s pt i0 k" and q: "q \<in> F" "page_ok s q"
    and perm: "PTE_FLAGS perm = perm" "perm OR PTE_V \<noteq> PTE_V"
    and u: "page_ok u = page_ok s" "vpte u pt = vpte s pt" "tree 2 (mem u) pt = tree 2 (mem s) pt"
      "same_off {q} (mem s) (mem u)"
    and gr: "grows u (F - {q}) pt M t" "vpte t pt = (vpte u pt)(i \<mapsto> map_pte q perm 0)"
  shows "added s0 F0 pt i0 (Suc k) (N \<union> M) t" and "frame t pt i = q"
    and "\<And>j. i0 \<le> j \<Longrightarrow> j < i0 + k \<Longrightarrow> frame t pt j = frame s pt j"
    and "same_on {q} (mem u) (mem t)" and "same_on (frames s pt i0 k) (mem s) (mem t)"
    and "F0 - (N \<union> M) - frames t pt i0 (Suc k) = F - {q} - M"
proof -
  have qa: "pg_aligned q" using q(2) by (simp add: page_ok_def)
  note pa = map_pte_pa [OF perm(1) qa]
  show fi: "frame t pt i = q" by (simp add: frame_def gr(2) pa)
  show fj: "frame t pt j = frame s pt j" if "i0 \<le> j" "j < i0 + k" for j
    using that i by (simp add: frame_def gr(2) u(2))
  have "{i0..<i0 + Suc k} = insert i {i0..<i0 + k}" using i by auto
  moreover have "frame t pt ` {i0..<i0 + k} = frames s pt i0 k" unfolding frames_def
    by (rule image_cong) (auto intro: fj)
  ultimately have fr: "frames t pt i0 (Suc k) = insert q (frames s pt i0 k)" by (simp add: frames_def fi)
  have M: "M \<subseteq> F - {q}" "tree 2 (mem t) pt = tree 2 (mem s) pt \<union> M" "page_ok t = page_ok s"
    "vm_ok t (F - {q} - M) pt" "same_off (tree 2 (mem s) pt \<union> M) (mem u) (mem t)"
    using gr(1) u by (auto simp: grows_def)
  have A: "frames s pt i0 k \<inter> F = {}" "frames s pt i0 k \<subseteq> F0 - N" "N \<subseteq> F0" "vm_ok s F pt"
    "owned_range s F pt i0 k" "tree 2 (mem s) pt = tree 2 (mem s0) pt \<union> N"
    using ad F by (auto simp: added_def)
  have dj: "F \<inter> tree 2 (mem s) pt = {}" using A(4) by (simp add: vm_ok_def)
  have Fset: "F0 - (N \<union> M) - insert q (frames s pt i0 k) = F - {q} - M" using F by auto
  then show "F0 - (N \<union> M) - frames t pt i0 (Suc k) = F - {q} - M" by (simp only: fr)
  have "owned_range t (F - {q} - M) pt i0 (Suc k)"
    unfolding owned_range_def
  proof (intro conjI ballI)
    show "i0 + Suc k \<le> NVP" using i by simp
    fix j assume j: "j \<in> {i0..<i0 + Suc k}"
    show "\<exists>v. owned t (F - {q} - M) pt j v"
    proof (cases "j = i")
      case True
      have "owned t (F - {q} - M) pt i (map_pte q perm 0)"
        using q dj M perm pa by (auto simp: owned_def gr(2) map_pte_flags)
      with True show ?thesis by blast
    next
      case False
      then have "i0 \<le> j" "j < i0 + k" using i j by auto
      from owned_rangeD [OF A(5) this] obtain v where "owned s F pt j v" by blast
      then have "owned t (F - {q} - M) pt j v" using M False by (auto simp: owned_def gr(2) u(2))
      then show ?thesis ..
    qed
  next
    have "inj_on (frame t pt) {i0..<i0 + k}"
      using A(5) fj by (auto simp: owned_range_def inj_on_def)
    moreover have "frame t pt i \<notin> frame t pt ` {i0..<i0 + k}"
      using fi A(1) q(1) fr \<open>frame t pt ` {i0..<i0 + k} = frames s pt i0 k\<close> by auto
    ultimately show "inj_on (frame t pt) {i0..<i0 + Suc k}"
      unfolding \<open>{i0..<i0 + Suc k} = insert i {i0..<i0 + k}\<close> by auto
  qed
  moreover have "same_off (tree 2 (mem s0) pt \<union> F0) (mem s0) (mem t)"
  proof (rule same_off_trans)
    show "same_off (tree 2 (mem s0) pt \<union> F0) (mem s0) (mem s)" using ad by (simp add: added_def)
    show "same_off (tree 2 (mem s0) pt \<union> F0) (mem s) (mem t)"
      by (rule same_off_trans [of _ _ "mem u"]; rule same_off_mono [OF u(4)] same_off_mono [OF M(5)])
        (use A M q F in auto)
  qed
  moreover have "vpte t pt j = vpte s0 pt j" if "\<not> (i0 \<le> j \<and> j < i0 + Suc k)" for j
    using that ad i by (auto simp: added_def gr(2) u(2))
  ultimately show "added s0 F0 pt i0 (Suc k) (N \<union> M) t"
    using ad M A q F unfolding added_def fr Fset by (simp add: Fset) auto
  have al: "pg_aligned x" if "x \<in> tree 2 (mem s) pt \<union> M \<union> {q}" for x
    using that vm_ok_aligned [OF A(4)] M(1) q(1) by auto
  have qt: "q \<notin> tree 2 (mem s) pt \<union> M" using q(1) dj M(1) by auto
  show "same_on {q} (mem u) (mem t)" using M(5) qt al by (intro same_off_on [OF M(5)]) auto
  have off: "same_off (tree 2 (mem s) pt \<union> M \<union> {q}) (mem s) (mem t)"
    by (rule same_off_trans [of _ _ "mem u"]; rule same_off_mono [OF u(4)] same_off_mono [OF M(5)]) auto
  show "same_on (frames s pt i0 k) (mem s) (mem t)"
  proof (rule same_off_on [OF off])
    show "(tree 2 (mem s) pt \<union> M \<union> {q}) \<inter> frames s pt i0 k = {}"
    proof -
      have "frame s pt j \<notin> tree 2 (mem s) pt" if "j \<in> {i0..<i0 + k}" for j
        using owned_rangeD [OF A(5), of j] that by (auto simp: owned_def frame_def)
      then show ?thesis using A(1) M(1) q(1) by (auto simp: frames_def)
    qed
    show "pg_aligned x" if "x \<in> frames s pt i0 k" for x
      using that owned_rangeD [OF A(5)] by (auto simp: frames_def owned_def frame_def page_ok_def)
  qed (use al in blast)
qed

text \<open>The failure path: \<open>mappages\<close> used up the free pages, and the page q is given back.\<close>

lemma added_undo:
  assumes ad: "added s0 F0 pt i0 k N s" and F: "F = F0 - N - frames s pt i0 k" and q: "q \<in> F" "page_ok s q"
    and u: "page_ok u = page_ok s" "vpte u pt = vpte s pt" "tree 2 (mem u) pt = tree 2 (mem s) pt"
      "same_off {q} (mem s) (mem u)"
    and gr: "grows u (F - {q}) pt (F - {q}) t" "vpte t pt = vpte u pt"
  shows "\<exists>t'. kfree q t = Inr t' \<and> added s0 F0 pt i0 k (N \<union> (F - {q})) t'"
proof -
  let ?A = "frames s pt i0 k" and ?T = "tree 2 (mem s) pt \<union> (F - {q})"
  have A: "?A \<inter> F = {}" "?A \<subseteq> F0 - N" "N \<subseteq> F0" "vm_ok s F pt" "owned_range s F pt i0 k"
    "tree 2 (mem s) pt = tree 2 (mem s0) pt \<union> N" using ad F by (auto simp: added_def)
  have t: "vm_ok t {} pt" "page_ok t = page_ok s" "tree 2 (mem t) pt = ?T" "same_off ?T (mem u) (mem t)"
    using gr u by (auto simp: grows_def)
  have qT: "q \<notin> ?T" using q(1) A(4) by (auto simp: vm_ok_def)
  have "free_pages t {}" "page_ok t q" using t q by (auto simp: vm_ok_def)
  from km.dealloc_page [OF this] obtain t' where t': "kfree q t = Inr t'" "free_pages t' {q}"
    "page_ok t' = page_ok t" "\<forall>y. \<not> in_page q y \<longrightarrow> mem t' y = mem t y" by auto
  have off: "same_off {q} (mem t) (mem t')" using t'(4) by (simp add: same_off_def)
  have "{q} \<inter> tree 2 (mem t) pt = {}" using qT t(3) by simp
  note v = vm_outside [OF t(1) t'(2) off this _ this]
  have v: "vm_ok t' {q} pt" "vpte t' pt = vpte s pt" "tree 2 (mem t') pt = ?T"
    using v q(2) gr(2) u(2) t(3) by (auto simp: page_ok_def)
  have fr: "frames t' pt i0 k = ?A" by (simp add: frames_def frame_def v(2) cong: image_cong)
  have eq: "F0 - (N \<union> (F - {q})) - ?A = {q}" using F q(1) by auto
  have "owned_range t' {q} pt i0 k"
    using A(5) A(1) q(1) v t(2) t'(3)
    by (fastforce simp: owned_range_def owned_def frame_def inj_on_def)
  moreover have "same_off (tree 2 (mem s0) pt \<union> F0) (mem s0) (mem t')"
  proof (rule same_off_trans)
    show "same_off (tree 2 (mem s0) pt \<union> F0) (mem s0) (mem s)" using ad by (simp add: added_def)
    have "same_off (?T \<union> {q}) (mem s) (mem t')"
      by (rule same_off_trans [of _ _ "mem u"], rule same_off_mono [OF u(4)], simp,
          rule same_off_trans [of _ _ "mem t"]; rule same_off_mono [OF t(4)] same_off_mono [OF off]) auto
    then show "same_off (tree 2 (mem s0) pt \<union> F0) (mem s) (mem t')"
      by (rule same_off_mono) (use A F q(1) in auto)
  qed
  ultimately show ?thesis
    using t' v fr eq A ad t(2) F unfolding added_def by (intro exI [of _ t']) (simp add: fr eq, blast)
qed

lemma added_dealloc:
  assumes "added s0 F0 pt i0 k N s" and "i0 + k \<le> NVP"
    and "\<And>j. i0 \<le> j \<Longrightarrow> j < i0 + k \<Longrightarrow> vpte s0 pt j = None"
  shows "\<exists>s'. uvmdealloc pt (pgaddr (i0 + k)) (pgaddr i0) s = Inr (pgaddr i0, s') \<and> restored s0 F0 pt N s'"
proof -
  have "vm_ok s (F0 - N - frames s pt i0 k) pt" "owned_range s (F0 - N - frames s pt i0 k) pt i0 k"
    using assms(1) by (auto simp: added_def)
  moreover have "pgaddr i0 \<le> pgaddr (i0 + k)" using assms(2) by (simp add: word_le_nat_alt unat_pgaddr)
  ultimately show ?thesis
    using uvmdealloc_spec [of s "F0 - N - frames s pt i0 k" pt "pgaddr i0" "pgaddr (i0 + k)"] assms(2)
      added_restored [OF assms(1,3)] pgaddr_le_MAXVA [OF assms(2)] by fastforce
qed

definition zeroed :: "pmem \<Rightarrow> uint64 \<Rightarrow> nat \<Rightarrow> nat \<Rightarrow> uint64 \<Rightarrow> bool" where
  "zeroed s pt i n perm \<longleftrightarrow> (\<forall>j. i \<le> j \<and> j < i + n \<longrightarrow>
     vpte s pt j = Some (map_pte (frame s pt j) perm 0) \<and> (\<forall>y. in_page (frame s pt j) y \<longrightarrow> mem s y = 0))"

lemma zeroed_Suc:
  assumes "zeroed s pt i0 k perm" and t: "vpte t pt = (vpte u pt)(i0 + k \<mapsto> map_pte q perm 0)" "vpte u pt = vpte s pt"
    and fr: "frame t pt (i0 + k) = q" "\<And>j. i0 \<le> j \<Longrightarrow> j < i0 + k \<Longrightarrow> frame t pt j = frame s pt j"
    and on: "same_on {q} (mem u) (mem t)" "same_on (frames s pt i0 k) (mem s) (mem t)"
    and z: "\<And>y. in_page q y \<Longrightarrow> mem u y = 0"
  shows "zeroed t pt i0 (Suc k) perm"
  unfolding zeroed_def
proof (intro allI impI)
  fix j assume j: "i0 \<le> j \<and> j < i0 + Suc k"
  show "vpte t pt j = Some (map_pte (frame t pt j) perm 0) \<and> (\<forall>y. in_page (frame t pt j) y \<longrightarrow> mem t y = 0)"
  proof (cases "j = i0 + k")
    case True
    then show ?thesis using t fr(1) on(1) z by (simp add: same_on_def)
  next
    case False
    with j have jk: "i0 \<le> j" "j < i0 + k" by auto
    then have "frame s pt j \<in> frames s pt i0 k" by (simp add: frames_def)
    then show ?thesis using assms(1) t fr(2) [OF jk] on(2) jk False by (simp add: zeroed_def same_on_def)
  qed
qed

lemma card_Diff_two:
  assumes "finite F" and "q \<in> F" and "M \<subseteq> F - {q}" and "card M \<le> 2"
  shows "card F \<le> 3 + card (F - {q} - M)"
proof -
  have "card (F - {q} - M) = card F - 1 - card M"
    using assms by (simp add: card_Diff_subset finite_subset)
  then show ?thesis using assms(4) by simp
qed

lemma uvmalloc_loop_spec:
  assumes "added s0 F0 pt i0 k N s" and "zeroed s pt i0 k perm" and "i0 + k \<le> npages newsz" and "newsz \<le> MAXVA"
    and "perm = PTE_R OR PTE_U OR xperm" "PTE_FLAGS perm = perm" "perm OR PTE_V \<noteq> PTE_V"
    and "\<And>j. i0 \<le> j \<Longrightarrow> j < npages newsz \<Longrightarrow> vpte s0 pt j = None"
  shows "\<exists>r s' N'. uvmalloc_loop pt (pgaddr (i0 + k)) (pgaddr i0) newsz xperm s = Inr (r, s') \<and>
    (r = newsz \<and> added s0 F0 pt i0 (npages newsz - i0) N' s' \<and> zeroed s' pt i0 (npages newsz - i0) perm \<or>
     r = 0 \<and> restored s0 F0 pt N' s' \<and> card (F0 - N - frames s pt i0 k) \<le> 3 * (npages newsz - (i0 + k)))"
  using assms
proof (induction "npages newsz - (i0 + k)" arbitrary: k N s)
  case 0
  then have k: "k = npages newsz - i0" by simp
  have "\<not> pgaddr (i0 + k) < newsz"
    using 0 npages_le [of newsz] by (subst pgaddr_less_sz) auto
  then have "uvmalloc_loop pt (pgaddr (i0 + k)) (pgaddr i0) newsz xperm s = Inr (newsz, s)"
    by (subst uvmalloc_loop.simps) simp
  then show ?case using 0(2,3) k by blast
next
  case (Suc d)
  let ?i = "i0 + k" and ?F = "F0 - N - frames s pt i0 k"
  have le: "?i < npages newsz" "?i < NVP" "npages newsz \<le> NVP" using Suc npages_le [of newsz] by auto
  then have lt: "pgaddr ?i < newsz" using Suc.prems(4) by (subst pgaddr_less_sz) auto
  have none: "vpte s pt ?i = None" using Suc.prems(1) Suc.prems(8) [of ?i] le by (simp add: added_def)
  have none0: "vpte s0 pt j = None" if "i0 \<le> j" "j < i0 + k" for j using Suc.prems(8) [of j] that le by simp
  have ok: "vm_ok s ?F pt" using Suc.prems(1) by (simp add: added_def)
  have fin: "finite ?F" using ok by (auto simp: vm_ok_def dest: free_pages_finite)
  show ?case
  proof (cases "?F = {}")
    case True
    have "kalloc s = (0, s)" using ok unfolding True vm_ok_def by (blast intro: km.alloc_empty)
    moreover obtain s' where "uvmdealloc pt (pgaddr ?i) (pgaddr i0) s = Inr (pgaddr i0, s')" "restored s0 F0 pt N s'"
      using added_dealloc [OF Suc.prems(1) _ none0] le by auto
    moreover have "card ?F \<le> 3 * (npages newsz - ?i)" by (simp only: True card.empty)
    ultimately show ?thesis using lt
      by (subst uvmalloc_loop.simps) (auto intro!: exI [of _ s'] exI [of _ N])
  next
    case False
    from vm_alloc [OF ok False] obtain q t where q: "kalloc s = (q, t)" "q \<in> ?F" "q \<noteq> 0" "page_ok s q"
      "free_pages t (?F - {q})" "page_ok t = page_ok s" "same_off {q} (mem s) (mem t)" by blast
    define u where "u = t\<lparr>mem := memset (mem t) q 0 4096\<rparr>"
    have "same_off {q} (mem t) (memset (mem t) q 0 4096)" by (simp add: same_off_def memset_page)
    note u = vm_fill [OF ok q(2,4-7) this, folded u_def]
    have "vpte u pt ?i = None" using none u(3) by simp
    from mappages_one [OF u(1) le(2) this, of q perm] consider
      (fail) s1 where "mappages pt (pgaddr ?i) PGSIZE q perm u = Inr (-1, s1)"
        "grows u (?F - {q}) pt (?F - {q}) s1" "vpte s1 pt = vpte u pt" "card (?F - {q}) \<le> 2"
    | (ok) M s2 where "mappages pt (pgaddr ?i) PGSIZE q perm u = Inr (0, s2)" "grows u (?F - {q}) pt M s2"
        "vpte s2 pt = (vpte u pt)(?i \<mapsto> map_pte q perm 0)" "card M \<le> 2" by blast
    then show ?thesis
    proof cases
      case fail
      from added_undo [OF Suc.prems(1) refl q(2,4) u(2-5) fail(2,3)] obtain s3 where
        s3: "kfree q s1 = Inr s3" "added s0 F0 pt i0 k (N \<union> (?F - {q})) s3" by blast
      from added_dealloc [OF s3(2) _ none0] le obtain s' where
        "uvmdealloc pt (pgaddr ?i) (pgaddr i0) s3 = Inr (pgaddr i0, s')" "restored s0 F0 pt (N \<union> (?F - {q})) s'" by auto
      moreover have "card ?F \<le> 3 * (npages newsz - ?i)"
        using fail(4) card_Diff_singleton [OF q(2)] le(1) by simp
      ultimately show ?thesis using lt q s3(1) fail(1) Suc.prems(5)
        by (subst uvmalloc_loop.simps) (auto simp: u_def)
    next
      case ok
      note A = added_Suc [OF Suc.prems(1) refl le(2) refl q(2,4) Suc.prems(6,7) u(2-5) ok(2,3)]
      have "zeroed s2 pt i0 (Suc k) perm"
        using Suc.prems(2) ok(3) u(3) A(2-5) by (rule zeroed_Suc) (simp_all add: u_def memset_page)
      moreover have "d = npages newsz - (i0 + Suc k)" "i0 + Suc k \<le> npages newsz" using Suc(2) by auto
      ultimately have "\<exists>r s' N'. uvmalloc_loop pt (pgaddr (i0 + Suc k)) (pgaddr i0) newsz xperm s2 = Inr (r, s') \<and>
        (r = newsz \<and> added s0 F0 pt i0 (npages newsz - i0) N' s' \<and> zeroed s' pt i0 (npages newsz - i0) perm \<or>
         r = 0 \<and> restored s0 F0 pt N' s' \<and> card (F0 - (N \<union> M) - frames s2 pt i0 (Suc k)) \<le> 3 * (npages newsz - (i0 + Suc k)))"
        by (intro Suc.hyps(1) A(1)) (use Suc.prems in auto)
      moreover have "uvmalloc_loop pt (pgaddr ?i) (pgaddr i0) newsz xperm s =
          uvmalloc_loop pt (pgaddr (i0 + Suc k)) (pgaddr i0) newsz xperm s2"
        using lt q ok(1) Suc.prems(5) by (subst uvmalloc_loop.simps) (simp add: u_def pgaddr_Suc)
      moreover have "card ?F \<le> 3 + card (F0 - (N \<union> M) - frames s2 pt i0 (Suc k))"
        unfolding A(6) by (rule card_Diff_two) (use fin q(2) ok(2,4) in \<open>auto simp: grows_def\<close>)
      ultimately show ?thesis using le(1) by fastforce
    qed
  qed
qed

lemma uvmalloc_perm:
  assumes "PTE_FLAGS xperm = xperm"
  shows "PTE_FLAGS (PTE_R OR PTE_U OR xperm) = PTE_R OR PTE_U OR xperm"
    and "(PTE_R OR PTE_U OR xperm) OR PTE_V \<noteq> PTE_V"
proof -
  show "PTE_FLAGS (PTE_R OR PTE_U OR xperm) = PTE_R OR PTE_U OR xperm"
    using assms by (simp add: PTE_FLAGS_def bit.conj_disj_distrib2)
  have "bit ((PTE_R OR PTE_U OR xperm) OR PTE_V) 4" "\<not> bit PTE_V 4" by (simp_all add: bit_or_iff bit_1_iff)
  then show "(PTE_R OR PTE_U OR xperm) OR PTE_V \<noteq> PTE_V" by metis
qed

lemma uvmalloc_spec:
  assumes "vm_ok s F pt" and "oldsz \<le> newsz" and "newsz \<le> MAXVA" and "PTE_FLAGS xperm = xperm"
    and "\<And>j. npages oldsz \<le> j \<Longrightarrow> j < npages newsz \<Longrightarrow> vpte s pt j = None"
  defines "n \<equiv> npages newsz - npages oldsz"
  shows "\<exists>r s' N. uvmalloc pt oldsz newsz xperm s = Inr (r, s') \<and>
    (r = newsz \<and> added s F pt (npages oldsz) n N s' \<and> zeroed s' pt (npages oldsz) n (PTE_R OR PTE_U OR xperm) \<or>
     r = 0 \<and> restored s F pt N s' \<and> card F \<le> 3 * n)"
proof -
  let ?i = "npages oldsz"
  have le: "?i \<le> npages newsz" "?i \<le> NVP" using npages_mono [OF assms(2)] npages_le [OF assms(3)] by auto
  have up: "PGROUNDUP oldsz = pgaddr ?i" using assms(2,3) by (auto intro: PGROUNDUP_npages order_trans)
  have "zeroed s pt ?i 0 (PTE_R OR PTE_U OR xperm)" by (auto simp: zeroed_def)
  from uvmalloc_loop_spec [OF added_0 [OF assms(1) le(2)] this _ assms(3) refl uvmalloc_perm [OF assms(4)] assms(5)] le(1)
  have "\<exists>r s' N'. uvmalloc_loop pt (pgaddr ?i) (pgaddr ?i) newsz xperm s = Inr (r, s') \<and>
    (r = newsz \<and> added s F pt ?i n N' s' \<and> zeroed s' pt ?i n (PTE_R OR PTE_U OR xperm) \<or>
     r = 0 \<and> restored s F pt N' s' \<and> card F \<le> 3 * n)"
    by (simp add: n_def frames_def)
  moreover have "\<not> newsz < oldsz" using assms(2) by simp
  ultimately show ?thesis by (simp add: uvmalloc_def up)
qed

end
