(* ===== verification/Uspace.thy ===== *)
theory Uspace
  imports Uvm
begin

section \<open>The life of a user address space\<close>

text \<open>
  \<open>freewalk\<close> and \<open>uvmfree\<close> give every page of a table back, \<open>uvmcopy\<close> makes a child's copy, and
  \<open>copyout\<close> and \<open>copyin\<close> move bytes through the translation. The properties of kernel/vm.c close
  the theory.
\<close>

subsection \<open>freewalk\<close>

fun leafless :: "nat \<Rightarrow> memory \<Rightarrow> uint64 \<Rightarrow> bool" where
  "leafless 0 m p \<longleftrightarrow> (\<forall>i<512. \<not> valid (ent m p i))"
| "leafless (Suc l) m p \<longleftrightarrow> (\<forall>i<512. valid (ent m p i) \<longrightarrow> leafless l m (PTE2PA (ent m p i)))"

lemma leafless_frame: "same_on (tree l m p) m m' \<Longrightarrow> leafless l m' p = leafless l m p"
proof (induction l arbitrary: p)
  case 0
  then show ?case by (simp add: ent_frame)
next
  case (Suc l)
  have e: "ent m' p i = ent m p i" if "i < 512" for i
    using Suc.prems that by (intro ent_frame) (auto intro: same_on_subset)
  have "leafless l m' (PTE2PA (ent m p i)) = leafless l m (PTE2PA (ent m p i))"
    if "i < 512" "valid (ent m p i)" for i
    using Suc.IH same_on_subset [OF Suc.prems] sub_subset [OF that(1), of l m p] that(2) by (simp add: sub_def)
  with e show ?case by auto
qed

lemma foldR_Nil_bind: "bindR r (foldR f []) = r"
  by (cases r) auto

text \<open>The body of the loop of \<open>freewalk\<close>.\<close>

definition freewalk_entry :: "nat \<Rightarrow> uint64 \<Rightarrow> nat \<Rightarrow> pmem \<Rightarrow> pmem res" where
  "freewalk_entry d pt i s =
     (let pte = ent (mem s) pt (of_nat i)
      in if valid pte \<and> pte AND (PTE_R OR PTE_W OR PTE_X) = 0
         then bindR (freewalk d (PTE2PA pte) s) (\<lambda>s1. Inr (s1\<lparr>mem := store64 (mem s1) (entry pt (of_nat i)) 0\<rparr>))
         else if valid pte then panic ''freewalk: leaf'' else Inr s)"

lemma freewalk_Suc: "freewalk (Suc d) pt s = bindR (foldR (freewalk_entry d pt) [0..<512] s) (kfree pt)"
proof -
  have "freewalk_entry d pt = (\<lambda>i s.
         let pte = load64 (mem s) (entry pt (of_nat i))
         in if pte AND PTE_V \<noteq> 0 \<and> pte AND (PTE_R OR PTE_W OR PTE_X) = 0
            then bindR (freewalk d (PTE2PA pte) s) (\<lambda>s1.
              Inr (s1\<lparr>mem := store64 (mem s1) (entry pt (of_nat i)) 0\<rparr>))
            else if pte AND PTE_V \<noteq> 0 then panic ''freewalk: leaf''
            else Inr s)"
    by (simp add: freewalk_entry_def ent_def fun_eq_iff)
  then show ?thesis by simp
qed

declare freewalk.simps [simp del]

lemma of_nat_512: "i < 512 \<Longrightarrow> (of_nat i :: uint64) < 512"
  by (simp add: word_less_nat_alt unat_of_nat64)

lemma of_nat_512_inj: "i < 512 \<Longrightarrow> j < 512 \<Longrightarrow> (of_nat i :: uint64) = of_nat j \<longleftrightarrow> i = j"
  by (auto simp: word_unat_eq_iff unat_of_nat64)

definition freed :: "pmem \<Rightarrow> uint64 set \<Rightarrow> uint64 set \<Rightarrow> pmem \<Rightarrow> bool" where
  "freed s F T s' \<longleftrightarrow> free_pages s' (F \<union> T) \<and> page_ok s' = page_ok s \<and> same_off T (mem s) (mem s')"

definition subs :: "nat \<Rightarrow> memory \<Rightarrow> uint64 \<Rightarrow> nat \<Rightarrow> uint64 set" where
  "subs l m p k = (\<Union>i<k. sub l m p (of_nat i))"

lemma subs_Suc: "subs l m p (Suc k) = subs l m p k \<union> sub l m p (of_nat k)"
  by (auto simp: subs_def lessThan_Suc)

lemma tree_subs: "tree (Suc l) m p = insert p (subs l m p 512)"
proof -
  have "\<exists>k<512. i = of_nat k" if "i < 512" for i :: uint64
    using that by (intro exI [of _ "unat i"]) (simp add: word_less_nat_alt)
  then show ?thesis unfolding tree_Suc subs_def by (auto dest: of_nat_512)
qed

lemma root_subs: "wf_pt (Suc l) m p \<Longrightarrow> k \<le> 512 \<Longrightarrow> p \<notin> subs l m p k"
  by (auto simp: subs_def of_nat_512)

lemma subs_disjoint:
  assumes "wf_pt (Suc l) m p" and "k < 512"
  shows "subs l m p k \<inter> sub l m p (of_nat k) = {}" and "p \<notin> sub l m p (of_nat k)"
    and "sub l m p (of_nat k) \<subseteq> tree (Suc l) m p"
proof -
  show "subs l m p k \<inter> sub l m p (of_nat k) = {}"
  proof -
    have "sub l m p (of_nat i) \<inter> sub l m p (of_nat k) = {}" if "i < k" for i
      using assms of_nat_512 [of i] of_nat_512 [OF assms(2)] of_nat_512_inj [of i k] that by simp
    then show ?thesis by (auto simp: subs_def)
  qed
  show "p \<notin> sub l m p (of_nat k)" using assms of_nat_512 by simp
  show "sub l m p (of_nat k) \<subseteq> tree (Suc l) m p" using sub_subset [OF of_nat_512 [OF assms(2)]] .
qed

definition freewalk_pre :: "nat \<Rightarrow> uint64 \<Rightarrow> uint64 set \<Rightarrow> pmem \<Rightarrow> bool" where
  "freewalk_pre l p F s \<longleftrightarrow> wf_pt l (mem s) p \<and> leafless l (mem s) p \<and> free_pages s F \<and>
     F \<inter> tree l (mem s) p = {} \<and> (\<forall>q\<in>tree l (mem s) p. page_ok s q)"

lemma freewalk_fold:
  assumes IH: "\<And>s p F. freewalk_pre l p F s \<Longrightarrow> \<exists>s'. freewalk (Suc l) p s = Inr s' \<and> freed s F (tree l (mem s) p) s'"
    and pre: "freewalk_pre (Suc l) p F s" and "k \<le> 512"
  shows "\<exists>t. foldR (freewalk_entry (Suc l) p) [0..<k] s = Inr t \<and> free_pages t (F \<union> subs l (mem s) p k) \<and>
    page_ok t = page_ok s \<and> same_off (insert p (subs l (mem s) p k)) (mem s) (mem t) \<and>
    (\<forall>i. k \<le> i \<and> i < 512 \<longrightarrow> ent (mem t) p (of_nat i) = ent (mem s) p (of_nat i))"
  using \<open>k \<le> 512\<close>
proof (induction k)
  case 0
  then show ?case using pre by (simp add: freewalk_pre_def subs_def)
next
  case (Suc k)
  let ?m = "mem s" and ?S = "subs l (mem s) p k" and ?C = "sub l (mem s) p (of_nat k)"
  from pre have wf: "wf_pt (Suc l) ?m p" and lf: "leafless (Suc l) ?m p"
    and dj: "F \<inter> tree (Suc l) ?m p = {}" and ok: "\<forall>q\<in>tree (Suc l) ?m p. page_ok s q"
    by (auto simp: freewalk_pre_def)
  have k: "k < 512" "(of_nat k :: uint64) < 512" using Suc.prems of_nat_512 by auto
  from Suc obtain t where t: "foldR (freewalk_entry (Suc l) p) [0..<k] s = Inr t"
    "free_pages t (F \<union> ?S)" "page_ok t = page_ok s" "same_off (insert p ?S) ?m (mem t)"
    "\<forall>i. k \<le> i \<and> i < 512 \<longrightarrow> ent (mem t) p (of_nat i) = ent ?m p (of_nat i)" by auto
  have go: "foldR (freewalk_entry (Suc l) p) [0..<Suc k] s = freewalk_entry (Suc l) p k t"
    by (simp add: foldR_append t(1) foldR_Nil_bind)
  note D = subs_disjoint [OF wf k(1)]
  have St: "insert p ?S \<subseteq> tree (Suc l) ?m p" using k by (auto simp: tree_subs subs_def)
  have e: "ent (mem t) p (of_nat k) = ent ?m p (of_nat k)" using t(5) k by simp
  show ?case
  proof (cases "valid (ent ?m p (of_nat k))")
    case False
    then have "freewalk_entry (Suc l) p k t = Inr t" by (simp add: freewalk_entry_def e)
    moreover have "subs l ?m p (Suc k) = ?S" using False by (simp add: subs_Suc sub_def)
    ultimately show ?thesis using t go by auto
  next
    case True
    define c where "c = PTE2PA (ent ?m p (of_nat k))"
    have C: "?C = tree l ?m c" using True by (simp add: sub_def c_def)
    have wc: "wf_pt l ?m c" "leafless l ?m c" "ent ?m p (of_nat k) AND (PTE_R OR PTE_W OR PTE_X) = 0"
      using wf lf True k(2) by (auto simp: c_def)
    have al: "pg_aligned q" if "q \<in> tree (Suc l) ?m p" for q using tree_pages [OF wf that] by blast
    have on: "same_on (tree l ?m c) ?m (mem t)"
      by (rule same_off_on [OF t(4)]) (use D C St al in auto)
    note fr = pt_frame [OF on] leafless_frame [OF on]
    have "freewalk_pre l c (F \<union> ?S) t"
      using wc t(2,3) fr dj D C ok unfolding freewalk_pre_def by auto
    from IH [OF this] obtain u where u: "freewalk (Suc l) c t = Inr u" "freed t (F \<union> ?S) ?C u"
      by (auto simp: fr C)
    define v where "v = u\<lparr>mem := store64 (mem u) (entry p (of_nat k)) 0\<rparr>"
    have "freewalk_entry (Suc l) p k t = Inr v"
      using True wc(3) u(1) by (simp add: freewalk_entry_def e c_def v_def Let_def)
    moreover have "free_pages v (F \<union> subs l ?m p (Suc k))"
      unfolding v_def
    proof (rule km.overwrite_free)
      show fp: "free_pages u (F \<union> subs l ?m p (Suc k))" using u(2) by (simp add: freed_def subs_Suc Un_assoc)
      fix y assume "\<exists>x\<in>F \<union> subs l ?m p (Suc k). in_page x y"
      then obtain x where x: "x \<in> F \<union> subs l ?m p (Suc k)" "in_page x y" by blast
      have "x \<noteq> p" using x(1) dj root_subs [OF wf, of "Suc k"] k by auto
      moreover have "pg_aligned x" using km.free_usable [OF fp x(1)] by (rule page_ok_aligned)
      ultimately have "\<not> in_page p y" using in_page_unique [of x p y] x(2) wf_root [OF wf] by blast
      then show "store64 (mem u) (entry p (of_nat k)) 0 y = mem u y" using k by (intro store64_entry_in_page)
    qed
    moreover have "page_ok v = page_ok s" using u(2) t(3) km.overwrite_simps(2) by (simp add: v_def freed_def)
    moreover have "same_off (insert p (subs l ?m p (Suc k))) ?m (mem v)"
    proof (rule same_off_trans)
      show "same_off (insert p (subs l ?m p (Suc k))) ?m (mem t)" using t(4) by (auto simp: subs_Suc intro: same_off_mono)
      have "same_off (insert p (subs l ?m p (Suc k))) (mem t) (mem u)"
        using u(2) by (auto simp: freed_def subs_Suc intro: same_off_mono)
      then show "same_off (insert p (subs l ?m p (Suc k))) (mem t) (mem v)"
        using k by (auto simp: same_off_def v_def store64_entry_in_page)
    qed
    moreover have "ent (mem v) p (of_nat i) = ent ?m p (of_nat i)" if "Suc k \<le> i" "i < 512" for i
    proof -
      have i: "(of_nat i :: uint64) < 512" "(of_nat i :: uint64) \<noteq> of_nat k"
        using that of_nat_512 of_nat_512_inj [of i k] by auto
      have "same_off ?C (mem t) (mem u)" using u(2) by (simp add: freed_def)
      then have "same_on {p} (mem t) (mem u)"
        by (rule same_off_on) (use D al wf_root [OF wf] in auto)
      then have "ent (mem u) p (of_nat i) = ent (mem t) p (of_nat i)" using i(1) by (rule ent_frame)
      then show ?thesis using that t(5) i k by (simp add: v_def ent_def load64_store64_entry)
    qed
    ultimately show ?thesis using go by auto
  qed
qed

lemma freewalk_spec:
  assumes "freewalk_pre l p F s"
  shows "\<exists>s'. freewalk (Suc l) p s = Inr s' \<and> freed s F (tree l (mem s) p) s'"
  using assms
proof (induction l arbitrary: s p F)
  case 0
  have "freewalk_entry 0 p i s = Inr s" if "i < 512" for i
    using 0 of_nat_512 [OF that] by (simp add: freewalk_pre_def freewalk_entry_def)
  then have "foldR (freewalk_entry 0 p) [0..<k] s = Inr s" if "k \<le> 512" for k
    using that by (induction k) (simp_all add: foldR_append)
  then have "freewalk (Suc 0) p s = kfree p s" by (simp only: freewalk_Suc bindR_simps order_refl)
  moreover have "free_pages s F" "page_ok s p" "p \<notin> F" using 0 by (auto simp: freewalk_pre_def)
  from km.dealloc_page [OF this] obtain t where "kfree p s = Inr t" "freed s F {p} t"
    by (auto simp: freed_def same_off_def)
  ultimately show ?case by auto
next
  case (Suc l)
  from freewalk_fold [OF Suc.IH Suc.prems, of 512] obtain t where t:
    "foldR (freewalk_entry (Suc l) p) [0..<512] s = Inr t" "free_pages t (F \<union> subs l (mem s) p 512)"
    "page_ok t = page_ok s" "same_off (tree (Suc l) (mem s) p) (mem s) (mem t)"
    by (auto simp: tree_subs)
  have pre: "wf_pt (Suc l) (mem s) p" "F \<inter> tree (Suc l) (mem s) p = {}" "page_ok s p"
    using Suc.prems by (auto simp: freewalk_pre_def)
  have "p \<notin> F \<union> subs l (mem s) p 512" using pre root_subs [OF pre(1), of 512] by (auto simp: tree_subs)
  from km.dealloc_page [OF t(2) _ this] pre(3) t(3) obtain u where u: "kfree p t = Inr u"
    "free_pages u (insert p (F \<union> subs l (mem s) p 512))" "page_ok u = page_ok t"
    "\<forall>y. \<not> in_page p y \<longrightarrow> mem u y = mem t y" by auto
  have "same_off (tree (Suc l) (mem s) p) (mem t) (mem u)" using u(4) by (auto simp: same_off_def)
  with t(4) have "same_off (tree (Suc l) (mem s) p) (mem s) (mem u)" by (rule same_off_trans)
  moreover have "insert p (F \<union> subs l (mem s) p 512) = F \<union> tree (Suc l) (mem s) p" by (auto simp: tree_subs)
  ultimately have "freed s F (tree (Suc l) (mem s) p) u" using u(2,3) t(3) by (simp add: freed_def)
  then show ?case using t(1) u(1) by (simp only: freewalk_Suc [of "Suc l"] bindR_simps) blast
qed

subsection \<open>Address spaces\<close>

text \<open>
  \<open>uspace s F pt sz K\<close>: pt is the table of a process of size sz. Its pages 0 up to sz are mapped
  to pages of its own; above sz there are only the entries K (trampoline and trapframe).
\<close>

definition uspace :: "pmem \<Rightarrow> uint64 set \<Rightarrow> uint64 \<Rightarrow> uint64 \<Rightarrow> (nat \<Rightarrow> uint64 option) \<Rightarrow> bool" where
  "uspace s F pt sz K \<longleftrightarrow> vm_ok s F pt \<and> (\<forall>q\<in>tree 2 (mem s) pt. page_ok s q) \<and> sz \<le> MAXVA \<and>
     owned_range s F pt 0 (npages sz) \<and> (\<forall>j\<ge>npages sz. vpte s pt j = K j)"

lemma pgaddr_of_PX:
  assumes "i2 < 512" "i1 < 512" "i0 < 512"
  shows "\<exists>i<2 * NVP. PX 2 (pgaddr i) = i2 \<and> PX 1 (pgaddr i) = i1 \<and> PX 0 (pgaddr i) = i0"
proof -
  define h where "h = unat i2 * 512 + unat i1"
  define i where "i = h * 512 + unat i0"
  have b: "unat i2 < 512" "unat i1 < 512" "unat i0 < 512" using assms by (simp_all add: word_less_nat_alt)
  then have i: "i < 2 * NVP" by (simp add: i_def h_def)
  have "h div 512 = unat i2" "h mod 512 = unat i1" using b by (simp_all add: h_def)
  moreover have "i div 512 = h" "i mod 512 = unat i0" using b by (simp_all add: i_def)
  ultimately have "i div 512 ^ 2 mod 512 = unat i2" "i div 512 ^ 1 mod 512 = unat i1" "i div 512 ^ 0 mod 512 = unat i0"
    using b by (simp_all add: power2_eq_square div_mult2_eq)
  then show ?thesis using i
    by (intro exI [of _ i]) (simp add: word_unat_eq_iff [where ?'a = 64] unat_PX unat_pgaddr)
qed

lemma leafless_vpte:
  assumes "\<And>j. vpte s pt j = None"
  shows "leafless 2 (mem s) pt"
proof -
  have "\<not> valid (ent (mem s) (PTE2PA (ent (mem s) (PTE2PA (ent (mem s) pt i2)) i1)) i0)"
    if v: "i2 < 512" "valid (ent (mem s) pt i2)" "i1 < 512" "valid (ent (mem s) (PTE2PA (ent (mem s) pt i2)) i1)" "i0 < 512"
    for i2 i1 i0
  proof -
    from pgaddr_of_PX [OF v(1,3,5)] obtain i where i: "i < 2 * NVP" "PX 2 (pgaddr i) = i2" "PX 1 (pgaddr i) = i1"
      "PX 0 (pgaddr i) = i0" by blast
    have "pmap (Suc (Suc 0)) (mem s) pt (pgaddr i) = None"
      using assms [of i] i(1) by (simp add: vpte_def numeral_2_eq_2)
    then show ?thesis using v i(2-4) by (simp add: Let_def numeral_2_eq_2 split: if_splits)
  qed
  then show ?thesis by (simp add: numeral_2_eq_2)
qed

lemma npages_word: "sz \<le> MAXVA \<Longrightarrow> PGROUNDUP sz div PGSIZE = of_nat (npages sz)"
  using npages_le [of sz] unat_of_nat64 [of "npages sz"]
  by (simp add: PGROUNDUP_npages word_unat_eq_iff unat_div unat_pgaddr)

lemma uvmfree_spec:
  assumes "uspace s F pt sz (\<lambda>_. None)"
  shows "\<exists>s'. uvmfree pt sz s = Inr s' \<and> freed s F (frames s pt 0 (npages sz) \<union> tree 2 (mem s) pt) s'"
proof -
  from assms have ok: "vm_ok s F pt" "\<forall>q\<in>tree 2 (mem s) pt. page_ok s q" "sz \<le> MAXVA"
    "owned_range s F pt 0 (npages sz)" "\<forall>j\<ge>npages sz. vpte s pt j = None" by (auto simp: uspace_def)
  let ?A = "frames s pt 0 (npages sz)" and ?T = "tree 2 (mem s) pt"
  have "\<exists>t. (if sz > 0 then uvmunmap pt 0 (PGROUNDUP sz div PGSIZE) True s else Inr s) = Inr t \<and>
      vm_ok t (F \<union> ?A) pt \<and> page_ok t = page_ok s \<and> tree 2 (mem t) pt = ?T \<and>
      same_off (?A \<union> ?T) (mem s) (mem t) \<and> (\<forall>j. vpte t pt j = None)"
  proof (cases "sz > 0")
    case True
    then show ?thesis using uvmunmap_spec [OF ok(1,4)] ok(3,5) by (auto simp: npages_word pgaddr_def)
  next
    case False
    then have "sz = 0" using word_gt_0 by blast
    then have "npages sz = 0" by (simp add: npages_def)
    then show ?thesis using ok False by (simp add: frames_def)
  qed
  then obtain t where t: "(if sz > 0 then uvmunmap pt 0 (PGROUNDUP sz div PGSIZE) True s else Inr s) = Inr t"
    "vm_ok t (F \<union> ?A) pt" "page_ok t = page_ok s" "tree 2 (mem t) pt = ?T" "same_off (?A \<union> ?T) (mem s) (mem t)"
    "\<forall>j. vpte t pt j = None" by blast
  have "freewalk_pre 2 pt (F \<union> ?A) t"
    using t ok(2) leafless_vpte [of t pt] by (auto simp: freewalk_pre_def vm_ok_def)
  from freewalk_spec [OF this] obtain u where u: "freewalk 3 pt t = Inr u" "freed t (F \<union> ?A) ?T u"
    by (auto simp: t(4))
  have "same_off (?A \<union> ?T) (mem s) (mem u)"
    using same_off_trans [OF t(5)] u(2) by (auto simp: freed_def intro: same_off_mono)
  then have "freed s F (?A \<union> ?T) u" using u(2) t(3) by (simp add: freed_def Un_assoc)
  then show ?thesis using t(1) u(1) by (simp add: uvmfree_def)
qed

subsection \<open>uvmcopy\<close>

lemma pmap_valid: "pmap l m p va = Some v \<Longrightarrow> valid v"
  by (induction l arbitrary: p) (auto simp: Let_def split: if_splits)

lemma vpte_valid: "vpte s pt i = Some v \<Longrightarrow> valid v"
  by (auto simp: vpte_def split: if_splits dest: pmap_valid)

lemma valid_flags: "valid v \<Longrightarrow> PTE_FLAGS v OR PTE_V = PTE_FLAGS v"
  unfolding valid_bit by (rule bit_word_eqI) (auto simp: PTE_FLAGS_def bit_or_iff bit_and_iff bit_1_iff)

lemma PTE_FLAGS_idem [simp]: "PTE_FLAGS (PTE_FLAGS v) = PTE_FLAGS v"
  by (simp add: PTE_FLAGS_def and.assoc)

text \<open>The first k pages of the table new are copies of those of old, with the same permissions.\<close>

definition copied :: "pmem \<Rightarrow> uint64 \<Rightarrow> uint64 \<Rightarrow> nat \<Rightarrow> bool" where
  "copied s old new k \<longleftrightarrow> (\<forall>j<k. \<exists>v. vpte s old j = Some v \<and>
     vpte s new j = Some (map_pte (frame s new j) (PTE_FLAGS v) 0) \<and>
     (\<forall>x<4096. mem s (frame s new j + of_nat x) = mem s (PTE2PA v + of_nat x)))"

text \<open>Two address spaces that share nothing; old has k pages.\<close>

definition two_spaces :: "pmem \<Rightarrow> uint64 set \<Rightarrow> uint64 \<Rightarrow> uint64 \<Rightarrow> nat \<Rightarrow> bool" where
  "two_spaces s F old new n \<longleftrightarrow> vm_ok s F old \<and> vm_ok s F new \<and> owned_range s F old 0 n \<and>
     tree 2 (mem s) old \<inter> tree 2 (mem s) new = {} \<and> frames s old 0 n \<inter> tree 2 (mem s) new = {}"

lemma two_spaces_old:
  assumes "two_spaces s0 F0 old new n" and "same_off (tree 2 (mem s0) new \<union> F0) (mem s0) (mem s)"
  shows "vpte s old = vpte s0 old" and "leaf 2 (mem s) old va = leaf 2 (mem s0) old va"
    and "wf_pt 2 (mem s) old"
    and "j < n \<Longrightarrow> same_on {frame s0 old j} (mem s0) (mem s)"
proof -
  have a: "\<And>q. q \<in> tree 2 (mem s0) new \<union> F0 \<union> tree 2 (mem s0) old \<Longrightarrow> pg_aligned q"
    using assms(1) vm_ok_aligned by (auto simp: two_spaces_def)
  have "same_on (tree 2 (mem s0) old) (mem s0) (mem s)"
    by (rule same_off_on [OF assms(2)]) (use assms(1) a in \<open>auto simp: two_spaces_def vm_ok_def\<close>)
  note fr = pt_frame [OF this]
  show "vpte s old = vpte s0 old" by (simp add: vpte_def fr fun_eq_iff)
  show "leaf 2 (mem s) old va = leaf 2 (mem s0) old va" by (rule fr)
  show "wf_pt 2 (mem s) old" using fr(2) assms(1) by (simp add: two_spaces_def vm_ok_def)
  show "same_on {frame s0 old j} (mem s0) (mem s)" if jn: "j < n"
  proof (rule same_off_on [OF assms(2)])
    obtain v where v: "owned s0 F0 old j v"
      using assms(1) owned_rangeD [of s0 F0 old 0 n j] jn by (auto simp: two_spaces_def)
    moreover have "frame s0 old j \<in> frames s0 old 0 n" using jn by (simp add: frames_def)
    ultimately show "(tree 2 (mem s0) new \<union> F0) \<inter> {frame s0 old j} = {}"
      using assms(1) owned_frame [OF v] by (auto simp: two_spaces_def owned_def)
    show "pg_aligned q" if "q \<in> {frame s0 old j}" for q
      using that v owned_frame [OF v] by (simp add: owned_def page_ok_def)
  qed (use a in blast)
qed

lemma memmove_page:
  assumes "page_ok s q" and "page_ok s pa"
  shows "same_off {q} m (memmove m q pa 4096)"
    and "q \<noteq> pa \<Longrightarrow> x < 4096 \<Longrightarrow> memmove m q pa 4096 (q + of_nat x) = m (pa + of_nat x)"
proof -
  have b: "unat q < unat PHYSTOP" "unat pa < unat PHYSTOP"
    using assms by (simp_all add: page_ok_def word_less_nat_alt)
  have eq: "memmove m q pa 4096 = mem_write m q (mem_read m pa 4096)"
    using memmove_eq [of q 4096 pa m] b by simp
  show "same_off {q} m (memmove m q pa 4096)"
    by (simp add: eq same_off_def in_page_def mem_write_outside)
  show "memmove m q pa 4096 (q + of_nat x) = m (pa + of_nat x)" if "x < 4096"
    using that by (simp add: eq mem_write_def unat_of_nat64 mem_read_nth)
qed

lemma added_unmap:
  assumes "added s0 F0 pt 0 k N s" and "k \<le> NVP" and "\<And>j. j < k \<Longrightarrow> vpte s0 pt j = None"
  shows "\<exists>s'. uvmunmap pt 0 (of_nat k) True s = Inr s' \<and> restored s0 F0 pt N s'"
proof -
  have "vm_ok s (F0 - N - frames s pt 0 k) pt" "owned_range s (F0 - N - frames s pt 0 k) pt 0 k"
    using assms(1) by (auto simp: added_def)
  from uvmunmap_spec [OF this] show ?thesis
    using added_restored [OF assms(1)] assms(3) by (fastforce simp: pgaddr_def)
qed

lemma pgaddr_div: "k \<le> NVP \<Longrightarrow> pgaddr k div PGSIZE = of_nat k"
  using unat_of_nat64 [of k] by (simp add: word_unat_eq_iff unat_div unat_pgaddr)

lemma copied_Suc:
  assumes cp: "copied s old new k" and old: "vpte t old = vpte s old" "vpte s old k = Some v"
    and own: "\<And>j v. j < k \<Longrightarrow> vpte s old j = Some v \<Longrightarrow> same_on {PTE2PA v} (mem s) (mem t)"
    and t: "vpte t new = (vpte s new)(k \<mapsto> map_pte q (PTE_FLAGS v) 0)"
    and fr: "frame t new k = q" "\<And>j. j < k \<Longrightarrow> frame t new j = frame s new j"
    and on: "same_on (frames s new 0 k) (mem s) (mem t)"
    and z: "\<And>x. x < 4096 \<Longrightarrow> mem t (q + of_nat x) = mem t (PTE2PA v + of_nat x)"
  shows "copied t old new (Suc k)"
  unfolding copied_def
proof (intro allI impI)
  fix j assume j: "j < Suc k"
  show "\<exists>v. vpte t old j = Some v \<and> vpte t new j = Some (map_pte (frame t new j) (PTE_FLAGS v) 0) \<and>
     (\<forall>x<4096. mem t (frame t new j + of_nat x) = mem t (PTE2PA v + of_nat x))"
  proof (cases "j = k")
    case True
    then show ?thesis using old t fr(1) z by simp
  next
    case False
    with j have jk: "j < k" by simp
    with cp obtain w where w: "vpte s old j = Some w" "vpte s new j = Some (map_pte (frame s new j) (PTE_FLAGS w) 0)"
      "\<And>x. x < 4096 \<Longrightarrow> mem s (frame s new j + of_nat x) = mem s (PTE2PA w + of_nat x)"
      by (auto simp: copied_def)
    have "frame s new j \<in> frames s new 0 k" using jk by (simp add: frames_def)
    then have "mem t (frame s new j + of_nat x) = mem s (frame s new j + of_nat x)" if "x < 4096" for x
      using on that by (auto simp: same_on_def in_page_def unat_of_nat64)
    moreover have "mem t (PTE2PA w + of_nat x) = mem s (PTE2PA w + of_nat x)" if "x < 4096" for x
      using own [OF jk w(1)] that by (auto simp: same_on_def in_page_def unat_of_nat64)
    ultimately show ?thesis using w old(1) t fr(2) [OF jk] False by simp
  qed
qed

lemma uvmcopy_loop_spec:
  assumes "two_spaces s0 F0 old new (npages sz)" and "added s0 F0 new 0 k N s" and "copied s old new k"
    and "k \<le> npages sz" and "sz \<le> MAXVA" and "\<And>j. j < npages sz \<Longrightarrow> vpte s0 new j = None"
  shows "\<exists>r s' N'. uvmcopy_loop old new (pgaddr k) sz s = Inr (r, s') \<and>
    (r = 0 \<and> added s0 F0 new 0 (npages sz) N' s' \<and> copied s' old new (npages sz) \<or>
     r = -1 \<and> restored s0 F0 new N' s' \<and> card (F0 - N - frames s new 0 k) \<le> 3 * (npages sz - k))"
  using assms
proof (induction "npages sz - k" arbitrary: k N s)
  case 0
  then have k: "k = npages sz" by simp
  have "\<not> pgaddr k < sz" using 0 npages_le [of sz] by (subst pgaddr_less_sz) auto
  then have "uvmcopy_loop old new (pgaddr k) sz s = Inr (0, s)" by (subst uvmcopy_loop.simps) simp
  then show ?case using 0(3,4) k by blast
next
  case (Suc d)
  let ?F = "F0 - N - frames s new 0 k"
  have le: "k < npages sz" "k < NVP" "npages sz \<le> NVP" using Suc npages_le [of sz] by auto
  then have lt: "pgaddr k < sz" using Suc.prems(5) by (subst pgaddr_less_sz) auto
  have none: "vpte s new k = None" using Suc.prems(2,6) le by (simp add: added_def)
  have none0: "vpte s0 new j = None" if "j < k" for j using Suc.prems(6) that le by simp
  have ok: "vm_ok s ?F new" using Suc.prems(2) by (simp add: added_def)
  have fin: "finite ?F" using ok by (auto simp: vm_ok_def dest: free_pages_finite)
  have off0: "same_off (tree 2 (mem s0) new \<union> F0) (mem s0) (mem s)" using Suc.prems(2) by (simp add: added_def)
  note O = two_spaces_old [OF Suc.prems(1) off0]
  have "owned_range s0 F0 old 0 (npages sz)" using Suc.prems(1) by (simp add: two_spaces_def)
  from owned_rangeD [OF this, of k] le obtain v where v: "owned s0 F0 old k v" by auto
  have vs: "vpte s old k = Some v" "valid v" "page_ok s (PTE2PA v)" "PTE_FLAGS v \<noteq> PTE_V" "PTE2PA v \<notin> F0"
    using v O(1) Suc.prems(2) vpte_valid by (auto simp: owned_def added_def)
  have w: "walk old (pgaddr k) False s = Inr (leaf 2 (mem s) old (pgaddr k), s)"
    "leaf 2 (mem s) old (pgaddr k) \<noteq> 0" "load64 (mem s) (leaf 2 (mem s) old (pgaddr k)) = v"
    using vs(1) leaf_pmap [OF O(3), of "pgaddr k"] le(2)
    by (auto simp: walk_no_alloc pgaddr_less vpte_def split: if_splits)
  show ?case
  proof (cases "?F = {}")
    case True
    have "kalloc s = (0, s)" using ok unfolding True vm_ok_def by (blast intro: km.alloc_empty)
    moreover obtain s' where "uvmunmap new 0 (of_nat k) True s = Inr s'" "restored s0 F0 new N s'"
      using added_unmap [OF Suc.prems(2) _ none0] le by auto
    moreover have "card ?F \<le> 3 * (npages sz - k)" by (simp only: True card.empty)
    ultimately show ?thesis using lt w vs(2) le
      by (subst uvmcopy_loop.simps) (auto simp: Let_def pgaddr_div)
  next
    case False
    from vm_alloc [OF ok False] obtain q t where q: "kalloc s = (q, t)" "q \<in> ?F" "q \<noteq> 0" "page_ok s q"
      "free_pages t (?F - {q})" "page_ok t = page_ok s" "same_off {q} (mem s) (mem t)" by blast
    define u where "u = t\<lparr>mem := memmove (mem t) q (PTE2PA v) 4096\<rparr>"
    note mv = memmove_page [OF q(4) vs(3), where m = "mem t"]
    note u = vm_fill [OF ok q(2,4-7) mv(1), folded u_def]
    have qv: "q \<noteq> PTE2PA v" using q(2) vs(5) by auto
    have "vpte u new k = None" using none u(3) by simp
    note one = mappages_one [OF u(1) le(2) this, of q "PTE_FLAGS v"]
    have step: "uvmcopy_loop old new (pgaddr k) sz s = bindR (mappages new (pgaddr k) PGSIZE q (PTE_FLAGS v) u) (\<lambda>(r, s2).
        if r \<noteq> 0 then bindR (kfree q s2) (\<lambda>s3. bindR (uvmunmap new 0 (of_nat k) True s3) (\<lambda>s4. Inr (-1, s4)))
        else uvmcopy_loop old new (pgaddr (Suc k)) sz s2)"
      using lt w vs(2) q(1,3) unfolding pgaddr_Suc [symmetric] pgaddr_div [OF less_imp_le [OF le(2)], symmetric]
      by (subst uvmcopy_loop.simps) (simp add: Let_def u_def)
    from one consider
      (fail) s1 where "mappages new (pgaddr k) PGSIZE q (PTE_FLAGS v) u = Inr (-1, s1)"
        "grows u (?F - {q}) new (?F - {q}) s1" "vpte s1 new = vpte u new" "card (?F - {q}) \<le> 2"
    | (ok) M s2 where "mappages new (pgaddr k) PGSIZE q (PTE_FLAGS v) u = Inr (0, s2)" "grows u (?F - {q}) new M s2"
        "vpte s2 new = (vpte u new)(k \<mapsto> map_pte q (PTE_FLAGS v) 0)" "card M \<le> 2" by blast
    then show ?thesis
    proof cases
      case fail
      from added_undo [OF Suc.prems(2) refl q(2,4) u(2-5) fail(2,3)] obtain s3 where
        s3: "kfree q s1 = Inr s3" "added s0 F0 new 0 k (N \<union> (?F - {q})) s3" by blast
      from added_unmap [OF s3(2) _ none0] le obtain s' where
        "uvmunmap new 0 (of_nat k) True s3 = Inr s'" "restored s0 F0 new (N \<union> (?F - {q})) s'" by auto
      moreover have "card ?F \<le> 3 * (npages sz - k)"
        using fail(4) card_Diff_singleton [OF q(2)] le(1) by simp
      ultimately show ?thesis using s3(1) fail(1) by (auto simp: step)
    next
      case ok
      have fl: "PTE_FLAGS v OR PTE_V \<noteq> PTE_V" using vs(2,4) by (simp add: valid_flags)
      have k0: "k = 0 + k" by simp
      note A = added_Suc [OF Suc.prems(2) k0 le(2) refl q(2,4) PTE_FLAGS_idem fl u(2-5) ok(2,3)]
      have off2: "same_off (tree 2 (mem s0) new \<union> F0) (mem s0) (mem s2)" using A(1) by (simp add: added_def)
      note O2 = two_spaces_old [OF Suc.prems(1) off2]
      have own: "same_on {PTE2PA w} (mem s) (mem s2)" if "j < npages sz" "vpte s old j = Some w" for j w
        using O(4) [of j] O2(4) [of j] that by (auto simp: same_on_def frame_def O(1))
      have "copied s2 old new (Suc k)"
      proof (rule copied_Suc [OF Suc.prems(3) _ vs(1)])
        show "vpte s2 old = vpte s old" using O(1) O2(1) by simp
        show "same_on {PTE2PA w} (mem s) (mem s2)" if "j < k" "vpte s old j = Some w" for j w
          using own [of j w] that le by simp
        show "vpte s2 new = (vpte s new)(k \<mapsto> map_pte q (PTE_FLAGS v) 0)" using ok(3) u(3) by simp
        show "mem s2 (q + of_nat x) = mem s2 (PTE2PA v + of_nat x)" if x: "x < 4096" for x
        proof -
          have "mem s2 (q + of_nat x) = mem u (q + of_nat x)"
            using A(4) x by (auto simp: same_on_def in_page_def unat_of_nat64)
          also have "\<dots> = mem t (PTE2PA v + of_nat x)" using mv(2) [OF qv x] by (simp add: u_def)
          also have "\<dots> = mem s (PTE2PA v + of_nat x)"
          proof -
            have "same_on {PTE2PA v} (mem s) (mem t)"
              by (rule same_off_on [OF q(7)]) (use qv q(4) vs(3) in \<open>auto simp: page_ok_def\<close>)
            then show ?thesis using x by (auto simp: same_on_def in_page_def unat_of_nat64)
          qed
          also have "\<dots> = mem s2 (PTE2PA v + of_nat x)"
            using own [OF le(1) vs(1)] x by (auto simp: same_on_def in_page_def unat_of_nat64)
          finally show ?thesis .
        qed
      qed (use A(2,3,5) in simp_all)
      moreover have "d = npages sz - Suc k" "Suc k \<le> npages sz" using Suc(2) by auto
      ultimately have "\<exists>r s' N'. uvmcopy_loop old new (pgaddr (Suc k)) sz s2 = Inr (r, s') \<and>
        (r = 0 \<and> added s0 F0 new 0 (npages sz) N' s' \<and> copied s' old new (npages sz) \<or>
         r = -1 \<and> restored s0 F0 new N' s' \<and> card (F0 - (N \<union> M) - frames s2 new 0 (Suc k)) \<le> 3 * (npages sz - Suc k))"
        by (intro Suc.hyps(1) A(1)) (use Suc.prems in auto)
      moreover have "card ?F \<le> 3 + card (F0 - (N \<union> M) - frames s2 new 0 (Suc k))"
        unfolding A(6) by (rule card_Diff_two) (use fin q(2) ok(2,4) in \<open>auto simp: grows_def\<close>)
      moreover have "uvmcopy_loop old new (pgaddr k) sz s = uvmcopy_loop old new (pgaddr (Suc k)) sz s2"
        using ok(1) by (simp add: step)
      ultimately show ?thesis using le(1) by fastforce
    qed
  qed
qed

lemma uvmcopy_spec:
  assumes "two_spaces s F old new (npages sz)" and "sz \<le> MAXVA" and "\<And>j. j < npages sz \<Longrightarrow> vpte s new j = None"
  shows "\<exists>r s' N. uvmcopy old new sz s = Inr (r, s') \<and>
    (r = 0 \<and> added s F new 0 (npages sz) N s' \<and> copied s' old new (npages sz) \<or>
     r = -1 \<and> restored s F new N s' \<and> card F \<le> 3 * npages sz)"
proof -
  have ok: "vm_ok s F new" using assms(1) by (simp add: two_spaces_def)
  have "copied s old new 0" by (simp add: copied_def)
  from uvmcopy_loop_spec [OF assms(1) added_0 [OF ok] this _ assms(2,3)]
  show ?thesis by (simp add: uvmcopy_def pgaddr_def frames_def)
qed

subsection \<open>copyout and copyin\<close>

text \<open>The byte at user address a, through the table.\<close>

definition uview :: "pmem \<Rightarrow> uint64 \<Rightarrow> nat \<Rightarrow> byte" where
  "uview s pt a = mem s (frame s pt (a div 4096) + of_nat (a mod 4096))"

text \<open>User pages are those with \<open>PTE_U\<close>; the entries above the process's size are not.\<close>

definition upage :: "pmem \<Rightarrow> uint64 \<Rightarrow> nat \<Rightarrow> bool" where
  "upage s pt i \<longleftrightarrow> i < NVP \<and> (\<exists>v. vpte s pt i = Some v \<and> v AND PTE_U \<noteq> 0)"

definition kernel_only :: "(nat \<Rightarrow> uint64 option) \<Rightarrow> bool" where
  "kernel_only K \<longleftrightarrow> (\<forall>j v. K j = Some v \<longrightarrow> v AND PTE_U = 0)"

lemma upage_owned:
  assumes "uspace s F pt sz K" and "kernel_only K" and "upage s pt i"
  shows "i < npages sz" and "\<exists>v. owned s F pt i v"
proof -
  show i: "i < npages sz"
    using assms by (auto simp: uspace_def kernel_only_def upage_def not_less [symmetric])
  show "\<exists>v. owned s F pt i v" using assms(1) owned_rangeD [of s F pt 0 "npages sz" i] i by (auto simp: uspace_def)
qed

lemma mem_write_page:
  assumes "off + length bs \<le> 4096" and "x < 4096"
  shows "mem_write m (p + of_nat off) bs (p + of_nat x) =
    (if off \<le> x \<and> x < off + length bs then bs ! (x - off) else m (p + of_nat x))"
proof -
  have e: "p + of_nat x - (p + of_nat off) = (of_nat x - of_nat off :: uint64)" by simp
  have u: "unat (of_nat x :: uint64) = x" "unat (of_nat off :: uint64) = off"
    using assms by (simp_all add: unat_of_nat64)
  have "unat (of_nat x - of_nat off :: uint64) = (if off \<le> x then x - off else x + 18446744073709551616 - off)"
    using assms u by (simp add: unat_sub_if')
  then show ?thesis using assms unfolding mem_write_def e by auto
qed

lemma mem_write_page_off:
  assumes "off + length bs \<le> 4096"
  shows "same_off {p} m (mem_write m (p + of_nat off) bs)"
proof -
  have "in_page p y" if "unat (y - (p + of_nat off)) < length bs" for y
  proof -
    define k where "k = unat (y - (p + of_nat off))"
    have "y = p + of_nat (off + k)" by (simp add: k_def)
    moreover have "off + k < 4096" using that assms by (simp add: k_def)
    ultimately show ?thesis by (simp add: in_page_def unat_of_nat64 del: of_nat_add)
  qed
  then show ?thesis by (auto simp: same_off_def intro!: mem_write_outside)
qed

text \<open>Writing into one user page: the table, the free pages and the other pages stay as they are.\<close>

lemma uspace_write:
  assumes us: "uspace s F pt sz K" and own: "owned s F pt i v" and i: "i < npages sz"
    and bs: "off + length bs \<le> 4096"
  defines "s' \<equiv> s\<lparr>mem := mem_write (mem s) (PTE2PA v + of_nat off) bs\<rparr>"
  shows "uspace s' F pt sz K" and "vpte s' pt = vpte s pt"
    and "a < 4096 * npages sz \<Longrightarrow> uview s' pt a =
      (if 4096 * i + off \<le> a \<and> a < 4096 * i + off + length bs then bs ! (a - (4096 * i + off)) else uview s pt a)"
proof -
  let ?p = "PTE2PA v"
  have ok: "vm_ok s F pt" using us by (simp add: uspace_def)
  have pa: "pg_aligned ?p" by simp
  have off: "same_off {?p} (mem s) (mem s')" unfolding s'_def using mem_write_page_off [OF bs] by simp
  have on: "same_on T (mem s) (mem s')" if "?p \<notin> T" "\<And>q. q \<in> T \<Longrightarrow> pg_aligned q" for T
    by (rule same_off_on [OF off]) (use that in auto)
  have "same_on F (mem s) (mem s')" by (rule on) (use own ok vm_ok_aligned in \<open>auto simp: owned_def\<close>)
  then have fp: "free_pages s' F" unfolding s'_def
    using ok by (intro km.overwrite_free) (auto simp: vm_ok_def same_on_def)
  have "{?p} \<inter> tree 2 (mem s) pt = {}" "F \<inter> tree 2 (mem s) pt = {}" using own ok by (auto simp: owned_def vm_ok_def)
  note V = vm_outside [OF ok fp off this(1) _ this(2)]
  have V: "vm_ok s' F pt" "vpte s' pt = vpte s pt" "tree 2 (mem s') pt = tree 2 (mem s) pt" using V pa by auto
  have pok: "page_ok s' = page_ok s" using km.overwrite_simps(2) by (simp add: s'_def)
  show "vpte s' pt = vpte s pt" by (rule V(2))
  have fr: "frame s' pt = frame s pt" by (simp add: frame_def V(2) fun_eq_iff)
  show "uspace s' F pt sz K" using us V pok fr by (simp add: uspace_def owned_range_def owned_def)
  assume a: "a < 4096 * npages sz"
  let ?j = "a div 4096" and ?x = "a mod 4096"
  have j: "?j < npages sz" using a by (simp add: less_mult_imp_div_less mult.commute)
  show "uview s' pt a = (if 4096 * i + off \<le> a \<and> a < 4096 * i + off + length bs
    then bs ! (a - (4096 * i + off)) else uview s pt a)"
  proof (cases "?j = i")
    case True
    have "uview s' pt a = mem_write (mem s) (?p + of_nat off) bs (?p + of_nat ?x)"
      using owned_frame [OF own] by (simp add: uview_def fr True) (simp add: s'_def)
    also have "\<dots> = (if off \<le> ?x \<and> ?x < off + length bs then bs ! (?x - off) else mem s (?p + of_nat ?x))"
      by (rule mem_write_page [OF bs]) simp
    also have "mem s (?p + of_nat ?x) = uview s pt a" using owned_frame [OF own] by (simp add: uview_def True)
    finally have "uview s' pt a = (if off \<le> ?x \<and> ?x < off + length bs then bs ! (?x - off) else uview s pt a)" .
    moreover have "4096 * i + ?x = a" unfolding True [symmetric] by (rule mult_div_mod_eq)
    then have "(off \<le> ?x \<and> ?x < off + length bs) = (4096 * i + off \<le> a \<and> a < 4096 * i + off + length bs)"
      "?x - off = a - (4096 * i + off)" by linarith+
    ultimately show ?thesis by simp
  next
    case False
    have inj: "inj_on (frame s pt) {0..<npages sz}" using us by (simp add: uspace_def owned_range_def)
    then have "frame s pt ?j \<noteq> ?p" using inj_onD [OF inj, of ?j i] owned_frame [OF own] i j False by auto
    moreover have "pg_aligned (frame s pt ?j)" by (simp add: frame_def)
    ultimately have "same_on {frame s pt ?j} (mem s) (mem s')" by (intro on) auto
    then have "uview s' pt a = uview s pt a" by (simp add: uview_def fr same_on_def in_page_def unat_of_nat64)
    moreover have "\<not> (4096 * i + off \<le> a \<and> a < 4096 * i + off + length bs)"
    proof
      assume "4096 * i + off \<le> a \<and> a < 4096 * i + off + length bs"
      then have "4096 * i \<le> a" "a < 4096 * Suc i" using bs by auto
      then have "?j = i" by (intro div_nat_eqI) (auto simp: mult.commute)
      with False show False by simp
    qed
    ultimately show ?thesis by auto
  qed
qed

text \<open>One page of a copy: where it is and how many bytes of it are used.\<close>

lemma copy_chunk:
  assumes "va < MAXVA"
  defines "i \<equiv> unat va div 4096" and "off \<equiv> unat va mod 4096"
  shows "PGROUNDDOWN va = pgaddr i" and "va - PGROUNDDOWN va = of_nat off" and "i < NVP" and "off < 4096"
    and "unat va = 4096 * i + off" and "unat (chunk va len) = min (4096 - off) (unat len)"
    and "PGROUNDDOWN va + PGSIZE = pgaddr (Suc i)" and "unat (PGROUNDDOWN va + PGSIZE) = 4096 * Suc i"
    and "unat (len - chunk va len) = unat len - min (4096 - off) (unat len)"
proof -
  show pg: "PGROUNDDOWN va = pgaddr i" using PGROUNDDOWN_pgaddr [OF assms(1)] by (simp add: i_def)
  show i: "i < NVP" using assms(1) by (simp add: i_def word_less_nat_alt)
  show off: "off < 4096" by (simp add: off_def)
  show eq: "unat va = 4096 * i + off" by (simp add: i_def off_def)
  have o: "unat (va - PGROUNDDOWN va) = off"
    unfolding unat_sub [OF PGROUNDDOWN_le] unat_PGROUNDDOWN off_def by (rule minus_div_mult_eq_mod)
  then show "va - PGROUNDDOWN va = of_nat off" using off by (simp add: word_unat_eq_iff unat_of_nat64)
  show c: "unat (chunk va len) = min (4096 - off) (unat len)" by (simp add: unat_chunk o)
  show "PGROUNDDOWN va + PGSIZE = pgaddr (Suc i)" by (simp only: pg pgaddr_Suc)
  then show "unat (PGROUNDDOWN va + PGSIZE) = 4096 * Suc i" using i by (simp only: unat_pgaddr)
  have "chunk va len \<le> len" by (simp add: word_le_nat_alt unat_chunk)
  then show "unat (len - chunk va len) = unat len - min (4096 - off) (unat len)" by (simp only: unat_sub c)
qed

lemma PGROUNDDOWN_less_MAXVA: "PGROUNDDOWN va < MAXVA \<longleftrightarrow> va < MAXVA"
  by (auto simp: word_less_nat_alt unat_PGROUNDDOWN)

definition urange :: "uint64 \<Rightarrow> uint64 \<Rightarrow> nat \<Rightarrow> bool" where
  "urange va len a \<longleftrightarrow> unat va \<le> a \<and> a < unat va + unat len"

lemma urange_split:
  assumes "va < MAXVA"
  shows "urange va len a \<longleftrightarrow> unat va \<le> a \<and> a < unat va + unat (chunk va len) \<or>
    urange (PGROUNDDOWN va + PGSIZE) (len - chunk va len) a"
proof -
  define i off where "i = unat va div 4096" and "off = unat va mod 4096"
  note C = copy_chunk [OF assms, folded i_def off_def]
  show ?thesis unfolding urange_def C(5,6,8,9) using C(4) by (simp add: min_def) linarith
qed

lemma copyout_step:
  assumes "vm_ok s F pt" and "va < MAXVA" and "len \<noteq> 0"
  shows "copyout pt va src len s = (case vpte s pt (unat va div 4096) of
      None \<Rightarrow> (-1, s)
    | Some v \<Rightarrow> if v AND PTE_U = 0 \<or> v AND PTE_W = 0 then (-1, s)
        else copyout pt (PGROUNDDOWN va + PGSIZE) (drop (unat (chunk va len)) src) (len - chunk va len)
          (s\<lparr>mem := mem_write (mem s) (PTE2PA v + (va - PGROUNDDOWN va)) (take (unat (chunk va len)) src)\<rparr>))"
proof -
  note C = copy_chunk [OF assms(2)]
  define a where "a = leaf 2 (mem s) pt (PGROUNDDOWN va)"
  note W = vm_walk [OF assms(1) C(3), folded C(1), folded a_def, unfolded Let_def]
  have "\<not> MAXVA \<le> PGROUNDDOWN va" using assms(2) by (simp only: PGROUNDDOWN_less_MAXVA not_le)
  then show ?thesis using assms(3)
    by (subst copyout.simps) (simp add: W(1) Let_def W(2))
qed

lemma copyin_step:
  assumes "vm_ok s F pt" and "va < MAXVA" and "len \<noteq> 0"
  shows "copyin pt va len s = (case vpte s pt (unat va div 4096) of
      None \<Rightarrow> ([], -1)
    | Some v \<Rightarrow> if v AND PTE_U = 0 \<or> PTE2PA v = 0 then ([], -1)
        else let (bs, r) = copyin pt (PGROUNDDOWN va + PGSIZE) (len - chunk va len) s
          in (mem_read (mem s) (PTE2PA v + (va - PGROUNDDOWN va)) (unat (chunk va len)) @ bs, r))"
proof -
  note C = copy_chunk [OF assms(2)]
  define a where "a = leaf 2 (mem s) pt (PGROUNDDOWN va)"
  note W = vm_walk [OF assms(1) C(3), folded C(1), folded a_def, unfolded Let_def]
  have "\<not> MAXVA \<le> PGROUNDDOWN va" using assms(2) by (simp only: PGROUNDDOWN_less_MAXVA not_le)
  then show ?thesis using assms(3)
    by (subst copyin.simps) (simp add: walkaddr_def W(1) Let_def W(2))
qed

lemma copyout_spec:
  assumes "uspace s F pt sz K" and "kernel_only K" and "length src = unat len" and "copyout pt va src len s = (0, s')"
  shows "uspace s' F pt sz K \<and> vpte s' pt = vpte s pt \<and>
    (\<forall>a. urange va len a \<longrightarrow> upage s pt (a div 4096)) \<and>
    (\<forall>a<4096 * npages sz. uview s' pt a = (if urange va len a then src ! (a - unat va) else uview s pt a))"
  using assms
proof (induction "unat len" arbitrary: va src len s rule: less_induct)
  case less
  show ?case
  proof (cases "len = 0")
    case True
    then have "s' = s" using less.prems(4) by (subst (asm) copyout.simps) simp
    with True less.prems(1) show ?thesis by (auto simp: urange_def)
  next
    case False
    let ?va0 = "PGROUNDDOWN va" and ?n = "chunk va len"
    define i off where "i = unat va div 4096" and "off = unat va mod 4096"
    have "?va0 < MAXVA" using less.prems(4) False by (subst (asm) copyout.simps) (auto split: if_splits)
    then have va: "va < MAXVA" by (simp only: PGROUNDDOWN_less_MAXVA)
    note C = copy_chunk [OF va, folded i_def off_def]
    have ok: "vm_ok s F pt" using less.prems(1) by (simp add: uspace_def)
    define t where "t = (\<lambda>v. s\<lparr>mem := mem_write (mem s) (PTE2PA v + of_nat off) (take (unat ?n) src)\<rparr>)"
    from less.prems(4) obtain v where v: "vpte s pt i = Some v" "v AND PTE_U \<noteq> 0" and
      rest: "copyout pt (?va0 + PGSIZE) (drop (unat ?n) src) (len - ?n) (t v) = (0, s')"
      unfolding copyout_step [OF ok va False] C(2) i_def [symmetric]
      by (auto simp: t_def split: option.splits if_splits)
    have up: "upage s pt i" using v C(3) by (simp add: upage_def)
    from upage_owned [OF less.prems(1,2) up] v(1) have own: "owned s F pt i v" "i < npages sz"
      by (auto simp: owned_def)
    have len: "length (take (unat ?n) src) = unat ?n" using less.prems(3) C(6) [of len] by simp
    have bs: "off + length (take (unat ?n) src) \<le> 4096" using C(4) C(6) [of len] len by simp
    note U = uspace_write [OF less.prems(1) own bs, folded t_def [THEN fun_cong], unfolded len]
    have "unat (len - ?n) < unat len" using chunk_progress [OF False] .
    moreover have "length (drop (unat ?n) src) = unat (len - ?n)" using less.prems(3) C(6,9) [of len] by simp
    ultimately have IH: "uspace s' F pt sz K \<and> vpte s' pt = vpte (t v) pt \<and>
      (\<forall>a. urange (?va0 + PGSIZE) (len - ?n) a \<longrightarrow> upage (t v) pt (a div 4096)) \<and>
      (\<forall>a<4096 * npages sz. uview s' pt a =
        (if urange (?va0 + PGSIZE) (len - ?n) a then drop (unat ?n) src ! (a - unat (?va0 + PGSIZE)) else uview (t v) pt a))"
      using U(1) less.prems(2) rest by (intro less.hyps) auto
    have first: "a div 4096 = i" if "unat va \<le> a" "a < unat va + unat ?n" for a
      using that C(4) by (intro div_nat_eqI) (auto simp: C(5,6))
    have second: "unat ?n + (a - unat (?va0 + PGSIZE)) = a - unat va" "\<not> a < unat va + unat ?n"
      if "urange (?va0 + PGSIZE) (len - ?n) a" for a
      using that C(4) unfolding urange_def C(5,6,8,9) by (auto simp: min_def split: if_splits)
    have upt: "upage (t v) pt = upage s pt" by (simp add: upage_def U(2) fun_eq_iff)
    show ?thesis
    proof (intro conjI allI impI)
      show "uspace s' F pt sz K" "vpte s' pt = vpte s pt" using IH U(2) by auto
      show "upage s pt (a div 4096)" if "urange va len a" for a
        using that first [of a] up IH unfolding urange_split [OF va] upt by auto
      fix a assume a: "a < 4096 * npages sz"
      show "uview s' pt a = (if urange va len a then src ! (a - unat va) else uview s pt a)"
      proof (cases "urange (?va0 + PGSIZE) (len - ?n) a")
        case True
        then have "uview s' pt a = src ! (unat ?n + (a - unat (?va0 + PGSIZE)))"
          using IH a less.prems(3) C(6) [of len] by simp
        then show ?thesis using True second(1) [OF True] urange_split [OF va] by simp
      next
        case False
        then have "uview s' pt a = uview (t v) pt a" using IH a by simp
        then show ?thesis using U(3) [OF a] False urange_split [OF va, of len a] by (auto simp: C(5))
      qed
    qed
  qed
qed

lemma copyin_spec:
  assumes "uspace s F pt sz K" and "kernel_only K" and "\<And>a. urange va len a \<Longrightarrow> upage s pt (a div 4096)"
  shows "copyin pt va len s = (map (uview s pt) [unat va..<unat va + unat len], 0)"
  using assms(3)
proof (induction "unat len" arbitrary: va len rule: less_induct)
  case less
  show ?case
  proof (cases "len = 0")
    case True
    then show ?thesis by (subst copyin.simps) simp
  next
    case False
    let ?va0 = "PGROUNDDOWN va" and ?n = "chunk va len"
    define i off where "i = unat va div 4096" and "off = unat va mod 4096"
    have up: "upage s pt i" using less.prems [of "unat va"] False by (simp add: urange_def i_def unat_gt_0)
    then have va: "va < MAXVA" by (auto simp: upage_def i_def word_less_nat_alt)
    note C = copy_chunk [OF va, folded i_def off_def]
    have ok: "vm_ok s F pt" using assms(1) by (simp add: uspace_def)
    from upage_owned(2) [OF assms(1,2) up] obtain v where v: "owned s F pt i v" by blast
    then have pa: "vpte s pt i = Some v" "PTE2PA v \<noteq> 0" "v AND PTE_U \<noteq> 0"
      using up by (auto simp: owned_def page_ok_def upage_def)
    have "copyin pt (?va0 + PGSIZE) (len - ?n) s =
        (map (uview s pt) [unat (?va0 + PGSIZE)..<unat (?va0 + PGSIZE) + unat (len - ?n)], 0)"
      using less.prems urange_split [OF va, of len] by (intro less.hyps chunk_progress [OF False]) auto
    moreover have "mem_read (mem s) (PTE2PA v + of_nat off) (unat ?n) = map (uview s pt) [unat va..<unat va + unat ?n]"
    proof (rule nth_equalityI)
      fix x assume "x < length (mem_read (mem s) (PTE2PA v + of_nat off) (unat ?n))"
      then have x: "x < unat ?n" "off + x < 4096" using C(4) C(6) [of len] by auto
      then have "(unat va + x) div 4096 = i" "(unat va + x) mod 4096 = off + x" by (simp_all add: C(5) add.assoc)
      then show "mem_read (mem s) (PTE2PA v + of_nat off) (unat ?n) ! x = map (uview s pt) [unat va..<unat va + unat ?n] ! x"
        using x owned_frame [OF v] by (simp add: mem_read_nth uview_def add.assoc)
    qed simp
    moreover have "[unat va..<unat va + unat ?n] @ [unat (?va0 + PGSIZE)..<unat (?va0 + PGSIZE) + unat (len - ?n)] =
        [unat va..<unat va + unat len]"
    proof (cases "4096 - off \<le> unat len")
      case True
      then have "unat (?va0 + PGSIZE) = unat va + unat ?n" "unat (len - ?n) = unat len - unat ?n" "unat ?n \<le> unat len"
        using C(4) by (simp_all add: C(5,6,8,9) del: unat_sub)
      then show ?thesis using upt_add_eq_append [of "unat va" "unat va + unat ?n" "unat (len - ?n)"] by simp
    next
      case False
      then show ?thesis by (simp add: C(6,9) min_def)
    qed
    ultimately show ?thesis
      unfolding copyin_step [OF ok va False] i_def [symmetric] C(2) using pa by (simp add: map_append [symmetric] del: map_append)
  qed
qed

subsection \<open>New and grown address spaces\<close>

lemma uvmcreate_spec:
  assumes "free_pages s F" and "F \<noteq> {}"
  shows "\<exists>q s'. uvmcreate s = (q, s') \<and> q \<in> F \<and> q \<noteq> 0 \<and> uspace s' (F - {q}) q 0 (\<lambda>_. None) \<and>
    tree 2 (mem s') q = {q} \<and> same_off {q} (mem s) (mem s') \<and> page_ok s' = page_ok s"
proof -
  from km.alloc_page [OF assms] obtain q t where q: "kalloc s = (q, t)" "q \<in> F" "free_pages t (F - {q})"
    "page_ok t = page_ok s" "\<forall>y. \<not> in_page q y \<longrightarrow> mem t y = mem s y" by blast
  define u where "u = t\<lparr>mem := memset (mem t) q 0 4096\<rparr>"
  have ok: "page_ok s q" "pg_aligned q" "q \<noteq> 0" using km.free_usable [OF assms(1) q(2)] by (auto simp: page_ok_def)
  have Z: "wf_pt 2 (mem u) q" "tree 2 (mem u) q = {q}" "pmap 2 (mem u) q va = None" for va
    using zero_page [OF ok(2,3), of "mem u"] by (simp_all add: u_def memset_page)
  have "same_on (F - {q}) (mem t) (memset (mem t) q 0 4096)"
    by (rule same_off_on [of "{q}"])
      (use ok assms(1) in \<open>auto simp: same_off_def memset_page dest: km.free_usable page_ok_aligned\<close>)
  then have "free_pages u (F - {q})" unfolding u_def
    by (intro km.overwrite_free [OF q(3)]) (auto simp: same_on_def)
  moreover have pu: "page_ok u = page_ok s" using q(4) km.overwrite_simps(2) by (simp add: u_def)
  ultimately have "uspace u (F - {q}) q 0 (\<lambda>_. None)"
    using Z ok by (simp add: uspace_def vm_ok_def owned_range_def npages_def vpte_def)
  moreover have "same_off {q} (mem s) (mem u)" using q(5) by (simp add: same_off_def u_def memset_page)
  ultimately show ?thesis using q ok Z(2) pu by (auto simp: uvmcreate_def u_def)
qed

lemma uspace_added:
  assumes us: "uspace s F pt oldsz K" and ad: "added s F pt (npages oldsz) (npages newsz - npages oldsz) N s'"
    and sz: "oldsz \<le> newsz" "newsz \<le> MAXVA"
  shows "uspace s' (F - N - frames s' pt (npages oldsz) (npages newsz - npages oldsz)) pt newsz K"
proof -
  let ?i = "npages oldsz" and ?n = "npages newsz - npages oldsz"
  let ?A = "frames s' pt ?i ?n" and ?T = "tree 2 (mem s) pt"
  have n: "?i + ?n = npages newsz" "npages newsz \<le> NVP" using npages_mono [OF sz(1)] npages_le [OF sz(2)] by auto
  have a: "N \<subseteq> F" "?A \<subseteq> F - N" "vm_ok s' (F - N - ?A) pt" "page_ok s' = page_ok s"
    "owned_range s' (F - N - ?A) pt ?i ?n" "tree 2 (mem s') pt = ?T \<union> N"
    "\<And>j. \<not> (?i \<le> j \<and> j < ?i + ?n) \<Longrightarrow> vpte s' pt j = vpte s pt j" using ad by (auto simp: added_def)
  have F: "free_pages s F" using us by (simp add: uspace_def vm_ok_def)
  have old: "owned s' (F - N - ?A) pt j v" "frame s' pt j = frame s pt j" "frame s pt j \<notin> F"
    if "owned s F pt j v" "j < ?i" for j v
    using that a(1,4,6) a(7) [of j] owned_frame [OF that(1)] by (auto simp: owned_def frame_def)
  have own: "owned_range s F pt 0 ?i" using us by (simp add: uspace_def)
  have "owned_range s' (F - N - ?A) pt 0 (npages newsz)"
    unfolding owned_range_def
  proof (intro conjI ballI)
    fix j assume "j \<in> {0..<0 + npages newsz}"
    then show "\<exists>v. owned s' (F - N - ?A) pt j v"
      using owned_rangeD [OF own, of j] owned_rangeD [OF a(5), of j] old(1) [of j] n by (cases "j < ?i") auto
  next
    have "inj_on (frame s' pt) {0..<?i}"
      using own owned_rangeD [OF own] old(2) by (fastforce simp: owned_range_def inj_on_def)
    moreover have "inj_on (frame s' pt) {?i..<npages newsz}" using a(5) n(1) by (simp add: owned_range_def)
    moreover have "frame s' pt ` {0..<?i} \<inter> frame s' pt ` {?i..<npages newsz} = {}"
    proof -
      have "frame s' pt j \<notin> F" if "j < ?i" for j
        using owned_rangeD [OF own, of j] old(2,3) [of j] that by auto
      moreover have "frame s' pt ` {?i..<npages newsz} \<subseteq> F" using a(2) n(1) by (auto simp: frames_def)
      ultimately show ?thesis by fastforce
    qed
    ultimately have "inj_on (frame s' pt) ({0..<?i} \<union> {?i..<npages newsz})" by (auto simp: inj_on_Un)
    then show "inj_on (frame s' pt) {0..<0 + npages newsz}" using n(1) by (simp add: ivl_disj_un_two(3))
  qed (use n in simp)
  moreover have "\<forall>q\<in>tree 2 (mem s') pt. page_ok s' q"
    using us a(1,4,6) km.free_usable [OF F] by (auto simp: uspace_def)
  moreover have "vpte s' pt j = K j" if "npages newsz \<le> j" for j
    using us a(7) [of j] that n(1) by (auto simp: uspace_def)
  ultimately show ?thesis using a(3) sz(2) by (simp add: uspace_def)
qed

subsection \<open>An address space to start from\<close>

text \<open>
  Memory of zeroes with a table at 0x80022000 and four free pages: the state the witnesses use.
\<close>

definition boot_mem :: "memory" where
  "boot_mem = store64 (store64 (store64 (\<lambda>_. 0) 0x80023000 0x80024000) 0x80024000 0x80025000)
     0x80025000 0x80026000"

definition boot :: "pmem" where
  "boot = \<lparr>mem = boot_mem, freelist = 0x80023000, kend = 0x80021d50\<rparr>"

definition boot_free :: "uint64 set" where
  "boot_free = {0x80023000, 0x80024000, 0x80025000, 0x80026000}"

lemma load64_zero: "load64 (\<lambda>_. 0) a = 0"
  by (simp add: load64_def mem_read_def numeral_eq_Suc)

lemma boot_space:
  shows boot_uspace: "uspace boot boot_free 0x80022000 0 (\<lambda>_. None)" and boot_tree: "tree 2 (mem boot) 0x80022000 = {0x80022000}"
proof -
  have al: "pg_aligned 0x80022000" "(0x80022000 :: uint64) \<noteq> 0" by (simp_all add: pg_aligned_def)
  have z: "boot_mem y = 0" if y: "in_page 0x80022000 y" for y
  proof -
    have "\<not> in_page p y" if "pg_aligned p" "p \<noteq> 0x80022000" for p
      using in_page_unique [OF al(1) that(1) y] that(2) by blast
    then show ?thesis by (simp add: boot_mem_def store64_in_page pg_aligned_def)
  qed
  note Z = zero_page [OF al z]
  have "flist boot_mem 0x80023000 [0x80023000, 0x80024000, 0x80025000, 0x80026000]"
    by (simp add: boot_mem_def load64_store64_other load64_zero)
  then have "free_pages boot boot_free"
    by (auto simp: free_pages_def kmem_inv_def page_ok_def pg_aligned_def boot_def boot_free_def
        intro!: exI [of _ "[0x80023000, 0x80024000, 0x80025000, 0x80026000]"])
  then have "vm_ok boot boot_free 0x80022000" using Z by (simp add: vm_ok_def boot_def boot_free_def)
  moreover have "vpte boot 0x80022000 j = None" for j using Z by (simp add: vpte_def boot_def)
  moreover have "page_ok boot 0x80022000" by (simp add: page_ok_def boot_def pg_aligned_def)
  ultimately show "uspace boot boot_free 0x80022000 0 (\<lambda>_. None)"
    using Z by (simp add: uspace_def owned_range_def npages_def boot_def)
  show "tree 2 (mem boot) 0x80022000 = {0x80022000}" using Z by (simp add: boot_def)
qed

text \<open>After growing it by one writable page; a second, empty table lies at 0x80027000.\<close>

lemma boot_grown:
  "\<exists>s F. uspace s F 0x80022000 4096 (\<lambda>_. None) \<and> two_spaces s F 0x80022000 0x80027000 1 \<and>
    (\<forall>j. vpte s 0x80027000 j = None) \<and>
    vpte s 0x80022000 0 = Some (map_pte (frame s 0x80022000 0) 22 0)"
proof -
  let ?old = "0x80022000 :: uint64" and ?new = "0x80027000 :: uint64"
  have n: "npages 0 = 0" "npages 4096 = 1" by (simp_all add: npages_def)
  have ok: "vm_ok boot boot_free ?old" "\<And>j. vpte boot ?old j = None"
    using boot_uspace by (auto simp: uspace_def n)
  have fl: "PTE_FLAGS 4 = 4" by (simp add: PTE_FLAGS_def)
  have c: "card boot_free = 4" by (simp add: boot_free_def)
  from uvmalloc_spec [OF ok(1), of 0 4096 4] ok(2) fl c obtain s N where
    s: "added boot boot_free ?old 0 1 N s" "zeroed s ?old 0 1 22" by (auto simp: n)
  let ?F = "boot_free - N - frames s ?old 0 1"
  have us: "uspace s ?F ?old 4096 (\<lambda>_. None)"
    using uspace_added [OF boot_uspace, of 4096 N s] s(1) by (simp add: n)
  have al: "pg_aligned ?new" "?new \<noteq> 0" by (simp_all add: pg_aligned_def)
  have z: "boot_mem y = 0" "\<not> in_page p y" if y: "in_page ?new y" "p \<in> insert ?old boot_free" for p y
  proof -
    have o: "\<not> in_page p y" if "pg_aligned p" "p \<noteq> ?new" for p
      using in_page_unique [OF al(1) that(1) y(1)] that(2) by blast
    then show "boot_mem y = 0" by (simp add: boot_mem_def store64_in_page pg_aligned_def)
    show "\<not> in_page p y" using y(2) by (intro o) (auto simp: boot_free_def pg_aligned_def)
  qed
  have "tree 2 (mem boot) ?old = {?old}" by (rule boot_tree)
  then have off: "same_off (insert ?old boot_free) boot_mem (mem s)" and tr: "tree 2 (mem s) ?old \<subseteq> insert ?old boot_free"
    and A: "frames s ?old 0 1 \<subseteq> boot_free"
    using s(1) by (auto simp: added_def boot_def)
  have "mem s y = 0" if "in_page ?new y" for y
    using off z [OF that] unfolding same_off_def by (metis insertI1)
  note Z = zero_page [OF al this]
  have nf: "?new \<notin> insert ?old boot_free" by (simp add: boot_free_def)
  have "vm_ok s ?F ?new" using us Z nf by (auto simp: uspace_def vm_ok_def)
  then have "two_spaces s ?F ?old ?new 1"
    using us Z nf tr A by (auto simp: two_spaces_def uspace_def n)
  moreover have "vpte s ?new j = None" for j using Z by (simp add: vpte_def)
  ultimately show ?thesis using us s(2) by (auto simp: zeroed_def)
qed

subsection \<open>Properties\<close>

text \<open>
  C1. \<open>mappages\<close> implements the update of the address map: on pages that are not mapped it either
  maps the whole range, page by page, to the consecutive physical pages with the given
  permissions, or it returns -1 after mapping a proper prefix because every free page was used for
  the table. Other translations and all memory outside the table stay as they were.
\<close>

theorem mappages_refines_map:
  assumes "vm_ok s F pt" and "i + n \<le> NVP" and "0 < n" and "\<And>j. i \<le> j \<Longrightarrow> j < i + n \<Longrightarrow> vpte s pt j = None"
  shows "\<exists>r s' N k. mappages pt (pgaddr i) (pgaddr n) pa perm s = Inr (r, s') \<and> grows s F pt N s' \<and>
    vpte s' pt = map_range i k (map_pte pa perm) (vpte s pt) \<and>
    (r = 0 \<and> k = n \<or> r = -1 \<and> k < n \<and> N = F)"
  using mappages_spec [OF assms] .

theorem mappages_refines_map_witness:
  "\<exists>r s' N k. mappages 0x80022000 (pgaddr 3) (pgaddr 2) 0x80000000 2 boot = Inr (r, s') \<and>
     grows boot boot_free 0x80022000 N s' \<and>
     vpte s' 0x80022000 = map_range 3 k (map_pte 0x80000000 2) (vpte boot 0x80022000) \<and>
     (r = 0 \<and> k = 2 \<or> r = -1 \<and> k < 2 \<and> N = boot_free)"
proof -
  have "vm_ok boot boot_free 0x80022000" "\<And>j. vpte boot 0x80022000 j = None"
    using boot_uspace by (auto simp: uspace_def npages_def)
  then show ?thesis by (intro mappages_refines_map) auto
qed

text \<open>
  C2. Growing a process with \<open>uvmalloc\<close>: it returns the new size and the pages up to it are mapped
  user-readable to fresh zeroed pages, or it returns 0, the mapping is exactly as before and every
  page it had allocated for data is free again; with more than three free pages per new page it
  does not fail.
\<close>

theorem uvmalloc_grows_or_restores:
  assumes "uspace s F pt oldsz K" and "oldsz \<le> newsz" and "newsz \<le> MAXVA" and "PTE_FLAGS xperm = xperm"
    and "\<And>j. npages oldsz \<le> j \<Longrightarrow> j < npages newsz \<Longrightarrow> K j = None"
  shows "\<exists>r s' N. uvmalloc pt oldsz newsz xperm s = Inr (r, s') \<and>
    (r = newsz \<and> added s F pt (npages oldsz) (npages newsz - npages oldsz) N s' \<and>
       zeroed s' pt (npages oldsz) (npages newsz - npages oldsz) (PTE_R OR PTE_U OR xperm) \<or>
     r = 0 \<and> restored s F pt N s' \<and> card F \<le> 3 * (npages newsz - npages oldsz))"
  using assms by (intro uvmalloc_spec) (auto simp: uspace_def)

theorem uvmalloc_grows_or_restores_witness:
  "\<exists>r s' N. uvmalloc 0x80022000 0 0x2000 4 boot = Inr (r, s') \<and>
    (r = 0x2000 \<and> added boot boot_free 0x80022000 (npages 0) (npages 0x2000 - npages 0) N s' \<and>
       zeroed s' 0x80022000 (npages 0) (npages 0x2000 - npages 0) (PTE_R OR PTE_U OR 4) \<or>
     r = 0 \<and> restored boot boot_free 0x80022000 N s' \<and> card boot_free \<le> 3 * (npages 0x2000 - npages 0))"
  by (rule uvmalloc_grows_or_restores [OF boot_uspace]) (simp_all add: PTE_FLAGS_def)

text \<open>
  C3. \<open>uvmfree\<close> of an address space returns every page of it: exactly the user pages and the pages
  of the table join the free pages, and no panic is reached (\<open>freewalk\<close> finds no leaf and needs to
  descend no deeper than the three levels of the table).
\<close>

theorem uvmfree_returns_all_pages:
  assumes "uspace s F pt sz (\<lambda>_. None)"
  shows "\<exists>s'. uvmfree pt sz s = Inr s' \<and> free_pages s' (F \<union> (frames s pt 0 (npages sz) \<union> tree 2 (mem s) pt))"
  using uvmfree_spec [OF assms] by (auto simp: freed_def)

theorem uvmfree_returns_all_pages_witness:
  "\<exists>s'. uvmfree 0x80022000 0 boot = Inr s' \<and>
    free_pages s' (boot_free \<union> (frames boot 0x80022000 0 (npages 0) \<union> tree 2 (mem boot) 0x80022000))"
  by (rule uvmfree_returns_all_pages [OF boot_uspace])

text \<open>
  C4. \<open>uvmcopy\<close>, the memory part of fork: the child gets, page by page, fresh pages with the same
  contents and the same permission bits as the parent's, or -1 is returned and the child's
  table maps what it mapped before, with all data pages free again. The parent's memory does not change.
\<close>

theorem uvmcopy_copies_or_restores:
  assumes "two_spaces s F old new (npages sz)" and "sz \<le> MAXVA" and "\<And>j. j < npages sz \<Longrightarrow> vpte s new j = None"
  shows "\<exists>r s' N. uvmcopy old new sz s = Inr (r, s') \<and>
    (r = 0 \<and> added s F new 0 (npages sz) N s' \<and> copied s' old new (npages sz) \<or>
     r = -1 \<and> restored s F new N s' \<and> card F \<le> 3 * npages sz)"
  by (rule uvmcopy_spec [OF assms])

theorem uvmcopy_copies_or_restores_witness:
  "\<exists>s F. two_spaces s F 0x80022000 0x80027000 (npages 4096) \<and>
    (\<exists>r s' N. uvmcopy 0x80022000 0x80027000 4096 s = Inr (r, s') \<and>
    (r = 0 \<and> added s F 0x80027000 0 (npages 4096) N s' \<and> copied s' 0x80022000 0x80027000 (npages 4096) \<or>
     r = -1 \<and> restored s F 0x80027000 N s' \<and> card F \<le> 3 * npages 4096))"
proof -
  have n: "npages 4096 = 1" by (simp add: npages_def)
  from boot_grown obtain s F where s: "two_spaces s F 0x80022000 0x80027000 (npages 4096)"
    "\<And>j. vpte s 0x80027000 j = None" unfolding n by blast
  show ?thesis using uvmcopy_copies_or_restores [OF s(1) _ s(2)] s(1) by (intro exI [of _ s] exI [of _ F]) simp
qed

text \<open>
  C5. What \<open>copyout\<close> stores at a user address, \<open>copyin\<close> reads back, across page boundaries and
  wherever the pages lie in physical memory.
\<close>

theorem copyout_copyin_roundtrip:
  assumes "uspace s F pt sz K" and "kernel_only K" and "length src = unat len" and "copyout pt va src len s = (0, s')"
  shows "copyin pt va len s' = (src, 0)"
proof -
  from copyout_spec [OF assms] have us: "uspace s' F pt sz K" "vpte s' pt = vpte s pt"
    and up: "\<And>a. urange va len a \<Longrightarrow> upage s pt (a div 4096)"
    and view: "\<And>a. a < 4096 * npages sz \<Longrightarrow> uview s' pt a = (if urange va len a then src ! (a - unat va) else uview s pt a)"
    by blast+
  have "upage s' pt = upage s pt" by (simp add: upage_def us(2) fun_eq_iff)
  then have "copyin pt va len s' = (map (uview s' pt) [unat va..<unat va + unat len], 0)"
    using up by (intro copyin_spec [OF us(1) assms(2)]) simp
  moreover have "map (uview s' pt) [unat va..<unat va + unat len] = src"
  proof (rule nth_equalityI)
    fix x assume x: "x < length (map (uview s' pt) [unat va..<unat va + unat len])"
    then have r: "urange va len (unat va + x)" by (simp add: urange_def)
    have "(unat va + x) div 4096 < npages sz" using upage_owned(1) [OF assms(1,2) up [OF r]] .
    then have "unat va + x < 4096 * npages sz" by (simp add: div_less_iff_less_mult mult.commute)
    from view [OF this] r x show "map (uview s' pt) [unat va..<unat va + unat len] ! x = src ! x" by simp
  qed (simp add: assms(3))
  ultimately show ?thesis by simp
qed

theorem copyout_copyin_roundtrip_witness:
  "\<exists>s s'. copyout 0x80022000 0x10 [1, 2, 3] 3 s = (0, s') \<and> copyin 0x80022000 0x10 3 s' = ([1, 2, 3], 0)"
proof -
  from boot_grown obtain s F where s: "uspace s F 0x80022000 4096 (\<lambda>_. None)"
    "vpte s 0x80022000 0 = Some (map_pte (frame s 0x80022000 0) 22 0)" by blast
  let ?v = "map_pte (frame s 0x80022000 0) 22 0"
  have ok: "vm_ok s F 0x80022000" using s(1) by (simp add: uspace_def)
  have fl: "PTE_FLAGS ?v = 23" by (subst map_pte_flags) (simp_all add: PTE_FLAGS_def)
  have "?v AND 16 = PTE_FLAGS ?v AND 16" "?v AND 4 = PTE_FLAGS ?v AND 4"
    by (simp_all add: PTE_FLAGS_def and.assoc)
  then have b: "?v AND 16 \<noteq> 0" "?v AND 4 \<noteq> 0" by (simp_all add: fl)
  have ch: "chunk 0x10 3 = 3" by (simp add: chunk_def PGROUNDDOWN_def)
  have "copyout 0x80022000 0x10 [1, 2, 3] 3 s = copyout 0x80022000 (PGROUNDDOWN 0x10 + PGSIZE) [] 0
      (s\<lparr>mem := mem_write (mem s) (PTE2PA ?v + (0x10 - PGROUNDDOWN 0x10)) [1, 2, 3]\<rparr>)"
    using s(2) b by (subst copyout_step [OF ok]) (simp_all add: ch)
  then obtain s' where s': "copyout 0x80022000 0x10 [1, 2, 3] 3 s = (0, s')"
    by (subst (asm) (2) copyout.simps) simp
  have "copyin 0x80022000 0x10 3 s' = ([1, 2, 3], 0)"
    by (rule copyout_copyin_roundtrip [OF s(1) _ _ s']) (simp_all add: kernel_only_def)
  with s' show ?thesis by blast
qed

end
