(* ===== verification/Types.thy ===== *)
theory Types
  imports Uspace
begin

section \<open>The kernel's data: proc.h, file.h, fs.h, trap.h\<close>

text \<open>
  The structures of the kernel's headers and the state that the process, file and trap components
  share. Table entries are numbered, so a pointer into a table is an index or null; a thread is
  pointed to by the number of its process and its index there. Trapframes, page tables and pipes
  live in physical pages and are pointed to by address. A sleep channel, in the code the address
  of some object, is a value of the type \<open>chan\<close>, one constructor per kind of object.
\<close>

subsection \<open>proc.h\<close>

datatype procstate = UNUSED | USED | SLEEPING | RUNNABLE | RUNNING | ZOMBIE

datatype thread_state = THREAD_FREE | THREAD_RUNNABLE | THREAD_RUNNING | THREAD_JOINED

text \<open>\<open>ssched\<close> stores any int in \<open>sched_type\<close>: \<open>OtherSched\<close> is a value other than the two constants.\<close>

datatype scheduler = RR | MinCU | OtherSched

datatype chan = ChanProc nat | ChanTicks | ChanPipeRead uint64 | ChanPipeWrite uint64 | ChanLog
  | ChanCons | ChanUart | ChanLock nat | ChanBuf nat | ChanDesc

record kcontext =
  ctx_ra :: uint64
  ctx_sp :: uint64
  ctx_s :: "uint64 list"

record cpu_usage =
  sum_of_ticks :: uint
  start_tick :: uint
  quota :: uint

record thread =
  t_state :: thread_state
  t_trapframe :: uint64
  t_cpu :: ptr
  t_id :: uint
  t_join :: uint

record proc =
  p_state :: procstate
  p_chan :: "chan option"
  p_killed :: bool
  p_xstate :: cint
  p_pid :: cint
  p_parent :: ptr
  p_kstack :: uint64
  p_sz :: uint64
  p_pagetable :: uint64
  p_trapframe :: uint64
  p_context :: kcontext
  p_ofile :: "nat \<Rightarrow> ptr"
  p_cwd :: ptr
  p_name :: "byte list"
  p_threads :: "nat \<Rightarrow> thread"
  p_last_running_thread_index :: nat
  p_running_threads_count :: int
  p_cpu_usage :: cpu_usage
  p_deadline :: uint

record kcpu =
  c_proc :: ptr
  c_thread :: "(nat \<times> nat) option"
  c_noff :: int
  c_intena :: bool
  c_sie :: bool

record proc_info =
  pi_name :: "byte list"
  pi_pid :: cint
  pi_ppid :: cint
  pi_state :: procstate
  pi_cpu_usage :: cpu_usage

text \<open>Offsets of the trapframe's fields, and its size.\<close>

abbreviation (input) TF_KERNEL_SATP :: uint64 where "TF_KERNEL_SATP \<equiv> 0"
abbreviation (input) TF_KERNEL_SP :: uint64 where "TF_KERNEL_SP \<equiv> 8"
abbreviation (input) TF_KERNEL_TRAP :: uint64 where "TF_KERNEL_TRAP \<equiv> 16"
abbreviation (input) TF_EPC :: uint64 where "TF_EPC \<equiv> 24"
abbreviation (input) TF_KERNEL_HARTID :: uint64 where "TF_KERNEL_HARTID \<equiv> 32"
abbreviation (input) TF_RA :: uint64 where "TF_RA \<equiv> 40"
abbreviation (input) TF_SP :: uint64 where "TF_SP \<equiv> 48"
abbreviation (input) TF_A0 :: uint64 where "TF_A0 \<equiv> 112"
abbreviation (input) TF_A7 :: uint64 where "TF_A7 \<equiv> 168"
abbreviation (input) TF_SIZE :: nat where "TF_SIZE \<equiv> 288"

subsection \<open>trap.h\<close>

abbreviation (input) REPORT_BUFFER_SIZE :: nat where "REPORT_BUFFER_SIZE \<equiv> 10"

text \<open>\<open>r_ancestors\<close> holds the first \<open>ancestors_count\<close> elements of the array.\<close>

record report =
  r_pname :: "byte list"
  r_pid :: cint
  r_ancestors :: "cint list"
  r_scause :: uint64
  r_sepc :: uint64
  r_stval :: uint64

record internal_report_list =
  rl_reports :: "nat \<Rightarrow> report"
  rl_count :: int
  rl_write_index :: nat

subsection \<open>file.h and fs.h\<close>

abbreviation (input) NDIRECT :: nat where "NDIRECT \<equiv> 12"
abbreviation (input) BSIZE :: nat where "BSIZE \<equiv> 1024"
abbreviation (input) NINDIRECT :: nat where "NINDIRECT \<equiv> 256"
abbreviation (input) MAXFILE :: nat where "MAXFILE \<equiv> NDIRECT + NINDIRECT"
abbreviation (input) DIRSIZ :: nat where "DIRSIZ \<equiv> 14"
abbreviation (input) ROOTINO :: uint where "ROOTINO \<equiv> 1"
abbreviation (input) T_DIR :: ushort where "T_DIR \<equiv> 1"
abbreviation (input) T_FILE :: ushort where "T_FILE \<equiv> 2"
abbreviation (input) T_DEVICE :: ushort where "T_DEVICE \<equiv> 3"

datatype file_type = FD_NONE | FD_PIPE | FD_INODE | FD_DEVICE

record kfile =
  f_type :: file_type
  f_ref :: int
  f_readable :: bool
  f_writable :: bool
  f_pipe :: uint64
  f_ip :: ptr
  f_off :: uint
  f_major :: ushort

text \<open>The sleep lock of an inode is the pid of its holder, or None.\<close>

record inode =
  i_dev :: uint
  i_inum :: uint
  i_ref :: int
  i_lock :: "cint option"
  i_valid :: bool
  i_type :: ushort
  i_major :: ushort
  i_minor :: ushort
  i_nlink :: ushort
  i_size :: uint
  i_addrs :: "nat \<Rightarrow> uint"

text \<open>A disk block is its \<open>BSIZE\<close> bytes, by offset.\<close>

type_synonym block = "nat \<Rightarrow> byte"

record superblock =
  sb_magic :: uint
  sb_size :: uint
  sb_nblocks :: uint
  sb_ninodes :: uint
  sb_nlog :: uint
  sb_logstart :: uint
  sb_inodestart :: uint
  sb_bmapstart :: uint

record dinode =
  di_type :: ushort
  di_major :: ushort
  di_minor :: ushort
  di_nlink :: ushort
  di_size :: uint
  di_addrs :: "nat \<Rightarrow> uint"

record dirent =
  de_inum :: ushort
  de_name :: "byte list"

subsection \<open>buf.h, log.c, pipe.c, console.c and uart.c\<close>

text \<open>
  The buffers are numbered; number \<open>NBUF\<close> stands for \<open>bcache.head\<close> in the pointers \<open>prev\<close> and
  \<open>next\<close>. The sleep lock of a buffer is the pid of its holder, or None.
\<close>

record buf =
  b_valid :: bool
  b_disk :: bool
  b_dev :: uint
  b_blockno :: uint
  b_lock :: "cint option"
  b_refcnt :: uint
  b_prev :: nat
  b_next :: nat
  b_data :: block

record logheader =
  lh_n :: int
  lh_block :: "nat \<Rightarrow> uint"

record log =
  lg_start :: uint
  lg_size :: int
  lg_outstanding :: int
  lg_committing :: bool
  lg_dev :: uint
  lg_lh :: logheader

text \<open>The structure that a pipe keeps in its page, without the lock.\<close>

record pipe =
  pi_data :: "nat \<Rightarrow> byte"
  pi_nread :: uint
  pi_nwrite :: uint
  pi_readopen :: bool
  pi_writeopen :: bool

record console =
  cons_buf :: "nat \<Rightarrow> byte"
  cons_r :: uint
  cons_w :: uint
  cons_e :: uint

text \<open>
  The transmit buffer of the uart, and the device: \<open>u_lsr n\<close> is what the n-th read of the line
  status register returns, apart from the receive bit, which says whether \<open>u_in\<close> has a byte;
  \<open>u_reads\<close> is the number of reads so far, \<open>u_out\<close> the bytes written to the transmit holding
  register and \<open>u_in\<close> those that have arrived and are not yet read.
\<close>

record uart =
  uart_tx_buf :: "nat \<Rightarrow> byte"
  uart_tx_w :: uint64
  uart_tx_r :: uint64
  u_lsr :: "nat \<Rightarrow> byte"
  u_reads :: nat
  u_out :: "byte list"
  u_in :: "byte list"

datatype device = Console_device

subsection \<open>The state of the kernel\<close>

text \<open>
  \<open>disk\<close> is the content of the disk by block number and \<open>disk_writes\<close> the history of the writes it
  has completed, oldest first; the history is not part of the program. \<open>pipes\<close> is the structure at
  each address that holds a pipe.
\<close>

record kernel =
  pm :: pmem
  procs :: "nat \<Rightarrow> proc"
  initproc :: ptr
  nextpid :: cint
  nexttid :: cint
  kcpus :: "nat \<Rightarrow> kcpu"
  plock :: "nat \<Rightarrow> nat option"
  ticks :: uint
  sched_type :: scheduler
  replist :: internal_report_list
  ftable :: "nat \<Rightarrow> kfile"
  itable :: "nat \<Rightarrow> inode"
  kftable :: "nat \<Rightarrow> kfile"
  devsw :: "nat \<Rightarrow> device option"
  sb :: superblock
  klog :: log
  bufs :: "nat \<Rightarrow> buf"
  disk :: "uint \<Rightarrow> block"
  disk_writes :: "(uint \<times> block) list"
  cons :: console
  uart :: uart
  pipes :: "uint64 \<Rightarrow> pipe"

definition upd_proc :: "nat \<Rightarrow> (proc \<Rightarrow> proc) \<Rightarrow> kernel \<Rightarrow> kernel" where
  "upd_proc i f k = k\<lparr>procs := (procs k)(i := f (procs k i))\<rparr>"

definition upd_cpu :: "nat \<Rightarrow> (kcpu \<Rightarrow> kcpu) \<Rightarrow> kernel \<Rightarrow> kernel" where
  "upd_cpu c f k = k\<lparr>kcpus := (kcpus k)(c := f (kcpus k c))\<rparr>"

definition upd_thread :: "nat \<Rightarrow> nat \<Rightarrow> (thread \<Rightarrow> thread) \<Rightarrow> kernel \<Rightarrow> kernel" where
  "upd_thread i j f k = upd_proc i (\<lambda>p. p\<lparr>p_threads := (p_threads p)(j := f (p_threads p j))\<rparr>) k"

definition upd_buf :: "nat \<Rightarrow> (buf \<Rightarrow> buf) \<Rightarrow> kernel \<Rightarrow> kernel" where
  "upd_buf b f k = k\<lparr>bufs := (bufs k)(b := f (bufs k b))\<rparr>"

definition upd_inode :: "nat \<Rightarrow> (inode \<Rightarrow> inode) \<Rightarrow> kernel \<Rightarrow> kernel" where
  "upd_inode i f k = k\<lparr>itable := (itable k)(i := f (itable k i))\<rparr>"

definition upd_file :: "nat \<Rightarrow> (kfile \<Rightarrow> kfile) \<Rightarrow> kernel \<Rightarrow> kernel" where
  "upd_file f g k = k\<lparr>ftable := (ftable k)(f := g (ftable k f))\<rparr>"

lemma upd_proc_simps [simp]:
  "procs (upd_proc i f k) = (procs k)(i := f (procs k i))" "pm (upd_proc i f k) = pm k"
  "initproc (upd_proc i f k) = initproc k" "nextpid (upd_proc i f k) = nextpid k"
  "nexttid (upd_proc i f k) = nexttid k" "kcpus (upd_proc i f k) = kcpus k" "plock (upd_proc i f k) = plock k"
  "ticks (upd_proc i f k) = ticks k" "sched_type (upd_proc i f k) = sched_type k" "replist (upd_proc i f k) = replist k"
  "ftable (upd_proc i f k) = ftable k" "itable (upd_proc i f k) = itable k" "kftable (upd_proc i f k) = kftable k"
  "devsw (upd_proc i f k) = devsw k" "sb (upd_proc i f k) = sb k" "klog (upd_proc i f k) = klog k"
  "bufs (upd_proc i f k) = bufs k" "disk (upd_proc i f k) = disk k" "disk_writes (upd_proc i f k) = disk_writes k"
  "cons (upd_proc i f k) = cons k" "uart (upd_proc i f k) = uart k" "pipes (upd_proc i f k) = pipes k"
  by (simp_all add: upd_proc_def)

lemma upd_cpu_simps [simp]:
  "procs (upd_cpu c f k) = procs k" "pm (upd_cpu c f k) = pm k"
  "initproc (upd_cpu c f k) = initproc k" "nextpid (upd_cpu c f k) = nextpid k"
  "nexttid (upd_cpu c f k) = nexttid k" "kcpus (upd_cpu c f k) = (kcpus k)(c := f (kcpus k c))"
  "plock (upd_cpu c f k) = plock k" "ticks (upd_cpu c f k) = ticks k"
  "sched_type (upd_cpu c f k) = sched_type k" "replist (upd_cpu c f k) = replist k"
  "ftable (upd_cpu c f k) = ftable k" "itable (upd_cpu c f k) = itable k"
  by (simp_all add: upd_cpu_def)

lemma upd_buf_simps [simp]:
  "bufs (upd_buf b f k) = (bufs k)(b := f (bufs k b))" "pm (upd_buf b f k) = pm k" "procs (upd_buf b f k) = procs k"
  "initproc (upd_buf b f k) = initproc k" "nextpid (upd_buf b f k) = nextpid k" "nexttid (upd_buf b f k) = nexttid k"
  "kcpus (upd_buf b f k) = kcpus k" "plock (upd_buf b f k) = plock k" "ticks (upd_buf b f k) = ticks k"
  "sched_type (upd_buf b f k) = sched_type k" "replist (upd_buf b f k) = replist k" "ftable (upd_buf b f k) = ftable k"
  "itable (upd_buf b f k) = itable k" "kftable (upd_buf b f k) = kftable k" "devsw (upd_buf b f k) = devsw k"
  "sb (upd_buf b f k) = sb k" "klog (upd_buf b f k) = klog k" "disk (upd_buf b f k) = disk k"
  "disk_writes (upd_buf b f k) = disk_writes k" "cons (upd_buf b f k) = cons k" "uart (upd_buf b f k) = uart k"
  "pipes (upd_buf b f k) = pipes k"
  by (simp_all add: upd_buf_def)

lemma upd_inode_simps [simp]:
  "itable (upd_inode ip f k) = (itable k)(ip := f (itable k ip))" "pm (upd_inode ip f k) = pm k"
  "procs (upd_inode ip f k) = procs k" "initproc (upd_inode ip f k) = initproc k"
  "nextpid (upd_inode ip f k) = nextpid k" "nexttid (upd_inode ip f k) = nexttid k"
  "kcpus (upd_inode ip f k) = kcpus k" "plock (upd_inode ip f k) = plock k" "ticks (upd_inode ip f k) = ticks k"
  "sched_type (upd_inode ip f k) = sched_type k" "replist (upd_inode ip f k) = replist k"
  "ftable (upd_inode ip f k) = ftable k" "kftable (upd_inode ip f k) = kftable k" "devsw (upd_inode ip f k) = devsw k"
  "sb (upd_inode ip f k) = sb k" "klog (upd_inode ip f k) = klog k" "bufs (upd_inode ip f k) = bufs k"
  "disk (upd_inode ip f k) = disk k" "disk_writes (upd_inode ip f k) = disk_writes k"
  "cons (upd_inode ip f k) = cons k" "uart (upd_inode ip f k) = uart k" "pipes (upd_inode ip f k) = pipes k"
  by (simp_all add: upd_inode_def)

lemma upd_file_simps [simp]:
  "ftable (upd_file g f k) = (ftable k)(g := f (ftable k g))" "pm (upd_file g f k) = pm k"
  "procs (upd_file g f k) = procs k" "initproc (upd_file g f k) = initproc k" "nextpid (upd_file g f k) = nextpid k"
  "nexttid (upd_file g f k) = nexttid k" "kcpus (upd_file g f k) = kcpus k" "plock (upd_file g f k) = plock k"
  "ticks (upd_file g f k) = ticks k" "sched_type (upd_file g f k) = sched_type k"
  "replist (upd_file g f k) = replist k" "itable (upd_file g f k) = itable k" "kftable (upd_file g f k) = kftable k"
  "devsw (upd_file g f k) = devsw k" "sb (upd_file g f k) = sb k" "klog (upd_file g f k) = klog k"
  "bufs (upd_file g f k) = bufs k" "disk (upd_file g f k) = disk k" "disk_writes (upd_file g f k) = disk_writes k"
  "cons (upd_file g f k) = cons k" "uart (upd_file g f k) = uart k" "pipes (upd_file g f k) = pipes k"
  by (simp_all add: upd_file_def)

text \<open>
  A function that may sleep either returns or, after releasing its lock, waits on a channel and
  goes on from the loop it slept in, with its local variables, when it is woken.
\<close>

datatype ('a, 'l) outcome = Return 'a | Sleep chan 'l

text \<open>
  In the file system, whose functions take sleep locks and wait for the log, \<open>blocked\<close> is the
  result of a call that would have to wait here. Other processes run in the meantime, so nothing
  is claimed about such a call; a result \<open>Inr\<close> is that of a call that went through.
\<close>

abbreviation blocked :: "'a res" where
  "blocked \<equiv> Inl ''blocked''"

text \<open>The state of zero-initialised tables; the concrete examples start from it.\<close>

definition blank_thread :: thread where
  "blank_thread = \<lparr>t_state = THREAD_FREE, t_trapframe = 0, t_cpu = None, t_id = 0, t_join = 0\<rparr>"

definition blank_proc :: proc where
  "blank_proc = \<lparr>p_state = UNUSED, p_chan = None, p_killed = False, p_xstate = 0, p_pid = 0, p_parent = None,
     p_kstack = 0, p_sz = 0, p_pagetable = 0, p_trapframe = 0,
     p_context = \<lparr>ctx_ra = 0, ctx_sp = 0, ctx_s = replicate 12 0\<rparr>, p_ofile = (\<lambda>_. None), p_cwd = None,
     p_name = replicate 16 0, p_threads = (\<lambda>_. blank_thread), p_last_running_thread_index = 0,
     p_running_threads_count = 0, p_cpu_usage = \<lparr>sum_of_ticks = 0, start_tick = 0, quota = 0\<rparr>, p_deadline = 0\<rparr>"

definition blank_file :: kfile where
  "blank_file = \<lparr>f_type = FD_NONE, f_ref = 0, f_readable = False, f_writable = False, f_pipe = 0, f_ip = None,
     f_off = 0, f_major = 0\<rparr>"

definition blank_inode :: inode where
  "blank_inode = \<lparr>i_dev = 0, i_inum = 0, i_ref = 0, i_lock = None, i_valid = False, i_type = 0, i_major = 0,
     i_minor = 0, i_nlink = 0, i_size = 0, i_addrs = (\<lambda>_. 0)\<rparr>"

definition blank_buf :: buf where
  "blank_buf = \<lparr>b_valid = False, b_disk = False, b_dev = 0, b_blockno = 0, b_lock = None, b_refcnt = 0,
     b_prev = 0, b_next = 0, b_data = (\<lambda>_. 0)\<rparr>"

definition blank_report :: report where
  "blank_report = \<lparr>r_pname = [], r_pid = 0, r_ancestors = [], r_scause = 0, r_sepc = 0, r_stval = 0\<rparr>"

definition blank_kernel :: kernel where
  "blank_kernel = \<lparr>pm = boot, procs = (\<lambda>_. blank_proc), initproc = None, nextpid = 1, nexttid = 1,
     kcpus = (\<lambda>_. \<lparr>c_proc = None, c_thread = None, c_noff = 0, c_intena = False, c_sie = False\<rparr>),
     plock = (\<lambda>_. None), ticks = 0, sched_type = MinCU,
     replist = \<lparr>rl_reports = (\<lambda>_. blank_report), rl_count = 0, rl_write_index = 0\<rparr>,
     ftable = (\<lambda>_. blank_file), itable = (\<lambda>_. blank_inode), kftable = (\<lambda>_. blank_file), devsw = (\<lambda>_. None),
     sb = \<lparr>sb_magic = 0, sb_size = 0, sb_nblocks = 0, sb_ninodes = 0, sb_nlog = 0, sb_logstart = 0,
       sb_inodestart = 0, sb_bmapstart = 0\<rparr>,
     klog = \<lparr>lg_start = 0, lg_size = 0, lg_outstanding = 0, lg_committing = False, lg_dev = 0,
       lg_lh = \<lparr>lh_n = 0, lh_block = (\<lambda>_. 0)\<rparr>\<rparr>,
     bufs = (\<lambda>_. blank_buf), disk = (\<lambda>_ _. 0), disk_writes = [],
     cons = \<lparr>cons_buf = (\<lambda>_. 0), cons_r = 0, cons_w = 0, cons_e = 0\<rparr>,
     uart = \<lparr>uart_tx_buf = (\<lambda>_. 0), uart_tx_w = 0, uart_tx_r = 0, u_lsr = (\<lambda>_. 0x20), u_reads = 0, u_out = [], u_in = []\<rparr>,
     pipes = (\<lambda>_. \<lparr>pi_data = (\<lambda>_. 0), pi_nread = 0, pi_nwrite = 0, pi_readopen = False, pi_writeopen = False\<rparr>)\<rparr>"

end
