(* ===== verification/Proc.thy ===== *)
theory Proc
  imports Types
begin

section \<open>kernel/proc.c: processes\<close>

text \<open>
  Creation, growth, exit and collection of processes. A CPU is its number c and \<open>myproc\<close> is the
  process it runs. \<open>trampoline\<close> and \<open>forkret\<close>, addresses fixed by the linker, are arguments. The
  sections that \<open>p->lock\<close>, \<open>wait_lock\<close>, \<open>pid_lock\<close> and \<open>tid_lock\<close> bracket are single steps here;
  the theory \<open>Sched\<close> has the places where a process lock is handed over.
\<close>

subsection \<open>Tables the processes refer to: file.c and fs.c\<close>

definition filealloc :: "kernel \<Rightarrow> ptr \<times> kernel" where
  "filealloc k =
     (case List.find (\<lambda>f. f_ref (ftable k f) = 0) [0..<NFILE] of
        None \<Rightarrow> (None, k)
      | Some f \<Rightarrow> (Some f, k\<lparr>ftable := (ftable k)(f := (ftable k f)\<lparr>f_ref := 1\<rparr>)\<rparr>))"

definition filedup :: "nat \<Rightarrow> kernel \<Rightarrow> kernel res" where
  "filedup f k =
     (if f_ref (ftable k f) < 1 then panic ''filedup''
      else Inr (k\<lparr>ftable := (ftable k)(f := (ftable k f)\<lparr>f_ref := f_ref (ftable k f) + 1\<rparr>)\<rparr>))"

definition iget :: "uint \<Rightarrow> uint \<Rightarrow> kernel \<Rightarrow> (nat \<times> kernel) res" where
  "iget dev inum k =
     (case List.find (\<lambda>i. i_ref (itable k i) > 0 \<and> i_dev (itable k i) = dev \<and> i_inum (itable k i) = inum) [0..<NINODE] of
        Some i \<Rightarrow> Inr (i, k\<lparr>itable := (itable k)(i := (itable k i)\<lparr>i_ref := i_ref (itable k i) + 1\<rparr>)\<rparr>)
      | None \<Rightarrow>
          (case List.find (\<lambda>i. i_ref (itable k i) = 0) [0..<NINODE] of
             None \<Rightarrow> panic ''iget: no inodes''
           | Some i \<Rightarrow> Inr (i, k\<lparr>itable := (itable k)(i := (itable k i)
               \<lparr>i_dev := dev, i_inum := inum, i_ref := 1, i_valid := False\<rparr>)\<rparr>)))"

definition idup :: "nat \<Rightarrow> kernel \<Rightarrow> kernel" where
  "idup i k = k\<lparr>itable := (itable k)(i := (itable k i)\<lparr>i_ref := i_ref (itable k i) + 1\<rparr>)\<rparr>"

subsection \<open>Identities\<close>

definition procinit :: "kernel \<Rightarrow> kernel" where
  "procinit k = fold (\<lambda>i. upd_proc i (\<lambda>p. p\<lparr>p_state := UNUSED, p_kstack := KSTACK i\<rparr>)) [0..<NPROC] k"

definition myproc :: "nat \<Rightarrow> kernel \<Rightarrow> ptr" where
  "myproc c k = c_proc (kcpus k c)"

definition allocpid :: "kernel \<Rightarrow> cint \<times> kernel" where
  "allocpid k = (nextpid k, k\<lparr>nextpid := nextpid k + 1\<rparr>)"

definition alloctid :: "kernel \<Rightarrow> cint \<times> kernel" where
  "alloctid k = (nexttid k, k\<lparr>nexttid := nexttid k + 1\<rparr>)"

subsection \<open>Page tables of processes\<close>

definition proc_pagetable :: "uint64 \<Rightarrow> uint64 \<Rightarrow> pmem \<Rightarrow> (uint64 \<times> pmem) res" where
  "proc_pagetable trampoline tf s =
     (let (pagetable, s1) = uvmcreate s
      in if pagetable = 0 then Inr (0, s1)
         else bindR (mappages pagetable TRAMPOLINE PGSIZE trampoline (PTE_R OR PTE_X) s1) (\<lambda>(r, s2).
           if r < 0 then bindR (uvmfree pagetable 0 s2) (\<lambda>s3. Inr (0, s3))
           else bindR (mappages pagetable TRAPFRAME PGSIZE tf (PTE_R OR PTE_W) s2) (\<lambda>(r, s3).
             if r < 0 then
               bindR (uvmunmap pagetable TRAMPOLINE 1 False s3) (\<lambda>s4.
                 bindR (uvmfree pagetable 0 s4) (\<lambda>s5. Inr (0, s5)))
             else Inr (pagetable, s3))))"

definition proc_freepagetable :: "uint64 \<Rightarrow> uint64 \<Rightarrow> pmem \<Rightarrow> pmem res" where
  "proc_freepagetable pagetable sz s =
     bindR (uvmunmap pagetable TRAMPOLINE 1 False s) (\<lambda>s1.
       bindR (uvmunmap pagetable TRAPFRAME 1 False s1) (uvmfree pagetable sz))"

subsection \<open>freeproc and allocproc\<close>

definition freeproc :: "nat \<Rightarrow> kernel \<Rightarrow> kernel res" where
  "freeproc i k =
     (let p = procs k i
      in bindR (if p_trapframe p \<noteq> 0 then kfree (p_trapframe p) (pm k) else Inr (pm k)) (\<lambda>s1.
         bindR (if p_pagetable p \<noteq> 0 then proc_freepagetable (p_pagetable p) (p_sz p) s1 else Inr s1) (\<lambda>s2.
           Inr (upd_proc i (\<lambda>p. p\<lparr>p_trapframe := 0, p_pagetable := 0, p_sz := 0, p_pid := 0,
               p_parent := None, p_name := (p_name p)[0 := 0], p_chan := None, p_killed := False, p_xstate := 0,
               p_state := UNUSED\<rparr>) (k\<lparr>pm := s2\<rparr>)))))"

definition free_thread :: thread where
  "free_thread = \<lparr>t_state = THREAD_FREE, t_trapframe = 0, t_cpu = None, t_id = 0, t_join = 0\<rparr>"

definition allocproc :: "uint64 \<Rightarrow> uint64 \<Rightarrow> kernel \<Rightarrow> (ptr \<times> kernel) res" where
  "allocproc trampoline forkret k =
     (case List.find (\<lambda>i. p_state (procs k i) = UNUSED) [0..<NPROC] of
        None \<Rightarrow> Inr (None, k)
      | Some i \<Rightarrow>
          let (pid, k1) = allocpid k;
              k2 = upd_proc i (\<lambda>p. p\<lparr>p_pid := pid, p_state := USED, p_last_running_thread_index := 0,
                p_running_threads_count := 0, p_cpu_usage := \<lparr>sum_of_ticks = 0, start_tick = -1, quota = 0\<rparr>,
                p_deadline := -1, p_threads := (\<lambda>j. if j < MAX_THREAD then free_thread else p_threads p j)\<rparr>) k1;
              (tf, s1) = kalloc (pm k2);
              k3 = upd_proc i (\<lambda>p. p\<lparr>p_trapframe := tf\<rparr>) (k2\<lparr>pm := s1\<rparr>)
          in if tf = 0 then bindR (freeproc i k3) (\<lambda>k4. Inr (None, k4))
             else bindR (proc_pagetable trampoline tf s1) (\<lambda>(pt, s2).
               let k4 = upd_proc i (\<lambda>p. p\<lparr>p_pagetable := pt\<rparr>) (k3\<lparr>pm := s2\<rparr>)
               in if pt = 0 then bindR (freeproc i k4) (\<lambda>k5. Inr (None, k5))
                  else Inr (Some i, upd_proc i (\<lambda>p. p\<lparr>p_context :=
                    \<lparr>ctx_ra = forkret, ctx_sp = p_kstack p + PGSIZE, ctx_s = replicate 12 0\<rparr>\<rparr>) k4)))"

subsection \<open>userinit, growproc, fork\<close>

definition initcode :: "byte list" where
  "initcode = [
     0x17, 0x05, 0x00, 0x00, 0x13, 0x05, 0x45, 0x02,
     0x97, 0x05, 0x00, 0x00, 0x93, 0x85, 0x35, 0x02,
     0x93, 0x08, 0x70, 0x00, 0x73, 0x00, 0x00, 0x00,
     0x93, 0x08, 0x20, 0x00, 0x73, 0x00, 0x00, 0x00,
     0xef, 0xf0, 0x9f, 0xff, 0x2f, 0x69, 0x6e, 0x69,
     0x74, 0x00, 0x00, 0x24, 0x00, 0x00, 0x00, 0x00,
     0x00, 0x00, 0x00, 0x00]"

text \<open>\<open>namei("/")\<close> takes no path element, so it is \<open>iget(ROOTDEV, ROOTINO)\<close>.\<close>

definition userinit :: "uint64 \<Rightarrow> uint64 \<Rightarrow> kernel \<Rightarrow> kernel res" where
  "userinit trampoline forkret k =
     bindR (allocproc trampoline forkret k) (\<lambda>(r, k1).
       case r of
         None \<Rightarrow> panic ''null dereference''
       | Some i \<Rightarrow>
           bindR (uvmfirst (p_pagetable (procs k1 i)) initcode (pm k1)) (\<lambda>s1.
             let tf = p_trapframe (procs k1 i);
                 s2 = s1\<lparr>mem := store64 (mem s1) (tf + TF_EPC) 0\<rparr>;
                 s3 = s2\<lparr>mem := store64 (mem s2) (tf + TF_SP) PGSIZE\<rparr>
             in bindR (iget ROOTDEV ROOTINO (k1\<lparr>pm := s3, initproc := Some i\<rparr>)) (\<lambda>(ip, k2).
               Inr (upd_proc i (\<lambda>p. p\<lparr>p_sz := PGSIZE, p_name := safestrcpy_bytes 16 (p_name p) (map of_char ''initcode''),
                   p_cwd := Some ip, p_state := RUNNABLE\<rparr>) k2))))"

text \<open>\<open>sz + n\<close> with the int n extended to 64 bits.\<close>

definition growproc :: "nat \<Rightarrow> cint \<Rightarrow> kernel \<Rightarrow> (int \<times> kernel) res" where
  "growproc i n k =
     (let p = procs k i; sz = p_sz p; sz' = sz + scast n
      in if sint n > 0 then
           bindR (uvmalloc (p_pagetable p) sz sz' PTE_W (pm k)) (\<lambda>(r, s1).
             if r = 0 then Inr (-1, k\<lparr>pm := s1\<rparr>)
             else Inr (0, upd_proc i (\<lambda>p. p\<lparr>p_sz := r\<rparr>) (k\<lparr>pm := s1\<rparr>)))
         else if sint n < 0 then
           bindR (uvmdealloc (p_pagetable p) sz sz' (pm k)) (\<lambda>(r, s1).
             Inr (0, upd_proc i (\<lambda>p. p\<lparr>p_sz := r\<rparr>) (k\<lparr>pm := s1\<rparr>)))
         else Inr (0, upd_proc i (\<lambda>p. p\<lparr>p_sz := sz\<rparr>) k))"

definition copy_trapframe :: "uint64 \<Rightarrow> uint64 \<Rightarrow> memory \<Rightarrow> memory" where
  "copy_trapframe dst src m = mem_write m dst (mem_read m src TF_SIZE)"

definition dup_files :: "nat \<Rightarrow> nat \<Rightarrow> kernel \<Rightarrow> kernel res" where
  "dup_files i np k =
     foldR (\<lambda>fd k.
       case p_ofile (procs k i) fd of
         None \<Rightarrow> Inr k
       | Some f \<Rightarrow> bindR (filedup f k) (\<lambda>k1.
           Inr (upd_proc np (\<lambda>p. p\<lparr>p_ofile := (p_ofile p)(fd := Some f)\<rparr>) k1))) [0..<NOFILE] k"

text \<open>\<open>idup\<close> of a null cwd would dereference null.\<close>

definition fork_core :: "uint64 \<Rightarrow> uint64 \<Rightarrow> nat \<Rightarrow> kernel \<Rightarrow> (ptr \<times> kernel) res" where
  "fork_core trampoline forkret i k =
     bindR (allocproc trampoline forkret k) (\<lambda>(r, k1).
       case r of
         None \<Rightarrow> Inr (None, k1)
       | Some np \<Rightarrow>
           bindR (uvmcopy (p_pagetable (procs k1 i)) (p_pagetable (procs k1 np)) (p_sz (procs k1 i)) (pm k1)) (\<lambda>(r, s1).
             if r < 0 then bindR (freeproc np (k1\<lparr>pm := s1\<rparr>)) (\<lambda>k2. Inr (None, k2))
             else
               let m1 = copy_trapframe (p_trapframe (procs k1 np)) (p_trapframe (procs k1 i)) (mem s1);
                   m2 = store64 m1 (p_trapframe (procs k1 np) + TF_A0) 0;
                   k2 = upd_proc np (\<lambda>p. p\<lparr>p_sz := p_sz (procs k1 i)\<rparr>) (k1\<lparr>pm := s1\<lparr>mem := m2\<rparr>\<rparr>)
               in bindR (dup_files i np k2) (\<lambda>k3.
                  case p_cwd (procs k3 i) of
                    None \<Rightarrow> panic ''null dereference''
                  | Some cwd \<Rightarrow>
                      Inr (Some np, upd_proc np (\<lambda>p. p\<lparr>p_cwd := Some cwd,
                        p_name := safestrcpy_bytes 16 (p_name p) (p_name (procs k3 i)),
                        p_parent := Some i, p_state := RUNNABLE\<rparr>) (idup cwd k3)))))"

definition fork :: "uint64 \<Rightarrow> uint64 \<Rightarrow> nat \<Rightarrow> kernel \<Rightarrow> (cint \<times> kernel) res" where
  "fork trampoline forkret i k =
     bindR (fork_core trampoline forkret i k) (\<lambda>(r, k1).
       case r of None \<Rightarrow> Inr (-1, k1) | Some np \<Rightarrow> Inr (p_pid (procs k1 np), k1))"

definition deadfork :: "uint64 \<Rightarrow> uint64 \<Rightarrow> nat \<Rightarrow> uint \<Rightarrow> kernel \<Rightarrow> (cint \<times> kernel) res" where
  "deadfork trampoline forkret i ttl k =
     bindR (fork_core trampoline forkret i k) (\<lambda>(r, k1).
       case r of
         None \<Rightarrow> Inr (-1, k1)
       | Some np \<Rightarrow> Inr (p_pid (procs k1 np), upd_proc np (\<lambda>p. p\<lparr>p_deadline := ticks k1 + ttl\<rparr>) k1))"

subsection \<open>Waking, killing, reparenting\<close>

text \<open>The caller, if any, is skipped.\<close>

definition wakeup :: "ptr \<Rightarrow> chan \<Rightarrow> kernel \<Rightarrow> kernel" where
  "wakeup self ch k =
     fold (\<lambda>i k. if Some i \<noteq> self \<and> p_state (procs k i) = SLEEPING \<and> p_chan (procs k i) = Some ch
       then upd_proc i (\<lambda>p. p\<lparr>p_state := RUNNABLE\<rparr>) k else k) [0..<NPROC] k"

definition reparent :: "nat \<Rightarrow> kernel \<Rightarrow> kernel" where
  "reparent i k =
     fold (\<lambda>j k. if p_parent (procs k j) = Some i
       then (case initproc k of
           None \<Rightarrow> upd_proc j (\<lambda>p. p\<lparr>p_parent := None\<rparr>) k
         | Some ini \<Rightarrow> wakeup (Some i) (ChanProc ini) (upd_proc j (\<lambda>p. p\<lparr>p_parent := Some ini\<rparr>) k))
       else k) [0..<NPROC] k"

definition drop_dead_processes :: "uint \<Rightarrow> kernel \<Rightarrow> kernel" where
  "drop_dead_processes deadline k =
     fold (\<lambda>i k.
       let p = procs k i
       in if p_state p \<noteq> UNUSED \<and> p_state p \<noteq> ZOMBIE then
            if p_deadline p \<noteq> -1 \<and> p_deadline p \<le> deadline then
              let k1 = upd_proc i (\<lambda>p. p\<lparr>p_killed := True\<rparr>) k
              in if p_state p = SLEEPING then upd_proc i (\<lambda>p. p\<lparr>p_state := RUNNABLE\<rparr>) k1 else k1
            else k
          else k) [0..<NPROC] k"

definition kill :: "cint \<Rightarrow> kernel \<Rightarrow> int \<times> kernel" where
  "kill pid k =
     (case List.find (\<lambda>i. p_pid (procs k i) = pid) [0..<NPROC] of
        None \<Rightarrow> (-1, k)
      | Some i \<Rightarrow>
          let k1 = upd_proc i (\<lambda>p. p\<lparr>p_killed := True\<rparr>) k
          in (0, if p_state (procs k i) = SLEEPING then upd_proc i (\<lambda>p. p\<lparr>p_state := RUNNABLE\<rparr>) k1 else k1))"

definition setkilled :: "nat \<Rightarrow> kernel \<Rightarrow> kernel" where
  "setkilled i k = upd_proc i (\<lambda>p. p\<lparr>p_killed := True\<rparr>) k"

definition killed :: "nat \<Rightarrow> kernel \<Rightarrow> bool" where
  "killed i k = p_killed (procs k i)"

subsection \<open>exit and wait\<close>

text \<open>
  \<open>exit\<close> up to the call of \<open>sched\<close>. Closing a file and dropping the current directory reach the
  file system; they are the arguments \<open>fclose\<close> (\<open>fileclose\<close>) and \<open>putcwd\<close> (\<open>begin_op\<close>, \<open>iput\<close>, \<open>end_op\<close>).
\<close>

definition close_files :: "(nat \<Rightarrow> kernel \<Rightarrow> kernel res) \<Rightarrow> nat \<Rightarrow> kernel \<Rightarrow> kernel res" where
  "close_files fclose i k =
     foldR (\<lambda>fd k.
       case p_ofile (procs k i) fd of
         None \<Rightarrow> Inr k
       | Some f \<Rightarrow> bindR (fclose f k) (\<lambda>k1.
           Inr (upd_proc i (\<lambda>p. p\<lparr>p_ofile := (p_ofile p)(fd := None)\<rparr>) k1))) [0..<NOFILE] k"

definition exit_tail :: "nat \<Rightarrow> cint \<Rightarrow> kernel \<Rightarrow> kernel" where
  "exit_tail i status k =
     (let k1 = reparent i k;
          k2 = (case p_parent (procs k1 i) of None \<Rightarrow> k1 | Some q \<Rightarrow> wakeup (Some i) (ChanProc q) k1)
      in upd_proc i (\<lambda>p. p\<lparr>p_xstate := status, p_state := ZOMBIE\<rparr>) k2)"

definition exit :: "(nat \<Rightarrow> kernel \<Rightarrow> kernel res) \<Rightarrow> (nat \<Rightarrow> kernel \<Rightarrow> kernel res) \<Rightarrow> nat \<Rightarrow> cint \<Rightarrow> kernel \<Rightarrow> kernel res" where
  "exit fclose putcwd i status k =
     (if initproc k = Some i then panic ''init exiting''
      else bindR (close_files fclose i k) (\<lambda>k1.
        bindR (case p_cwd (procs k1 i) of None \<Rightarrow> panic ''null dereference'' | Some ip \<Rightarrow> putcwd ip k1) (\<lambda>k2.
          Inr (exit_tail i status (upd_proc i (\<lambda>p. p\<lparr>p_cwd := None\<rparr>) k2)))))"

text \<open>One round of the loop of \<open>wait\<close>: a zombie child is collected, or the caller sleeps.\<close>

definition wait :: "nat \<Rightarrow> uint64 \<Rightarrow> kernel \<Rightarrow> ((cint, unit) outcome \<times> kernel) res" where
  "wait i addr k =
     (case List.find (\<lambda>j. p_parent (procs k j) = Some i \<and> p_state (procs k j) = ZOMBIE) [0..<NPROC] of
        Some j \<Rightarrow>
          let pid = p_pid (procs k j);
              (r, s1) = (if addr \<noteq> 0 then copyout (p_pagetable (procs k i)) addr
                (bytes_of_word 4 (p_xstate (procs k j))) 4 (pm k) else (0, pm k))
          in if r < 0 then Inr (Return (-1), k\<lparr>pm := s1\<rparr>)
             else bindR (freeproc j (k\<lparr>pm := s1\<rparr>)) (\<lambda>k1. Inr (Return pid, k1))
      | None \<Rightarrow>
          if \<not> (\<exists>j<NPROC. p_parent (procs k j) = Some i) \<or> killed i k then Inr (Return (-1), k)
          else Inr (Sleep (ChanProc i) (), k))"

subsection \<open>Copying to user or kernel addresses\<close>

definition either_copyout :: "nat \<Rightarrow> bool \<Rightarrow> uint64 \<Rightarrow> byte list \<Rightarrow> uint64 \<Rightarrow> kernel \<Rightarrow> int \<times> kernel" where
  "either_copyout i user_dst dst src len k =
     (if user_dst then
        let (r, s1) = copyout (p_pagetable (procs k i)) dst src len (pm k) in (r, k\<lparr>pm := s1\<rparr>)
      else (0, k\<lparr>pm := (pm k)\<lparr>mem := mem_write (mem (pm k)) dst (take (unat len) src)\<rparr>\<rparr>))"

definition either_copyin :: "nat \<Rightarrow> bool \<Rightarrow> uint64 \<Rightarrow> uint64 \<Rightarrow> kernel \<Rightarrow> byte list \<times> int" where
  "either_copyin i user_src src len k =
     (if user_src then copyin (p_pagetable (procs k i)) src len (pm k)
      else (mem_read (mem (pm k)) src (unat len), 0))"

text \<open>\<open>procdump\<close>: the lines it prints, as (pid, state, name).\<close>

definition procdump :: "kernel \<Rightarrow> (cint \<times> string \<times> byte list) list" where
  "procdump k =
     map (\<lambda>i. (p_pid (procs k i),
         (case p_state (procs k i) of UNUSED \<Rightarrow> ''unused'' | USED \<Rightarrow> ''used'' | SLEEPING \<Rightarrow> ''sleep ''
          | RUNNABLE \<Rightarrow> ''runble'' | RUNNING \<Rightarrow> ''run   '' | ZOMBIE \<Rightarrow> ''zombie''),
         p_name (procs k i)))
       (filter (\<lambda>i. p_state (procs k i) \<noteq> UNUSED) [0..<NPROC])"

subsection \<open>The loops over the process table, as updates of the whole table\<close>

definition live :: "procstate \<Rightarrow> bool" where
  "live s \<longleftrightarrow> s \<noteq> UNUSED \<and> s \<noteq> ZOMBIE"

text \<open>A loop over the table that changes the entries satisfying a condition.\<close>

lemma fold_upd_procs:
  "fold (\<lambda>i k. if P i (procs k i) then upd_proc i (f i) k else k) [0..<n] k =
     k\<lparr>procs := (\<lambda>j. if j < n \<and> P j (procs k j) then f j (procs k j) else procs k j)\<rparr>"
proof (induction n)
  case (Suc n)
  then show ?case by (auto simp: upd_proc_def fun_eq_iff less_Suc_eq intro!: kernel.equality)
qed simp

lemma wakeup_eq:
  "wakeup self ch k = k\<lparr>procs := (\<lambda>j. if j < NPROC \<and> Some j \<noteq> self \<and> p_state (procs k j) = SLEEPING \<and>
     p_chan (procs k j) = Some ch then (procs k j)\<lparr>p_state := RUNNABLE\<rparr> else procs k j)\<rparr>"
  using fold_upd_procs [of "\<lambda>i p. Some i \<noteq> self \<and> p_state p = SLEEPING \<and> p_chan p = Some ch" "\<lambda>i p. p\<lparr>p_state := RUNNABLE\<rparr>" NPROC k]
  by (simp add: wakeup_def del: upt_rec_numeral)

lemma drop_dead_processes_eq:
  "drop_dead_processes d k = k\<lparr>procs := (\<lambda>j.
     if j < NPROC \<and> live (p_state (procs k j)) \<and> p_deadline (procs k j) \<noteq> -1 \<and> p_deadline (procs k j) \<le> d
     then (procs k j)\<lparr>p_killed := True, p_state := (if p_state (procs k j) = SLEEPING then RUNNABLE else p_state (procs k j))\<rparr>
     else procs k j)\<rparr>"
proof -
  have "drop_dead_processes d k = fold (\<lambda>i k. if live (p_state (procs k i)) \<and> p_deadline (procs k i) \<noteq> -1 \<and> p_deadline (procs k i) \<le> d
      then upd_proc i (\<lambda>p. p\<lparr>p_killed := True, p_state := (if p_state p = SLEEPING then RUNNABLE else p_state p)\<rparr>) k else k) [0..<NPROC] k"
    unfolding drop_dead_processes_def
    by (rule arg_cong [where f = "\<lambda>f. fold f [0..<NPROC] k"])
      (auto simp: fun_eq_iff Let_def live_def upd_proc_def simp del: upt_rec_numeral)
  then show ?thesis
    using fold_upd_procs [of "\<lambda>i p. live (p_state p) \<and> p_deadline p \<noteq> -1 \<and> p_deadline p \<le> d"
      "\<lambda>i p. p\<lparr>p_killed := True, p_state := (if p_state p = SLEEPING then RUNNABLE else p_state p)\<rparr>" NPROC k]
    by (simp del: upt_rec_numeral)
qed

lemma wakeup_frame:
  "wakeup self ch k = k\<lparr>procs := procs (wakeup self ch k)\<rparr>" "p_pid (procs (wakeup self ch k) j) = p_pid (procs k j)"
  by (simp_all add: wakeup_eq)

end
