(* ===== verification/Sched.thy ===== *)
theory Sched
  imports Proc
begin

section \<open>kernel/proc.c: the schedulers and giving up the CPU\<close>

text \<open>
  Here the process locks are explicit: \<open>plock k i\<close> is the CPU that holds \<open>proc[i].lock\<close>, and the
  CPU's \<open>noff\<close> and \<open>intena\<close> are kept as \<open>push_off\<close> and \<open>pop_off\<close> do. A CPU that wants a lock
  another CPU holds spins; the step is then not enabled, which is the result \<open>blocked\<close>. What runs
  between \<open>swtch\<close> to a process and its \<open>swtch\<close> back (the process itself, and the other CPUs
  meanwhile) is the argument \<open>run\<close>.
\<close>

definition push_off_c :: "nat \<Rightarrow> kernel \<Rightarrow> kernel" where
  "push_off_c c k = upd_cpu c (\<lambda>u. u\<lparr>c_intena := (if c_noff u = 0 then c_sie u else c_intena u),
     c_sie := False, c_noff := c_noff u + 1\<rparr>) k"

definition pop_off_c :: "nat \<Rightarrow> kernel \<Rightarrow> kernel res" where
  "pop_off_c c k =
     (if c_sie (kcpus k c) then panic ''pop_off - interruptible''
      else if c_noff (kcpus k c) < 1 then panic ''pop_off''
      else Inr (upd_cpu c (\<lambda>u. u\<lparr>c_noff := c_noff u - 1,
        c_sie := (if c_noff u = 1 \<and> c_intena u then True else c_sie u)\<rparr>) k))"

definition acquire_p :: "nat \<Rightarrow> nat \<Rightarrow> kernel \<Rightarrow> kernel res" where
  "acquire_p c i k =
     (let k1 = push_off_c c k
      in if plock k1 i = Some c then panic ''acquire''
         else if plock k1 i \<noteq> None then blocked
         else Inr (k1\<lparr>plock := (plock k1)(i := Some c)\<rparr>))"

definition release_p :: "nat \<Rightarrow> nat \<Rightarrow> kernel \<Rightarrow> kernel res" where
  "release_p c i k =
     (if plock k i \<noteq> Some c then panic ''release''
      else pop_off_c c (k\<lparr>plock := (plock k)(i := None)\<rparr>))"

subsection \<open>Choosing a thread of a process\<close>

text \<open>
  The loop over \<open>next_thread\<close>: starting after the thread that ran last, the first runnable one.
\<close>

fun next_thread_loop :: "nat \<Rightarrow> nat \<Rightarrow> proc \<Rightarrow> nat option" where
  "next_thread_loop 0 next_thread p = None"
| "next_thread_loop (Suc n) next_thread p =
     (let nt1 = next_thread + 1;
          nt2 = (if nt1 \<ge> MAX_THREAD then 0 else nt1)
      in if t_state (p_threads p nt2) = THREAD_RUNNABLE then Some nt2
         else next_thread_loop n nt2 p)"

text \<open>The trapframe to run with (None: \<open>temp_found\<close> stays 0), and the bookkeeping of the choice.\<close>

definition choose_thread :: "nat \<Rightarrow> nat \<Rightarrow> kernel \<Rightarrow> uint64 option \<times> kernel" where
  "choose_thread c i k =
     (let p = procs k i
      in if t_state (p_threads p 0) = THREAD_FREE then (Some (p_trapframe p), k)
         else case next_thread_loop MAX_THREAD (p_last_running_thread_index p) p of
             None \<Rightarrow> (None, k)
           | Some j \<Rightarrow>
               (Some (t_trapframe (p_threads p j)),
                upd_cpu c (\<lambda>u. u\<lparr>c_thread := Some (i, j)\<rparr>)
                  (upd_proc i (\<lambda>p. p\<lparr>p_last_running_thread_index := j\<rparr>)
                    (upd_thread i j (\<lambda>t. t\<lparr>t_state := THREAD_RUNNING, t_cpu := Some c\<rparr>) k))))"

text \<open>Switching to process i with trapframe tf, and back.\<close>

definition run_proc :: "(kernel \<Rightarrow> kernel) \<Rightarrow> nat \<Rightarrow> nat \<Rightarrow> uint64 \<Rightarrow> kernel \<Rightarrow> kernel" where
  "run_proc run c i tf k =
     (let ptf = mem_read (mem (pm k)) (p_trapframe (procs k i)) TF_SIZE;
          k1 = upd_proc i (\<lambda>p. p\<lparr>p_state := RUNNING, p_running_threads_count := p_running_threads_count p + 1\<rparr>) k;
          k2 = upd_cpu c (\<lambda>u. u\<lparr>c_proc := Some i\<rparr>) k1;
          k3 = (if tf \<noteq> p_trapframe (procs k2 i)
            then k2\<lparr>pm := (pm k2)\<lparr>mem := copy_trapframe (p_trapframe (procs k2 i)) tf (mem (pm k2))\<rparr>\<rparr> else k2);
          k4 = upd_proc i (\<lambda>p. p\<lparr>p_cpu_usage := (p_cpu_usage p)\<lparr>start_tick := ticks k3\<rparr>\<rparr>) k3;
          k5 = run k4;
          k6 = upd_proc i (\<lambda>p. p\<lparr>p_cpu_usage := (p_cpu_usage p)\<lparr>sum_of_ticks :=
            sum_of_ticks (p_cpu_usage p) + (ticks k5 - start_tick (p_cpu_usage p))\<rparr>\<rparr>) k5;
          k7 = (if tf \<noteq> p_trapframe (procs k6 i)
            then k6\<lparr>pm := (pm k6)\<lparr>mem := mem_write (mem (pm k6)) (p_trapframe (procs k6 i)) ptf\<rparr>\<rparr> else k6)
      in upd_cpu c (\<lambda>u. u\<lparr>c_proc := None, c_thread := None\<rparr>) k7)"

subsection \<open>Round robin\<close>

definition rr_visit :: "(kernel \<Rightarrow> kernel) \<Rightarrow> nat \<Rightarrow> nat \<Rightarrow> bool \<times> kernel \<Rightarrow> (bool \<times> kernel) res" where
  "rr_visit run c i fk =
     (let (found, k) = fk
      in bindR (acquire_p c i k) (\<lambda>k1.
        if p_state (procs k1 i) = RUNNABLE then
          (case choose_thread c i k1 of
             (None, k2) \<Rightarrow> bindR (release_p c i k2) (\<lambda>k3. Inr (found, k3))
           | (Some tf, k2) \<Rightarrow> bindR (release_p c i (run_proc run c i tf k2)) (\<lambda>k3. Inr (True, k3)))
        else bindR (release_p c i k1) (\<lambda>k2. Inr (found, k2))))"

text \<open>One round of \<open>for(;;)\<close>: interrupts on, then every process in table order.\<close>

definition rr_round :: "(kernel \<Rightarrow> kernel) \<Rightarrow> nat \<Rightarrow> kernel \<Rightarrow> (bool \<times> kernel) res" where
  "rr_round run c k =
     foldR (\<lambda>i. rr_visit run c i) [0..<NPROC] (False, upd_cpu c (\<lambda>u. u\<lparr>c_sie := True\<rparr>) k)"

subsection \<open>Minimum CPU usage\<close>

record minscan =
  min_cu :: uint
  min_cu_proc :: ptr
  quota_enable :: bool

text \<open>One process of the scan. \<open>release(&min_cu_proc->lock)\<close> gives up the previous candidate.\<close>

definition mincu_visit :: "nat \<Rightarrow> nat \<Rightarrow> minscan \<times> kernel \<Rightarrow> (minscan \<times> kernel) res" where
  "mincu_visit c i mk =
     (let (m, k) = mk
      in bindR (acquire_p c i k) (\<lambda>k1.
        let p = procs k1 i; cu = sum_of_ticks (p_cpu_usage p)
        in if p_state p = RUNNABLE \<and> cu < min_cu m then
             if quota (p_cpu_usage p) \<le> cu \<and> quota_enable m then
               bindR (release_p c i k1) (\<lambda>k2. Inr (m, k2))
             else
               let m1 = (if quota (p_cpu_usage p) \<le> cu then m else m\<lparr>quota_enable := True\<rparr>)
               in bindR (case min_cu_proc m1 of None \<Rightarrow> Inr k1 | Some j \<Rightarrow> release_p c j k1) (\<lambda>k2.
                    Inr (m1\<lparr>min_cu := cu, min_cu_proc := Some i\<rparr>, k2))
           else if p_state p = RUNNABLE \<and> cu = min_cu m then
             (case min_cu_proc m of
                Some j \<Rightarrow>
                  if p_deadline p < p_deadline (procs k1 j) then
                    bindR (release_p c j k1) (\<lambda>k2. Inr (m\<lparr>min_cu_proc := Some i\<rparr>, k2))
                  else bindR (release_p c i k1) (\<lambda>k2. Inr (m, k2))
              | None \<Rightarrow> bindR (release_p c i k1) (\<lambda>k2. Inr (m, k2)))
           else bindR (release_p c i k1) (\<lambda>k2. Inr (m, k2))))"

text \<open>The scan runs under \<open>proc_lock\<close>; of that lock only the nesting of \<open>push_off\<close> is visible here.\<close>

definition mincu_scan :: "nat \<Rightarrow> bool \<Rightarrow> kernel \<Rightarrow> (minscan \<times> kernel) res" where
  "mincu_scan c qe k =
     bindR (foldR (\<lambda>i. mincu_visit c i) [0..<NPROC]
         (\<lparr>min_cu = 0xFFFFFFFF, min_cu_proc = None, quota_enable = qe\<rparr>, push_off_c c k)) (\<lambda>(m, k1).
       bindR (pop_off_c c k1) (\<lambda>k2. Inr (m, k2)))"

text \<open>One round; the result says what \<open>quota_enable\<close> is for the next.\<close>

definition mincu_round :: "(kernel \<Rightarrow> kernel) \<Rightarrow> nat \<Rightarrow> bool \<Rightarrow> kernel \<Rightarrow> (bool \<times> bool \<times> kernel) res" where
  "mincu_round run c qe k =
     bindR (mincu_scan c qe (upd_cpu c (\<lambda>u. u\<lparr>c_sie := True\<rparr>) k)) (\<lambda>(m, k1).
       case min_cu_proc m of
         None \<Rightarrow> Inr (False, False, k1)
       | Some i \<Rightarrow>
           (case choose_thread c i k1 of
              (None, k2) \<Rightarrow> bindR (release_p c i k2) (\<lambda>k3. Inr (False, False, k3))
            | (Some tf, k2) \<Rightarrow> bindR (release_p c i (run_proc run c i tf k2)) (\<lambda>k3. Inr (True, quota_enable m, k3))))"

text \<open>
  The two schedulers, n rounds. \<open>cur\<close> is the one that runs: at the start of a round it calls the
  other, which never returns, if \<open>sched_type\<close> asks for it.
\<close>

definition enter_scheduler :: "nat \<Rightarrow> kernel \<Rightarrow> kernel" where
  "enter_scheduler c = upd_cpu c (\<lambda>u. u\<lparr>c_proc := None, c_thread := None\<rparr>)"

fun scheduler_rounds :: "nat \<Rightarrow> (kernel \<Rightarrow> kernel) \<Rightarrow> nat \<Rightarrow> scheduler \<Rightarrow> bool \<Rightarrow> kernel \<Rightarrow> kernel res" where
  "scheduler_rounds 0 run c cur qe k = Inr k"
| "scheduler_rounds (Suc n) run c cur qe k =
     (if sched_type k \<noteq> OtherSched \<and> sched_type k \<noteq> cur then
        (if sched_type k = RR then bindR (rr_round run c (enter_scheduler c k)) (\<lambda>(_, k1). scheduler_rounds n run c RR True k1)
         else bindR (mincu_round run c True (enter_scheduler c k)) (\<lambda>(_, qe', k1). scheduler_rounds n run c MinCU qe' k1))
      else if cur = RR then bindR (rr_round run c k) (\<lambda>(_, k1). scheduler_rounds n run c RR True k1)
      else bindR (mincu_round run c qe k) (\<lambda>(_, qe', k1). scheduler_rounds n run c MinCU qe' k1))"

definition scheduler_run :: "nat \<Rightarrow> (kernel \<Rightarrow> kernel) \<Rightarrow> nat \<Rightarrow> kernel \<Rightarrow> kernel res" where
  "scheduler_run n run c k =
     (if sched_type k = OtherSched then Inr k
      else scheduler_rounds n run c (sched_type k) True (enter_scheduler c k))"

subsection \<open>sched, yield, sleep\<close>

text \<open>\<open>sched\<close> up to its \<open>swtch\<close>; afterwards the CPU's \<open>intena\<close> is set back to the saved value.\<close>

definition sched :: "nat \<Rightarrow> kernel \<Rightarrow> kernel res" where
  "sched c k =
     (case myproc c k of
        None \<Rightarrow> panic ''null dereference''
      | Some i \<Rightarrow>
          let p = procs k i
          in if plock k i \<noteq> Some c then panic ''sched p->lock''
             else if c_noff (kcpus k c) \<noteq> 1 then panic ''sched locks''
             else if p_state p = RUNNING \<and> p_running_threads_count p = 0 then panic ''sched running''
             else if c_sie (kcpus k c) then panic ''sched interruptible''
             else
               let k1 = (case c_thread (kcpus k c) of
                     None \<Rightarrow> k
                   | Some (q, j) \<Rightarrow>
                       let t = p_threads (procs k q) j
                       in if t_state t = THREAD_FREE then k
                          else
                            let k2 = (if t_trapframe t \<noteq> p_trapframe p
                                  then k\<lparr>pm := (pm k)\<lparr>mem := copy_trapframe (t_trapframe t) (p_trapframe p) (mem (pm k))\<rparr>\<rparr>
                                  else k);
                                k3 = (if t_state t = THREAD_RUNNING
                                  then upd_thread q j (\<lambda>t. t\<lparr>t_state := THREAD_RUNNABLE\<rparr>) k2 else k2)
                            in upd_thread q j (\<lambda>t. t\<lparr>t_cpu := None\<rparr>) k3)
               in Inr (upd_proc i (\<lambda>p. p\<lparr>p_running_threads_count := p_running_threads_count p - 1\<rparr>) k1))"

definition yield :: "nat \<Rightarrow> kernel \<Rightarrow> kernel res" where
  "yield c k =
     (case myproc c k of
        None \<Rightarrow> panic ''null dereference''
      | Some i \<Rightarrow> bindR (acquire_p c i k) (\<lambda>k1. sched c (upd_proc i (\<lambda>p. p\<lparr>p_state := RUNNABLE\<rparr>) k1)))"

text \<open>
  \<open>sleep\<close> up to its \<open>sched\<close>; the caller's lock lk, which is not a process lock, is released by
  \<open>release_lk\<close>. When it runs again it clears \<open>chan\<close>.
\<close>

definition sleep :: "(kernel \<Rightarrow> kernel res) \<Rightarrow> nat \<Rightarrow> chan \<Rightarrow> kernel \<Rightarrow> kernel res" where
  "sleep release_lk c ch k =
     (case myproc c k of
        None \<Rightarrow> panic ''null dereference''
      | Some i \<Rightarrow> bindR (acquire_p c i k) (\<lambda>k1. bindR (release_lk k1) (\<lambda>k2.
          sched c (upd_proc i (\<lambda>p. p\<lparr>p_chan := Some ch, p_state := SLEEPING\<rparr>) k2))))"

definition sleep_return :: "nat \<Rightarrow> kernel \<Rightarrow> kernel res" where
  "sleep_return c k =
     (case myproc c k of
        None \<Rightarrow> panic ''null dereference''
      | Some i \<Rightarrow> release_p c i (upd_proc i (\<lambda>p. p\<lparr>p_chan := None\<rparr>) k))"

subsection \<open>What the scan finds\<close>

abbreviation cusum :: "kernel \<Rightarrow> nat \<Rightarrow> uint" where
  "cusum k i \<equiv> sum_of_ticks (p_cpu_usage (procs k i))"

definition runnable :: "kernel \<Rightarrow> nat \<Rightarrow> bool" where
  "runnable k i \<longleftrightarrow> p_state (procs k i) = RUNNABLE"

definition within_quota :: "kernel \<Rightarrow> nat \<Rightarrow> bool" where
  "within_quota k i \<longleftrightarrow> cusum k i < quota (p_cpu_usage (procs k i))"

lemma acquire_p_free:
  assumes "plock k i = None"
  obtains k1 where "acquire_p c i k = Inr k1" "procs k1 = procs k" "plock k1 = (plock k)(i := Some c)"
    "c_noff (kcpus k1 c) = c_noff (kcpus k c) + 1" "\<not> c_sie (kcpus k1 c)"
  using assms by (simp add: acquire_p_def push_off_c_def Let_def)

lemma release_p_held:
  assumes "plock k i = Some c" and "\<not> c_sie (kcpus k c)" and "1 < c_noff (kcpus k c)"
  obtains k1 where "release_p c i k = Inr k1" "procs k1 = procs k" "plock k1 = (plock k)(i := None)"
    "c_noff (kcpus k1 c) = c_noff (kcpus k c) - 1" "\<not> c_sie (kcpus k1 c)"
  using assms by (simp add: release_p_def pop_off_c_def)

lemma uint_le_max: "x \<le> (0xFFFFFFFF :: uint)"
proof -
  have "unat x < 2 ^ LENGTH(32)" by (rule unsigned_less)
  then show ?thesis by (simp add: word_le_nat_alt)
qed

text \<open>
  After the first n processes: the lock of the candidate, and no other, is held; the candidate is
  runnable, no process within its quota uses less CPU, and none that uses as much has an earlier
  deadline.
\<close>

definition scan_inv :: "nat \<Rightarrow> bool \<Rightarrow> kernel \<Rightarrow> nat \<Rightarrow> minscan \<Rightarrow> kernel \<Rightarrow> bool" where
  "scan_inv c qe k0 n m k \<longleftrightarrow> procs k = procs k0 \<and> \<not> c_sie (kcpus k c) \<and>
     plock k = (case min_cu_proc m of None \<Rightarrow> plock k0 | Some i \<Rightarrow> (plock k0)(i := Some c)) \<and>
     c_noff (kcpus k c) = c_noff (kcpus k0 c) + (case min_cu_proc m of None \<Rightarrow> 0 | Some _ \<Rightarrow> 1) \<and>
     (case min_cu_proc m of
        None \<Rightarrow> min_cu m = 0xFFFFFFFF \<and> quota_enable m = qe
      | Some i \<Rightarrow> i < n \<and> runnable k0 i \<and> cusum k0 i = min_cu m \<and>
          (\<forall>q<n. runnable k0 q \<and> within_quota k0 q \<and> cusum k0 q = min_cu m \<longrightarrow>
             p_deadline (procs k0 i) \<le> p_deadline (procs k0 q))) \<and>
     (\<forall>q<n. runnable k0 q \<and> within_quota k0 q \<longrightarrow> min_cu m \<le> cusum k0 q) \<and>
     (\<not> qe \<and> min_cu_proc m = None \<longrightarrow> (\<forall>q<n. runnable k0 q \<longrightarrow> cusum k0 q = 0xFFFFFFFF))"

lemma scan_skip:
  assumes "scan_inv c qe k0 n m k" and "procs k2 = procs k0" "plock k2 = plock k"
    "c_noff (kcpus k2 c) = c_noff (kcpus k c)" "\<not> c_sie (kcpus k2 c)"
    and "runnable k0 n \<Longrightarrow> within_quota k0 n \<Longrightarrow> min_cu m \<le> cusum k0 n"
    and "\<And>i. min_cu_proc m = Some i \<Longrightarrow> runnable k0 n \<Longrightarrow> within_quota k0 n \<Longrightarrow> cusum k0 n = min_cu m \<Longrightarrow>
      p_deadline (procs k0 i) \<le> p_deadline (procs k0 n)"
    and "\<not> qe \<Longrightarrow> min_cu_proc m = None \<Longrightarrow> runnable k0 n \<Longrightarrow> cusum k0 n = 0xFFFFFFFF"
  shows "scan_inv c qe k0 (Suc n) m k2"
  using assms unfolding scan_inv_def by (auto simp: less_Suc_eq split: option.splits)

lemma scan_take:
  assumes inv: "scan_inv c qe k0 n m k" and "procs k3 = procs k0" "plock k3 = (plock k0)(n := Some c)"
    "c_noff (kcpus k3 c) = c_noff (kcpus k0 c) + 1" "\<not> c_sie (kcpus k3 c)"
    and m': "min_cu m' = cusum k0 n" "min_cu_proc m' = Some n" and "runnable k0 n"
    and less: "cusum k0 n < min_cu m \<or>
      (\<exists>j. min_cu_proc m = Some j \<and> cusum k0 n = min_cu m \<and> p_deadline (procs k0 n) \<le> p_deadline (procs k0 j))"
  shows "scan_inv c qe k0 (Suc n) m' k3"
proof -
  have mn: "min_cu m \<le> cusum k0 q" if "q < n" "runnable k0 q" "within_quota k0 q" for q
    using inv that by (simp add: scan_inv_def)
  have a: "cusum k0 n \<le> cusum k0 q" if "q < Suc n" "runnable k0 q" "within_quota k0 q" for q
    using mn [of q] that less by (cases "q = n") auto
  have b: "p_deadline (procs k0 n) \<le> p_deadline (procs k0 q)"
    if q: "q < Suc n" "runnable k0 q" "within_quota k0 q" "cusum k0 q = cusum k0 n" for q
  proof (cases "q = n")
    case False
    then have qn: "q < n" using q by simp
    from mn [OF qn q(2,3)] q(4) less obtain j where
      j: "min_cu_proc m = Some j" "cusum k0 n = min_cu m" "p_deadline (procs k0 n) \<le> p_deadline (procs k0 j)" by auto
    have "p_deadline (procs k0 j) \<le> p_deadline (procs k0 q)"
      using inv j(1,2) qn q by (simp add: scan_inv_def)
    with j(3) show ?thesis by (rule order_trans)
  qed simp
  show ?thesis using assms(2-8) a b by (simp add: scan_inv_def)
qed

lemma mincu_visit_inv:
  assumes inv: "scan_inv c qe k0 n m k" and free: "plock k0 n = None"
    and others: "\<And>j. j < n \<Longrightarrow> plock k0 j = None" and noff: "1 \<le> c_noff (kcpus k0 c)"
  shows "\<exists>m' k'. mincu_visit c n (m, k) = Inr (m', k') \<and> scan_inv c qe k0 (Suc n) m' k'"
proof -
  have cand: "min_cu_proc m = Some i \<Longrightarrow> i < n" for i using inv by (auto simp: scan_inv_def)
  have "plock k n = None" using inv free cand by (auto simp: scan_inv_def split: option.splits)
  then obtain k1 where k1: "acquire_p c n k = Inr k1" "procs k1 = procs k" "plock k1 = (plock k)(n := Some c)"
    "c_noff (kcpus k1 c) = c_noff (kcpus k c) + 1" "\<not> c_sie (kcpus k1 c)" by (rule acquire_p_free)
  have pr: "procs k1 = procs k0" using k1(2) inv by (simp add: scan_inv_def)
  have nf: "1 < c_noff (kcpus k1 c)" using k1(4) inv noff by (auto simp: scan_inv_def split: option.splits)
  obtain k2 where k2: "release_p c n k1 = Inr k2" "procs k2 = procs k1" "plock k2 = (plock k1)(n := None)"
    "c_noff (kcpus k2 c) = c_noff (kcpus k1 c) - 1" "\<not> c_sie (kcpus k2 c)"
    using k1(3,5) nf by (auto intro: release_p_held [of k1 n c])
  have keep: "procs k2 = procs k0" "plock k2 = plock k" "c_noff (kcpus k2 c) = c_noff (kcpus k c)"
    using pr k2 k1(3,4) \<open>plock k n = None\<close> by auto
  let ?cu = "cusum k0 n" and ?p = "procs k0 n"
  have old: "\<exists>k3. (case min_cu_proc m of None \<Rightarrow> Inr k1 | Some j \<Rightarrow> release_p c j k1) = Inr k3 \<and>
      procs k3 = procs k0 \<and> plock k3 = (plock k0)(n := Some c) \<and>
      c_noff (kcpus k3 c) = c_noff (kcpus k0 c) + 1 \<and> \<not> c_sie (kcpus k3 c)"
  proof (cases "min_cu_proc m")
    case None
    then show ?thesis using k1 pr inv by (auto simp: scan_inv_def)
  next
    case (Some j)
    then have j: "j < n" "plock k = (plock k0)(j := Some c)" "c_noff (kcpus k c) = c_noff (kcpus k0 c) + 1"
      "plock k0 j = None"
      using inv others by (auto simp: scan_inv_def)
    obtain k3 where "release_p c j k1 = Inr k3" "procs k3 = procs k1" "plock k3 = (plock k1)(j := None)"
      "c_noff (kcpus k3 c) = c_noff (kcpus k1 c) - 1" "\<not> c_sie (kcpus k3 c)"
      using k1(3,5) nf j by (auto intro: release_p_held [of k1 j c])
    then show ?thesis using Some k1(3,4) pr j by (auto simp: fun_eq_iff)
  qed
  then obtain k3 where k3: "(case min_cu_proc m of None \<Rightarrow> Inr k1 | Some j \<Rightarrow> release_p c j k1) = Inr k3"
    "procs k3 = procs k0" "plock k3 = (plock k0)(n := Some c)"
    "c_noff (kcpus k3 c) = c_noff (kcpus k0 c) + 1" "\<not> c_sie (kcpus k3 c)" by blast
  note skip = scan_skip [OF inv keep k2(5)] and take = scan_take [OF inv k3(2-5)]
  consider
    (over) "runnable k0 n" "?cu < min_cu m" "\<not> within_quota k0 n" "quota_enable m"
  | (better) "runnable k0 n" "?cu < min_cu m" "within_quota k0 n \<or> \<not> quota_enable m"
  | (tie) j where "runnable k0 n" "?cu = min_cu m" "min_cu_proc m = Some j" "p_deadline ?p < p_deadline (procs k0 j)"
  | (rest) "runnable k0 n \<longrightarrow> min_cu m \<le> ?cu" "\<And>j. runnable k0 n \<Longrightarrow> ?cu = min_cu m \<Longrightarrow> min_cu_proc m = Some j \<Longrightarrow> p_deadline (procs k0 j) \<le> p_deadline ?p"
    by (metis linorder_le_less_linear)
  then show ?thesis
  proof cases
    case over
    then have "mincu_visit c n (m, k) = Inr (m, k2)"
      using k1(1) k2(1) by (simp add: mincu_visit_def pr runnable_def within_quota_def Let_def not_less)
    moreover have "scan_inv c qe k0 (Suc n) m k2"
      using over inv by (intro skip) (auto simp: scan_inv_def)
    ultimately show ?thesis by blast
  next
    case better
    define m' where "m' = (if within_quota k0 n then m\<lparr>quota_enable := True\<rparr> else m)\<lparr>min_cu := ?cu, min_cu_proc := Some n\<rparr>"
    have "mincu_visit c n (m, k) = Inr (m', k3)"
      using better k1(1) k3(1)
      by (auto simp: mincu_visit_def pr runnable_def within_quota_def Let_def m'_def not_less split: option.splits)
    moreover have "scan_inv c qe k0 (Suc n) m' k3"
      using better by (intro take) (auto simp: m'_def)
    ultimately show ?thesis by blast
  next
    case tie
    define m' where "m' = m\<lparr>min_cu_proc := Some n\<rparr>"
    have "mincu_visit c n (m, k) = Inr (m', k3)"
      using tie k1(1) k3(1) by (simp add: mincu_visit_def pr runnable_def Let_def m'_def)
    moreover have "scan_inv c qe k0 (Suc n) m' k3"
      using tie by (intro take) (auto simp: m'_def)
    ultimately show ?thesis by blast
  next
    case rest
    have "mincu_visit c n (m, k) = Inr (m, k2)"
      using rest k1(1) k2(1)
      by (auto simp: mincu_visit_def pr runnable_def Let_def not_less dest: leD split: option.splits)
    moreover have "scan_inv c qe k0 (Suc n) m k2"
    proof (rule skip)
      show "cusum k0 n = 0xFFFFFFFF" if "\<not> qe" "min_cu_proc m = None" "runnable k0 n"
      proof -
        have "min_cu m = 0xFFFFFFFF" using inv that(2) by (simp add: scan_inv_def)
        with rest(1) that(3) have "0xFFFFFFFF \<le> ?cu" by simp
        then show ?thesis by (intro antisym) (simp_all add: uint_le_max)
      qed
    qed (use rest in auto)
    ultimately show ?thesis by blast
  qed
qed

lemma mincu_fold_inv:
  assumes "n \<le> NPROC" and "\<And>j. j < NPROC \<Longrightarrow> plock k0 j = None" and "1 \<le> c_noff (kcpus k0 c)" and "\<not> c_sie (kcpus k0 c)"
  shows "\<exists>m k. foldR (\<lambda>i. mincu_visit c i) [0..<n]
      (\<lparr>min_cu = 0xFFFFFFFF, min_cu_proc = None, quota_enable = qe\<rparr>, k0) = Inr (m, k) \<and> scan_inv c qe k0 n m k"
  using assms(1)
proof (induction n)
  case 0
  then show ?case using assms(4) by (simp add: scan_inv_def)
next
  case (Suc n)
  then obtain m k where "foldR (\<lambda>i. mincu_visit c i) [0..<n]
      (\<lparr>min_cu = 0xFFFFFFFF, min_cu_proc = None, quota_enable = qe\<rparr>, k0) = Inr (m, k)" "scan_inv c qe k0 n m k" by auto
  moreover from this(2) Suc.prems have "\<exists>m' k'. mincu_visit c n (m, k) = Inr (m', k') \<and> scan_inv c qe k0 (Suc n) m' k'"
    by (intro mincu_visit_inv) (use assms(2,3) in auto)
  ultimately show ?case by (auto simp: foldR_append)
qed

definition scan_result :: "nat \<Rightarrow> bool \<Rightarrow> kernel \<Rightarrow> minscan \<Rightarrow> kernel \<Rightarrow> bool" where
  "scan_result c qe k m k' \<longleftrightarrow> procs k' = procs k \<and>
     (case min_cu_proc m of
        None \<Rightarrow> plock k' = plock k \<and> (\<forall>q<NPROC. runnable k q \<and> (within_quota k q \<or> \<not> qe) \<longrightarrow> cusum k q = 0xFFFFFFFF)
      | Some i \<Rightarrow> i < NPROC \<and> runnable k i \<and> plock k' = (plock k)(i := Some c) \<and>
          (\<forall>q<NPROC. runnable k q \<and> within_quota k q \<longrightarrow> cusum k i \<le> cusum k q \<and>
             (cusum k q = cusum k i \<longrightarrow> p_deadline (procs k i) \<le> p_deadline (procs k q))))"

lemma mincu_scan_spec:
  assumes "\<And>j. j < NPROC \<Longrightarrow> plock k j = None" and "0 \<le> c_noff (kcpus k c)"
  shows "\<exists>m k'. mincu_scan c qe k = Inr (m, k') \<and> scan_result c qe k m k'"
proof -
  let ?k0 = "push_off_c c k"
  have k0: "procs ?k0 = procs k" "plock ?k0 = plock k" "c_noff (kcpus ?k0 c) = c_noff (kcpus k c) + 1" "\<not> c_sie (kcpus ?k0 c)"
    by (simp_all add: push_off_c_def)
  obtain m k1 where f: "foldR (\<lambda>i. mincu_visit c i) [0..<NPROC]
      (\<lparr>min_cu = 0xFFFFFFFF, min_cu_proc = None, quota_enable = qe\<rparr>, ?k0) = Inr (m, k1)"
    "scan_inv c qe ?k0 NPROC m k1"
    using mincu_fold_inv [of NPROC ?k0 c qe] assms k0 by auto
  have "1 \<le> c_noff (kcpus k1 c)" "\<not> c_sie (kcpus k1 c)"
    using f(2) assms(2) k0(3) by (auto simp: scan_inv_def split: option.splits)
  then obtain k2 where k2: "pop_off_c c k1 = Inr k2" "procs k2 = procs k1" "plock k2 = plock k1"
    by (simp add: pop_off_c_def)
  have ru: "runnable ?k0 = runnable k" "within_quota ?k0 = within_quota k"
    by (simp_all add: runnable_def within_quota_def k0 fun_eq_iff)
  have "scan_result c qe k m k2"
  proof (cases "min_cu_proc m")
    case None
    have "cusum k q = 0xFFFFFFFF" if "q < NPROC" "runnable k q" "within_quota k q \<or> \<not> qe" for q
    proof (cases qe)
      case True
      then have "0xFFFFFFFF \<le> cusum k q" using f(2) None that k0 by (auto simp: scan_inv_def ru)
      then show ?thesis by (intro antisym) (simp_all add: uint_le_max)
    next
      case False
      then show ?thesis using f(2) None that k0 by (simp add: scan_inv_def ru)
    qed
    then show ?thesis using f(2) k2 None k0 by (simp add: scan_result_def scan_inv_def)
  next
    case (Some i)
    then show ?thesis using f(2) k2 k0 by (simp add: scan_result_def scan_inv_def ru)
  qed
  then show ?thesis using f(1) k2(1) by (simp add: mincu_scan_def)
qed


lemma skip_visit:
  assumes "plock k i = None" and "\<not> runnable k i" and "1 \<le> c_noff (kcpus k c)"
  shows "\<exists>k'. mincu_visit c i (m, k) = Inr (m, k') \<and> procs k' = procs k \<and> plock k' = plock k \<and>
    c_noff (kcpus k' c) = c_noff (kcpus k c)"
proof -
  obtain k1 where k1: "acquire_p c i k = Inr k1" "procs k1 = procs k" "plock k1 = (plock k)(i := Some c)"
    "c_noff (kcpus k1 c) = c_noff (kcpus k c) + 1" "\<not> c_sie (kcpus k1 c)" by (rule acquire_p_free [OF assms(1)])
  obtain k2 where "release_p c i k1 = Inr k2" "procs k2 = procs k1" "plock k2 = (plock k1)(i := None)"
    "c_noff (kcpus k2 c) = c_noff (kcpus k1 c) - 1"
    using k1(3-5) assms(3) by (auto intro: release_p_held [of k1 i c])
  then show ?thesis using k1 assms(1,2) by (auto simp: mincu_visit_def runnable_def Let_def fun_eq_iff)
qed

lemma skip_visits:
  assumes "\<And>i. i \<in> set is \<Longrightarrow> plock k i = None \<and> \<not> runnable k i" and "1 \<le> c_noff (kcpus k c)"
  shows "\<exists>k'. foldR (\<lambda>i. mincu_visit c i) is (m, k) = Inr (m, k') \<and> procs k' = procs k \<and> plock k' = plock k"
  using assms
proof (induction "is" arbitrary: k)
  case (Cons i js)
  then obtain k1 where k1: "mincu_visit c i (m, k) = Inr (m, k1)" "procs k1 = procs k" "plock k1 = plock k"
    "c_noff (kcpus k1 c) = c_noff (kcpus k c)" using skip_visit [of k i c m] by auto
  with Cons show ?case using Cons.IH [of k1] by (auto simp: runnable_def)
qed simp

subsection \<open>Properties\<close>

text \<open>
  C12. The scan of the minimum-usage scheduler, with the process locks free, ends holding exactly
  the lock of the process it chose. That process is runnable, no runnable process within its
  quota has used less CPU, and among those that used as much none has an earlier deadline. It
  chooses nothing only if no runnable process is eligible: with quotas disabled, only if there
  is none (with a usage below the maximal count).
\<close>

theorem mincu_scan_picks_least_usage:
  assumes "\<And>j. j < NPROC \<Longrightarrow> plock k j = None" and "0 \<le> c_noff (kcpus k c)"
  shows "\<exists>m k'. mincu_scan c qe k = Inr (m, k') \<and> procs k' = procs k \<and>
     (case min_cu_proc m of
        None \<Rightarrow> plock k' = plock k \<and>
          (\<forall>q<NPROC. runnable k q \<and> (within_quota k q \<or> \<not> qe) \<longrightarrow> cusum k q = 0xFFFFFFFF)
      | Some i \<Rightarrow> i < NPROC \<and> runnable k i \<and> plock k' = (plock k)(i := Some c) \<and>
          (\<forall>q<NPROC. runnable k q \<and> within_quota k q \<longrightarrow> cusum k i \<le> cusum k q \<and>
             (cusum k q = cusum k i \<longrightarrow> p_deadline (procs k i) \<le> p_deadline (procs k q))))"
  using mincu_scan_spec [OF assms] unfolding scan_result_def .

text \<open>Two runnable processes with the same usage: 0 is within its quota, 1 is not and has a deadline.\<close>

definition tie_kernel :: kernel where
  "tie_kernel = blank_kernel\<lparr>procs := (procs blank_kernel)
     (0 := blank_proc\<lparr>p_state := RUNNABLE, p_cpu_usage := \<lparr>sum_of_ticks = 5, start_tick = 0, quota = 10\<rparr>, p_deadline := -1\<rparr>,
      1 := blank_proc\<lparr>p_state := RUNNABLE, p_cpu_usage := \<lparr>sum_of_ticks = 5, start_tick = 0, quota = 3\<rparr>, p_deadline := 100\<rparr>)\<rparr>"

theorem mincu_scan_picks_least_usage_witness:
  "\<exists>m k'. mincu_scan 0 True tie_kernel = Inr (m, k') \<and> procs k' = procs tie_kernel \<and>
     (case min_cu_proc m of
        None \<Rightarrow> plock k' = plock tie_kernel \<and> (\<forall>q<NPROC. runnable tie_kernel q \<and> (within_quota tie_kernel q \<or> \<not> True) \<longrightarrow>
          cusum tie_kernel q = 0xFFFFFFFF)
      | Some i \<Rightarrow> i < NPROC \<and> runnable tie_kernel i \<and> plock k' = (plock tie_kernel)(i := Some 0) \<and>
          (\<forall>q<NPROC. runnable tie_kernel q \<and> within_quota tie_kernel q \<longrightarrow> cusum tie_kernel i \<le> cusum tie_kernel q \<and>
             (cusum tie_kernel q = cusum tie_kernel i \<longrightarrow>
               p_deadline (procs tie_kernel i) \<le> p_deadline (procs tie_kernel q))))"
  by (rule mincu_scan_picks_least_usage) (simp_all add: tie_kernel_def blank_kernel_def)

text \<open>
  C13. The tie rule does not look at the quota: with quotas enabled and a runnable process within
  its quota, the scan can still choose a process that has used up its own.
\<close>

theorem mincu_tie_ignores_quota:
  "\<exists>m k'. mincu_scan 0 True tie_kernel = Inr (m, k') \<and> min_cu_proc m = Some 1 \<and>
     \<not> within_quota tie_kernel 1 \<and> runnable tie_kernel 0 \<and> within_quota tie_kernel 0"
proof -
  define k0 where "k0 = push_off_c 0 tie_kernel"
  let ?m0 = "\<lparr>min_cu = 0xFFFFFFFF, min_cu_proc = None, quota_enable = True\<rparr>"
  let ?m1 = "\<lparr>min_cu = 5, min_cu_proc = Some 0, quota_enable = True\<rparr>"
  let ?m2 = "\<lparr>min_cu = 5, min_cu_proc = Some 1, quota_enable = True\<rparr>"
  have k0: "procs k0 = procs tie_kernel" "plock k0 = (\<lambda>_. None)" "c_noff (kcpus k0 0) = 1"
    by (simp_all add: k0_def push_off_c_def tie_kernel_def blank_kernel_def)
  have t0: "p_state (procs tie_kernel 0) = RUNNABLE" "cusum tie_kernel 0 = 5"
    "quota (p_cpu_usage (procs tie_kernel 0)) = 10" "p_deadline (procs tie_kernel 0) = -1"
    and t1: "p_state (procs tie_kernel 1) = RUNNABLE" "cusum tie_kernel 1 = 5"
    "quota (p_cpu_usage (procs tie_kernel 1)) = 3" "p_deadline (procs tie_kernel 1) = 100"
    by (simp_all add: tie_kernel_def)
  obtain k1 where k1: "acquire_p 0 0 k0 = Inr k1" "procs k1 = procs tie_kernel" "plock k1 = (plock k0)(0 := Some 0)"
    "c_noff (kcpus k1 0) = 2" "\<not> c_sie (kcpus k1 0)"
    using acquire_p_free [of k0 0 0] k0 by auto
  have v0: "mincu_visit 0 0 (?m0, k0) = Inr (?m1, k1)"
    by (simp add: mincu_visit_def Let_def k1(1,2) t0)
  obtain k2 where k2: "acquire_p 0 1 k1 = Inr k2" "procs k2 = procs tie_kernel" "plock k2 = (plock k1)(1 := Some 0)"
    "c_noff (kcpus k2 0) = 3" "\<not> c_sie (kcpus k2 0)"
    using acquire_p_free [of k1 1 0] k1 k0 by auto
  obtain k3 where k3: "release_p 0 0 k2 = Inr k3" "procs k3 = procs tie_kernel" "plock k3 = (plock k2)(0 := None)"
    "c_noff (kcpus k3 0) = 2"
    using release_p_held [of k2 0 0] k2 k1 by auto
  have v1: "mincu_visit 0 1 (?m1, k1) = Inr (?m2, k3)"
    using t0 t1 k2(1,2) k3(1) by (simp add: mincu_visit_def Let_def)
  have "\<exists>k'. foldR (\<lambda>i. mincu_visit 0 i) [2..<NPROC] (?m2, k3) = Inr (?m2, k') \<and> procs k' = procs k3 \<and> plock k' = plock k3"
  proof (rule skip_visits)
    show "1 \<le> c_noff (kcpus k3 0)" by (simp add: k3)
    show "plock k3 i = None \<and> \<not> runnable k3 i" if "i \<in> set [2..<NPROC]" for i
    proof -
      have "2 \<le> i" using that by (simp only: set_upt atLeastLessThan_iff)
      then show ?thesis
        by (simp add: k3(2,3) k2(3) k1(3) k0(2) runnable_def tie_kernel_def blank_kernel_def blank_proc_def)
    qed
  qed
  then obtain k4 where k4: "foldR (\<lambda>i. mincu_visit 0 i) [2..<NPROC] (?m2, k3) = Inr (?m2, k4)" by blast
  have "[0..<NPROC] = 0 # 1 # [2..<NPROC]"
    using upt_conv_Cons [of 0 64] upt_conv_Cons [of 1 64] by (simp add: numeral_2_eq_2 del: upt_rec_numeral)
  then have fold: "foldR (\<lambda>i. mincu_visit 0 i) [0..<NPROC] (?m0, k0) = Inr (?m2, k4)"
    by (simp only: foldR.simps v0 v1 k4 bindR_simps)
  have free: "plock tie_kernel j = None" "0 \<le> c_noff (kcpus tie_kernel 0)" for j
    by (simp_all add: tie_kernel_def blank_kernel_def)
  obtain m k' where sc: "mincu_scan 0 True tie_kernel = Inr (m, k')"
    using mincu_scan_spec [OF free] by blast
  then have "m = ?m2" unfolding mincu_scan_def k0_def [symmetric] fold by auto
  then show ?thesis using sc t0 t1 by (auto simp: within_quota_def runnable_def)
qed



end
