(* ===== verification/Thread.thy ===== *)
theory Thread
  imports Sched
begin

section \<open>kernel/proc.c: user threads\<close>

text \<open>
  Threads of a process: creation, join, cleanup and stop. A thread has its own trapframe page. A
  call that gives up the CPU and later returns straight to user space (\<open>yield(); usertrapret();\<close>)
  ends here with the result None and the state in which it called \<open>swtch\<close>. A store through a null
  pointer faults in the kernel, which \<open>kerneltrap\<close> turns into a panic.
\<close>

definition init_main_thread :: "nat \<Rightarrow> nat \<Rightarrow> kernel \<Rightarrow> kernel" where
  "init_main_thread c i k =
     (if t_state (p_threads (procs k i) 0) = THREAD_FREE then
        let (tid, k1) = alloctid k
        in upd_cpu c (\<lambda>u. u\<lparr>c_thread := Some (i, 0)\<rparr>)
             (upd_thread i 0 (\<lambda>t. \<lparr>t_state = THREAD_RUNNING, t_trapframe = p_trapframe (procs k i), t_cpu = Some c,
                t_id = ucast tid, t_join = 0\<rparr>) k1)
      else k)"

definition thread_trapframe :: "uint64 \<Rightarrow> uint64 \<Rightarrow> uint64 \<Rightarrow> uint64 \<Rightarrow> memory \<Rightarrow> memory" where
  "thread_trapframe tf runner arg stack m =
     store64 (store64 (store64 (store64 (mem_write m tf (replicate TF_SIZE 0))
       (tf + TF_EPC) runner) (tf + TF_SP) stack) (tf + TF_A0) arg) (tf + TF_RA) (-1)"

definition create_thread :: "nat \<Rightarrow> nat \<Rightarrow> uint64 \<Rightarrow> uint64 \<Rightarrow> uint64 \<Rightarrow> kernel \<Rightarrow> (cint \<times> kernel) res" where
  "create_thread c i runner arg stack k =
     (let k1 = init_main_thread c i k
      in case List.find (\<lambda>j. t_state (p_threads (procs k1 i) j) = THREAD_FREE) [0..<MAX_THREAD] of
           None \<Rightarrow> Inr (-1, k1)
         | Some j \<Rightarrow>
             let (tid, k2) = alloctid k1;
                 (tf, s1) = kalloc (pm k2);
                 k3 = upd_thread i j (\<lambda>t. \<lparr>t_state = THREAD_RUNNABLE, t_trapframe = tf, t_cpu = None,
                   t_id = ucast tid, t_join = 0\<rparr>) (k2\<lparr>pm := s1\<rparr>)
             in if tf = 0 then panic ''kerneltrap''
                else Inr (tid, k3\<lparr>pm := (pm k3)\<lparr>mem := thread_trapframe tf runner arg stack (mem (pm k3))\<rparr>\<rparr>))"

definition join_thread :: "nat \<Rightarrow> nat \<Rightarrow> cint \<Rightarrow> kernel \<Rightarrow> (cint option \<times> kernel) res" where
  "join_thread c i tid k =
     (if \<exists>j<MAX_THREAD. t_id (p_threads (procs k i) j) = ucast tid \<and> t_state (p_threads (procs k i) j) \<noteq> THREAD_FREE then
        (case c_thread (kcpus k c) of
           None \<Rightarrow> panic ''kerneltrap''
         | Some (q, j) \<Rightarrow>
             bindR (yield c (upd_thread q j (\<lambda>t. t\<lparr>t_join := ucast tid, t_state := THREAD_JOINED\<rparr>) k)) (\<lambda>k1.
               Inr (None, k1)))
      else Inr (Some (-1), k))"

text \<open>
  The trapframes of the threads that are not free go back to the allocator when the main thread
  cleans up.
\<close>

definition free_trapframes :: "nat \<Rightarrow> kernel \<Rightarrow> kernel res" where
  "free_trapframes i k =
     foldR (\<lambda>j k. if t_state (p_threads (procs k i) j) \<noteq> THREAD_FREE
       then bindR (kfree (t_trapframe (p_threads (procs k i) j)) (pm k)) (\<lambda>s. Inr (k\<lparr>pm := s\<rparr>))
       else Inr k) [0..<MAX_THREAD] k"

definition wake_joined :: "nat \<Rightarrow> uint \<Rightarrow> kernel \<Rightarrow> kernel" where
  "wake_joined i tid k =
     fold (\<lambda>j k. if t_state (p_threads (procs k i) j) = THREAD_JOINED \<and> t_join (p_threads (procs k i) j) = tid
       then upd_thread i j (\<lambda>t. t\<lparr>t_join := 0, t_state := THREAD_RUNNABLE\<rparr>) k else k) [0..<MAX_THREAD] k"

text \<open>\<open>exit_k\<close> is \<open>exit\<close> with the file operations it calls.\<close>

definition thread_cleanup :: "(nat \<Rightarrow> cint \<Rightarrow> kernel \<Rightarrow> kernel res) \<Rightarrow> nat \<Rightarrow> nat \<Rightarrow> uint \<Rightarrow> kernel \<Rightarrow> (cint option \<times> kernel) res" where
  "thread_cleanup exit_k c i tid k =
     (case List.find (\<lambda>j. t_id (p_threads (procs k i) j) = tid) [0..<MAX_THREAD] of
        None \<Rightarrow> Inr (Some (-1), k)
      | Some j \<Rightarrow>
          if t_state (p_threads (procs k i) j) \<noteq> THREAD_FREE then
            let k1 = upd_thread i j (\<lambda>t. t\<lparr>t_cpu := None, t_state := THREAD_FREE\<rparr>) k
            in bindR (kfree (t_trapframe (p_threads (procs k i) j)) (pm k1)) (\<lambda>s.
                 let k2 = k1\<lparr>pm := s\<rparr>
                 in if tid = 1 then
                      bindR (free_trapframes i k2) (\<lambda>k3. bindR (exit_k i 0 k3) (\<lambda>k4. Inr (None, k4)))
                    else bindR (yield c (wake_joined i tid k2)) (\<lambda>k3. Inr (None, k3)))
          else bindR (yield c k) (\<lambda>k1. Inr (None, k1)))"

definition stop_thread :: "(nat \<Rightarrow> cint \<Rightarrow> kernel \<Rightarrow> kernel res) \<Rightarrow> nat \<Rightarrow> nat \<Rightarrow> cint \<Rightarrow> kernel \<Rightarrow> (cint option \<times> kernel) res" where
  "stop_thread exit_k c i tid k =
     (if tid = -1 then
        (case c_thread (kcpus k c) of
           None \<Rightarrow> Inr (Some 0, k)
         | Some (q, j) \<Rightarrow>
             bindR (thread_cleanup exit_k c i (t_id (p_threads (procs k q) j)) k) (\<lambda>(r, k1).
               Inr (case r of None \<Rightarrow> None | Some _ \<Rightarrow> Some 0, k1)))
      else thread_cleanup exit_k c i (ucast tid) k)"

lemma upd_thread_simps [simp]:
  "pm (upd_thread i j f k) = pm k" "kcpus (upd_thread i j f k) = kcpus k" "plock (upd_thread i j f k) = plock k"
  "nexttid (upd_thread i j f k) = nexttid k"
  "p_trapframe (procs (upd_thread i j f k) q) = p_trapframe (procs k q)"
  "p_state (procs (upd_thread i j f k) q) = p_state (procs k q)"
  "p_running_threads_count (procs (upd_thread i j f k) q) = p_running_threads_count (procs k q)"
  "p_threads (procs (upd_thread i j f k) q) = (if q = i then (p_threads (procs k i))(j := f (p_threads (procs k i) j)) else p_threads (procs k q))"
  by (simp_all add: upd_thread_def)

subsection \<open>Properties\<close>

text \<open>
  C15. \<open>create_thread\<close> either finds no free slot, changes nothing beyond the main thread's entry
  and returns -1, or returns the id of a new thread, in a slot that was free, that starts at
  \<open>runner\<close> with its argument in a0, its stack pointer at the given stack and return address -1.
\<close>

theorem create_thread_starts_at_runner:
  assumes "create_thread c i runner arg stack k = Inr (tid, k')"
  shows "tid = -1 \<and> k' = init_main_thread c i k \<and>
       (\<forall>j<MAX_THREAD. t_state (p_threads (procs k' i) j) \<noteq> THREAD_FREE) \<or>
     (\<exists>j<MAX_THREAD. t_state (p_threads (procs (init_main_thread c i k) i) j) = THREAD_FREE \<and>
       t_state (p_threads (procs k' i) j) = THREAD_RUNNABLE \<and> t_id (p_threads (procs k' i) j) = ucast tid \<and>
       (let tf = t_trapframe (p_threads (procs k' i) j); m = mem (pm k')
        in load64 m (tf + TF_EPC) = runner \<and> load64 m (tf + TF_SP) = stack \<and> load64 m (tf + TF_A0) = arg \<and>
           load64 m (tf + TF_RA) = -1))"
proof (cases "List.find (\<lambda>j. t_state (p_threads (procs (init_main_thread c i k) i) j) = THREAD_FREE) [0..<MAX_THREAD]")
  case None
  then have r: "tid = -1" "k' = init_main_thread c i k"
    using assms by (simp_all add: create_thread_def Let_def del: upt_rec_numeral)
  then show ?thesis using None by (intro disjI1) (simp add: find_upt_None_iff del: upt_rec_numeral)
next
  case (Some j)
  define k1 where "k1 = init_main_thread c i k"
  have j: "List.find (\<lambda>j. t_state (p_threads (procs k1 i) j) = THREAD_FREE) [0..<MAX_THREAD] = Some j"
    using Some by (simp only: k1_def)
  then have jf: "j < MAX_THREAD" "t_state (p_threads (procs k1 i) j) = THREAD_FREE"
    by (auto simp: find_upt_Some_iff simp del: upt_rec_numeral)
  obtain tf s1 where tf: "kalloc (pm k1) = (tf, s1)" by fastforce
  define k3 where "k3 = upd_thread i j (\<lambda>t. \<lparr>t_state = THREAD_RUNNABLE, t_trapframe = tf, t_cpu = None,
     t_id = ucast (nexttid k1), t_join = 0\<rparr>) (k1\<lparr>nexttid := nexttid k1 + 1, pm := s1\<rparr>)"
  have k': "tid = nexttid k1" "k' = k3\<lparr>pm := (pm k3)\<lparr>mem := thread_trapframe tf runner arg stack (mem (pm k3))\<rparr>\<rparr>"
    using assms j tf by (auto simp: create_thread_def Let_def alloctid_def k3_def k1_def [symmetric] split: if_splits)
  have "load64 (thread_trapframe tf runner arg stack m) (tf + TF_EPC) = runner"
    "load64 (thread_trapframe tf runner arg stack m) (tf + TF_SP) = stack"
    "load64 (thread_trapframe tf runner arg stack m) (tf + TF_A0) = arg"
    "load64 (thread_trapframe tf runner arg stack m) (tf + TF_RA) = -1" for m
    by (simp_all add: thread_trapframe_def load64_store64_other)
  then show ?thesis using jf by (intro disjI2 exI [of _ j]) (simp add: k' k3_def k1_def [symmetric] Let_def)
qed

theorem create_thread_starts_at_runner_witness:
  "\<exists>tid k'. create_thread 0 0 0x1000 7 0x4000 blank_kernel = Inr (tid, k') \<and>
    (tid = -1 \<and> k' = init_main_thread 0 0 blank_kernel \<and>
       (\<forall>j<MAX_THREAD. t_state (p_threads (procs k' 0) j) \<noteq> THREAD_FREE) \<or>
     (\<exists>j<MAX_THREAD. t_state (p_threads (procs (init_main_thread 0 0 blank_kernel) 0) j) = THREAD_FREE \<and>
       t_state (p_threads (procs k' 0) j) = THREAD_RUNNABLE \<and> t_id (p_threads (procs k' 0) j) = ucast tid \<and>
       (let tf = t_trapframe (p_threads (procs k' 0) j); m = mem (pm k')
        in load64 m (tf + TF_EPC) = 0x1000 \<and> load64 m (tf + TF_SP) = 0x4000 \<and> load64 m (tf + TF_A0) = 7 \<and>
           load64 m (tf + TF_RA) = -1)))"
proof -
  have k1: "p_threads (procs (init_main_thread 0 0 blank_kernel) 0) 0 = \<lparr>t_state = THREAD_RUNNING, t_trapframe = 0,
      t_cpu = Some 0, t_id = 1, t_join = 0\<rparr>"
    "p_threads (procs (init_main_thread 0 0 blank_kernel) 0) (Suc 0) = blank_thread"
    "pm (init_main_thread 0 0 blank_kernel) = boot"
    by (simp_all add: init_main_thread_def alloctid_def blank_kernel_def blank_proc_def blank_thread_def)
  have f: "List.find (\<lambda>j. t_state (p_threads (procs (init_main_thread 0 0 blank_kernel) 0) j) = THREAD_FREE) [0..<MAX_THREAD] = Some 1"
    by (simp add: find_upt_Some_iff k1 blank_thread_def del: upt_rec_numeral)
  have "fst (kalloc boot) = 0x80023000" by (simp add: kalloc_def boot_def)
  then obtain r where r: "create_thread 0 0 0x1000 7 0x4000 blank_kernel = Inr r"
    by (simp add: create_thread_def Let_def f alloctid_def k1 split_beta del: upt_rec_numeral)
  then show ?thesis using create_thread_starts_at_runner [of 0 0 "0x1000" 7 "0x4000" blank_kernel "fst r" "snd r"]
    by (intro exI [of _ "fst r"] exI [of _ "snd r"]) simp
qed

end
