(* ===== verification/Procinfo.thy ===== *)
theory Procinfo
  imports Thread "HOL-Library.Multiset"
begin

section \<open>kernel/proc.c: process information and quotas\<close>

text \<open>
  \<open>child_processes\<close>, \<open>top\<close>, \<open>cpu_usage\<close>, \<open>set_cpu_quota\<close>, \<open>myrep\<close>, and the ring of trap reports of
  kernel/trap.c that \<open>myrep\<close> reads. The walks along \<open>parent\<close> pointers have no bound in the code:
  they are partial functions, and None is a walk that never ends. The structures that the caller
  passes in are records whose arrays are functions of the index; a store outside of an array, which
  in C overwrites the stack of the kernel, is the error \<open>out of bounds\<close>.
\<close>

subsection \<open>child_processes\<close>

record child_list =
  cp_count :: cint
  cp_processes :: "nat \<Rightarrow> proc_info"

partial_function (option) find_ancestor :: "kernel \<Rightarrow> nat \<Rightarrow> ptr \<Rightarrow> bool option" where
  "find_ancestor k me parent =
     (case parent of
        None \<Rightarrow> Some False
      | Some q \<Rightarrow> if q = me then Some True else find_ancestor k me (p_parent (procs k q)))"

text \<open>What the loop stores for the process j; the field \<open>cpu_usage\<close> keeps the caller's value.\<close>

definition child_entry :: "kernel \<Rightarrow> nat \<Rightarrow> proc_info \<Rightarrow> proc_info" where
  "child_entry k j e =
     e\<lparr>pi_name := strncpy_bytes 16 (p_name (procs k j)), pi_pid := p_pid (procs k j),
       pi_ppid := (case p_parent (procs k j) of None \<Rightarrow> 0 | Some q \<Rightarrow> p_pid (procs k q)),
       pi_state := p_state (procs k j)\<rparr>"

fun child_loop :: "kernel \<Rightarrow> nat \<Rightarrow> nat list \<Rightarrow> nat \<Rightarrow> child_list \<Rightarrow> child_list option" where
  "child_loop k me [] index cp = Some cp"
| "child_loop k me (j # js) index cp =
     (if p_state (procs k j) = UNUSED then child_loop k me js index cp
      else case find_ancestor k me (p_parent (procs k j)) of
          None \<Rightarrow> None
        | Some False \<Rightarrow> child_loop k me js index cp
        | Some True \<Rightarrow> child_loop k me js (Suc index)
            (cp\<lparr>cp_count := cp_count cp + 1,
              cp_processes := (cp_processes cp)(index := child_entry k j (cp_processes cp index))\<rparr>))"

definition child_processes :: "kernel \<Rightarrow> nat \<Rightarrow> child_list \<Rightarrow> child_list option" where
  "child_processes k me cp = child_loop k me [0..<NPROC] 0 cp"

subsection \<open>cpu_usage and top\<close>

definition cpu_usage_of :: "nat \<Rightarrow> kernel \<Rightarrow> cint" where
  "cpu_usage_of me k = sum_of_ticks (p_cpu_usage (procs k me))"

record top_list =
  tp_count :: cint
  tp_processes :: "nat \<Rightarrow> proc_info"

text \<open>
  The inner loop runs down from i - 1; its result is the position i that it leaves free for the new
  entry.
\<close>

fun top_shift :: "uint \<Rightarrow> nat \<Rightarrow> (nat \<Rightarrow> proc_info) \<Rightarrow> nat \<times> (nat \<Rightarrow> proc_info)" where
  "top_shift usage 0 a = (0, a)"
| "top_shift usage (Suc i) a =
     (if sum_of_ticks (pi_cpu_usage (a i)) \<le> usage then top_shift usage i (a(Suc i := a i)) else (Suc i, a))"

definition top_entry :: "kernel \<Rightarrow> nat \<Rightarrow> proc_info" where
  "top_entry k j =
     \<lparr>pi_name = strncpy_bytes 16 (p_name (procs k j)), pi_pid = p_pid (procs k j),
      pi_ppid = (case p_parent (procs k j) of None \<Rightarrow> 0 | Some q \<Rightarrow> p_pid (procs k q)),
      pi_state = p_state (procs k j), pi_cpu_usage = p_cpu_usage (procs k j)\<rparr>"

definition top_visit :: "kernel \<Rightarrow> nat \<Rightarrow> nat \<times> top_list \<Rightarrow> nat \<times> top_list" where
  "top_visit k j = (\<lambda>(index, t).
     if p_state (procs k j) = UNUSED then (index, t)
     else let (i, a) = top_shift (sum_of_ticks (p_cpu_usage (procs k j))) index (tp_processes t)
          in (Suc index, \<lparr>tp_count = tp_count t + 1, tp_processes = a(i := top_entry k j)\<rparr>))"

definition top_info :: "kernel \<Rightarrow> top_list \<Rightarrow> top_list" where
  "top_info k t = snd (fold (top_visit k) [0..<NPROC] (0, t\<lparr>tp_count := 0\<rparr>))"

subsection \<open>set_cpu_quota\<close>

text \<open>The loop leaves \<open>parent\<close> null (False) or equal to the caller (True).\<close>

partial_function (option) quota_loop :: "kernel \<Rightarrow> nat \<Rightarrow> nat \<Rightarrow> ptr \<Rightarrow> bool option" where
  "quota_loop k me target parent =
     (if parent \<noteq> None then
        if parent \<noteq> Some me then quota_loop k me target (p_parent (procs k target)) else Some True
      else Some False)"

definition set_cpu_quota :: "nat \<Rightarrow> cint \<Rightarrow> uint \<Rightarrow> kernel \<Rightarrow> (int \<times> kernel) option" where
  "set_cpu_quota me pid q k =
     (case List.find (\<lambda>i. p_pid (procs k i) = pid) [0..<NPROC] of
        None \<Rightarrow> Some (-1, k)
      | Some target \<Rightarrow>
          (case quota_loop k me target (Some target) of
             None \<Rightarrow> None
           | Some False \<Rightarrow> Some (-1, k)
           | Some True \<Rightarrow>
               Some (0, upd_proc target (\<lambda>p. p\<lparr>p_cpu_usage := (p_cpu_usage p)\<lparr>quota := q\<rparr>\<rparr>) k)))"

subsection \<open>The ring of trap reports: store_trap and myrep\<close>

text \<open>The section of \<open>store_trap\<close> under the lock of the list; its result is the new count.\<close>

definition store_report :: "report \<Rightarrow> internal_report_list \<Rightarrow> internal_report_list" where
  "store_report r l =
     (let wi = rl_write_index l
      in \<lparr>rl_reports = (rl_reports l)(wi := r), rl_count = rl_count l + 1,
          rl_write_index = (wi + 1) mod REPORT_BUFFER_SIZE\<rparr>)"

record report_traps =
  rt_reports :: "nat \<Rightarrow> report"
  rt_count :: cint

definition myrep_visit :: "cint \<Rightarrow> report \<Rightarrow> report_traps \<Rightarrow> report_traps res" where
  "myrep_visit pid r rt =
     (if pid \<in> set (r_ancestors r) then
        if 0 \<le> sint (rt_count rt) \<and> sint (rt_count rt) < int REPORT_BUFFER_SIZE
        then Inr \<lparr>rt_reports = (rt_reports rt)(unat (rt_count rt) := r), rt_count = rt_count rt + 1\<rparr>
        else panic ''out of bounds''
      else Inr rt)"

fun myrep_loop :: "cint \<Rightarrow> internal_report_list \<Rightarrow> nat \<Rightarrow> nat \<Rightarrow> report_traps \<Rightarrow> report_traps res" where
  "myrep_loop pid l read_index 0 rt = Inr rt"
| "myrep_loop pid l read_index (Suc n) rt =
     bindR (myrep_visit pid (rl_reports l read_index) rt)
       (myrep_loop pid l ((read_index + 1) mod REPORT_BUFFER_SIZE) n)"

definition myrep :: "nat \<Rightarrow> report_traps \<Rightarrow> kernel \<Rightarrow> report_traps res" where
  "myrep me rt k =
     (let l = replist k;
          read_index = (if rl_count l \<le> int REPORT_BUFFER_SIZE then 0 else rl_write_index l)
      in myrep_loop (p_pid (procs k me)) l read_index (nat (min (int REPORT_BUFFER_SIZE) (rl_count l))) rt)"

subsection \<open>Properties of the walk along parents\<close>

definition parent_rel :: "kernel \<Rightarrow> nat \<Rightarrow> nat \<Rightarrow> bool" where
  "parent_rel k q j \<longleftrightarrow> p_parent (procs k j) = Some q"

definition descendant :: "kernel \<Rightarrow> nat \<Rightarrow> nat \<Rightarrow> bool" where
  "descendant k q j \<longleftrightarrow> (parent_rel k)\<^sup>+\<^sup>+ q j"

lemma find_ancestor_simps [simp]:
  "find_ancestor k me None = Some False"
  "find_ancestor k me (Some q) = (if q = me then Some True else find_ancestor k me (p_parent (procs k q)))"
  by (simp_all add: find_ancestor.simps)

lemma descendant_unfold:
  "descendant k me j \<longleftrightarrow> (\<exists>q. p_parent (procs k j) = Some q \<and> (q = me \<or> descendant k me q))"
proof -
  have "(parent_rel k)\<^sup>+\<^sup>+ me j \<longleftrightarrow> parent_rel k me j \<or> (\<exists>q. (parent_rel k)\<^sup>+\<^sup>+ me q \<and> parent_rel k q j)"
    by (auto elim: tranclp.cases intro: tranclp.r_into_trancl tranclp.trancl_into_trancl)
  then show ?thesis by (auto simp: descendant_def parent_rel_def)
qed

text \<open>Where the parent pointers have no cycle, the walk ends and decides whether \<open>me\<close> is above j.\<close>

lemma find_ancestor_descendant:
  assumes "wfP (parent_rel k)"
  shows "find_ancestor k me (p_parent (procs k j)) = Some (descendant k me j)"
  using assms
proof (induction j rule: wfp_induct_rule)
  case (less j)
  show ?case
  proof (cases "p_parent (procs k j)")
    case None
    then show ?thesis using descendant_unfold [of k me j] by simp
  next
    case (Some q)
    have "find_ancestor k me (p_parent (procs k q)) = Some (descendant k me q)"
      using Some by (intro less.IH) (simp add: parent_rel_def)
    then show ?thesis using Some descendant_unfold [of k me j] by simp
  qed
qed

definition descendants :: "kernel \<Rightarrow> nat \<Rightarrow> nat list \<Rightarrow> nat list" where
  "descendants k me = filter (\<lambda>j. p_state (procs k j) \<noteq> UNUSED \<and> descendant k me j)"

lemma child_loop_descendants:
  assumes "wfP (parent_rel k)"
  shows "\<exists>cp'. child_loop k me js index cp = Some cp' \<and>
    cp_count cp' = cp_count cp + of_nat (length (descendants k me js)) \<and>
    (\<forall>n. cp_processes cp' n = (if index \<le> n \<and> n < index + length (descendants k me js)
       then child_entry k (descendants k me js ! (n - index)) (cp_processes cp n) else cp_processes cp n))"
proof (induction js arbitrary: index cp)
  case Nil
  then show ?case by (auto simp: descendants_def)
next
  case (Cons j js)
  note fa = find_ancestor_descendant [OF assms, of me j]
  show ?case
  proof (cases "p_state (procs k j) \<noteq> UNUSED \<and> descendant k me j")
    case True
    let ?cp = "cp\<lparr>cp_count := cp_count cp + 1,
      cp_processes := (cp_processes cp)(index := child_entry k j (cp_processes cp index))\<rparr>"
    have d: "descendants k me (j # js) = j # descendants k me js" using True by (simp add: descendants_def)
    from Cons.IH [of "Suc index" ?cp] obtain cp' where cp': "child_loop k me js (Suc index) ?cp = Some cp'"
      "cp_count cp' = cp_count cp + 1 + of_nat (length (descendants k me js))"
      "\<And>n. cp_processes cp' n = (if Suc index \<le> n \<and> n < Suc index + length (descendants k me js)
         then child_entry k (descendants k me js ! (n - Suc index)) (cp_processes ?cp n) else cp_processes ?cp n)"
      by auto
    have "child_loop k me (j # js) index cp = Some cp'" using True fa cp'(1) by simp
    moreover have "cp_processes cp' n = (if index \<le> n \<and> n < index + length (descendants k me (j # js))
       then child_entry k (descendants k me (j # js) ! (n - index)) (cp_processes cp n) else cp_processes cp n)" for n
      by (cases "n = index") (auto simp: cp'(3) d nth_Cons' not_less_eq_eq)
    ultimately show ?thesis using cp'(2) by (auto simp: d)
  next
    case False
    then have "child_loop k me (j # js) index cp = child_loop k me js index cp" using fa by auto
    moreover have "descendants k me (j # js) = descendants k me js" using False by (auto simp: descendants_def)
    ultimately show ?thesis using Cons.IH [of index cp] by (simp only:)
  qed
qed

subsection \<open>top sorts the processes by usage\<close>

abbreviation usage :: "proc_info \<Rightarrow> uint" where
  "usage e \<equiv> sum_of_ticks (pi_cpu_usage e)"

lemma top_shift_spec:
  "top_shift u n a = (i, b) \<Longrightarrow> i \<le> n \<and> (\<forall>j<i. b j = a j) \<and> (\<forall>j>n. b j = a j) \<and> (\<forall>j. i \<le> j \<and> j < n \<longrightarrow> b (Suc j) = a j \<and> usage (a j) \<le> u) \<and>
    (0 < i \<longrightarrow> u < usage (a (i - 1)))"
proof (induction n arbitrary: a)
  case 0
  then show ?case by simp
next
  case (Suc n)
  show ?case
  proof (cases "usage (a n) \<le> u")
    case True
    then have "top_shift u n (a(Suc n := a n)) = (i, b)" using Suc.prems by simp
    note sp = Suc.IH [OF this]
    then have "i - 1 \<noteq> Suc n" by linarith
    then show ?thesis using sp True by (auto simp: less_Suc_eq)
  next
    case False
    then show ?thesis using Suc.prems by auto
  qed
qed

lemma insert_stable:
  fixes f :: "'a \<Rightarrow> 'b::linorder"
  assumes s: "sort_key f xs = rev (A @ B)" and A: "\<forall>y\<in>set A. f x < f y" and B: "\<forall>y\<in>set B. f y \<le> f x"
  shows "sort_key f (xs @ [x]) = rev (A @ x # B)"
proof (rule properties_for_sort_key)
  have "mset (A @ B) = mset xs" using arg_cong [OF s, of mset] by simp
  then show "mset (rev (A @ x # B)) = mset (xs @ [x])" by (simp add: ac_simps)
  have "sorted (map f (rev (A @ B)))" using sorted_sort_key [of f xs] s by simp
  then show "sorted (map f (rev (A @ x # B)))"
    using A B by (auto simp: sorted_append rev_map less_imp_le)
  fix z
  have "filter (\<lambda>y. f z = f y) (rev (A @ B)) = filter (\<lambda>y. f z = f y) xs"
    using sort_key_stable [of f "f z" xs] s by (simp add: eq_commute)
  moreover have "filter (\<lambda>y. f z = f y) (rev A) = []" if "f z = f x"
    using A that by (auto simp: filter_empty_conv)
  ultimately show "filter (\<lambda>y. f z = f y) (rev (A @ x # B)) = filter (\<lambda>y. f z = f y) (xs @ [x])"
    by auto
qed

lemma map_upt_insert:
  assumes "i \<le> n" and "\<forall>j<i. b j = a j" and "\<forall>j. i \<le> j \<and> j < n \<longrightarrow> b (Suc j) = a j"
  shows "map (b(i := x)) [0..<Suc n] = take i (map a [0..<n]) @ x # drop i (map a [0..<n])"
proof (rule nth_equalityI)
  show "length (map (b(i := x)) [0..<Suc n]) = length (take i (map a [0..<n]) @ x # drop i (map a [0..<n]))"
    using assms(1) by simp
  fix j assume "j < length (map (b(i := x)) [0..<Suc n])"
  then have j: "j < Suc n" by simp
  then have "map (b(i := x)) [0..<Suc n] ! j = (b(i := x)) j" by (simp del: upt_Suc)
  also have "\<dots> = (take i (map a [0..<n]) @ x # drop i (map a [0..<n])) ! j"
  proof (cases "j \<le> i")
    case True
    then show ?thesis using assms j by (auto simp: nth_append)
  next
    case False
    then obtain m where m: "j = Suc m" "i \<le> m" "m < n" using j by (cases j) auto
    then show ?thesis using assms(3) by (auto simp: nth_append Suc_diff_le)
  qed
  finally show "map (b(i := x)) [0..<Suc n] ! j = (take i (map a [0..<n]) @ x # drop i (map a [0..<n])) ! j" .
qed

definition top_sorted :: "proc_info list \<Rightarrow> nat \<times> top_list \<Rightarrow> bool" where
  "top_sorted es = (\<lambda>(index, t). index = length es \<and> tp_count t = of_nat index \<and>
     map (tp_processes t) [0..<index] = rev (sort_key usage es))"

lemma top_visit_sorted:
  assumes "top_sorted es st" and "p_state (procs k j) \<noteq> UNUSED"
  shows "top_sorted (es @ [top_entry k j]) (top_visit k j st)"
proof -
  obtain n t where st: "st = (n, t)" by (cases st)
  let ?u = "sum_of_ticks (p_cpu_usage (procs k j))" and ?a = "tp_processes t"
  obtain i b where b: "top_shift ?u n ?a = (i, b)" by fastforce
  let ?A = "take i (map ?a [0..<n])" and ?B = "drop i (map ?a [0..<n])"
  note sp = top_shift_spec [OF b]
  have ua: "usage (top_entry k j) = ?u" by (simp add: top_entry_def)
  have s: "sort_key usage es = rev (?A @ ?B)" "n = length es" "tp_count t = of_nat n"
    using assms(1) by (auto simp: top_sorted_def st)
  have B: "\<forall>y\<in>set ?B. usage y \<le> usage (top_entry k j)"
    using sp by (auto simp: ua drop_map)
  have srt: "sorted (map usage (rev (map ?a [0..<n])))"
    using s(1) sorted_sort_key [of usage es] by simp
  have A: "\<forall>y\<in>set ?A. usage (top_entry k j) < usage y"
  proof
    fix y assume "y \<in> set ?A"
    then obtain m where m: "m < i" "y = ?a m" using sp by (auto simp: take_map)
    have "sorted_wrt (\<ge>) (map usage (map ?a [0..<n]))"
      using srt by (simp add: rev_map [symmetric] sorted_wrt_rev)
    then have "usage (?a (i - 1)) \<le> usage (?a m)"
      using m sp by (cases "m = i - 1") (auto simp: sorted_wrt_iff_nth_less)
    then show "usage (top_entry k j) < usage y" using sp m by (auto simp: ua intro: less_le_trans)
  qed
  have "map (b(i := top_entry k j)) [0..<Suc n] = ?A @ top_entry k j # ?B"
    using sp by (intro map_upt_insert) auto
  then have "map (b(i := top_entry k j)) [0..<Suc n] = rev (sort_key usage (es @ [top_entry k j]))"
    using insert_stable [OF s(1) A B] by simp
  then show ?thesis using assms(2) s(2,3) b
    by (simp add: top_sorted_def top_visit_def st del: upt_Suc)
qed

lemma top_fold_sorted:
  "top_sorted es st \<Longrightarrow>
    top_sorted (es @ map (top_entry k) (filter (\<lambda>j. p_state (procs k j) \<noteq> UNUSED) js)) (fold (top_visit k) js st)"
proof (induction js arbitrary: es st)
  case Nil
  then show ?case by simp
next
  case (Cons j js)
  show ?case
  proof (cases "p_state (procs k j) = UNUSED")
    case True
    then have "top_visit k j st = st" by (cases st) (simp add: top_visit_def)
    then show ?thesis using True Cons by simp
  next
    case False
    from Cons.IH [OF top_visit_sorted [OF Cons.prems False]] show ?thesis using False by simp
  qed
qed

text \<open>
  C19. \<open>top\<close> returns the entries of all processes in use in descending order of their CPU usage:
  the reverse of the stable sort by usage of the process table, which puts the later of two
  processes with equal usage first, with their number in \<open>count\<close>.
\<close>

theorem top_is_sorted_table:
  "let es = map (top_entry k) (filter (\<lambda>j. p_state (procs k j) \<noteq> UNUSED) [0..<NPROC])
   in tp_count (top_info k t) = of_nat (length es) \<and>
      map (tp_processes (top_info k t)) [0..<length es] = rev (sort_key usage es)"
proof -
  have "top_sorted [] (0, t\<lparr>tp_count := 0\<rparr>)" by (simp add: top_sorted_def)
  from top_fold_sorted [OF this, of k "[0..<NPROC]"] show ?thesis
    by (auto simp: top_sorted_def top_info_def Let_def split_beta simp del: upt_rec_numeral)
qed

subsection \<open>The quota of another process\<close>

lemma quota_loop_stop:
  "quota_loop k me target None = Some False" "quota_loop k me target (Some me) = Some True"
  by (simp_all add: quota_loop.simps)

lemma quota_loop_step: "q \<noteq> me \<Longrightarrow> quota_loop k me target (Some q) = quota_loop k me target (p_parent (procs k target))"
  by (simp add: quota_loop.simps)

text \<open>The loop reads \<open>target_proc->parent\<close> again and again: it does not move up the tree.\<close>

lemma quota_loop_diverges:
  assumes "p_parent (procs k target) = Some q" and "q \<noteq> me" and "r \<noteq> me"
  shows "quota_loop k me target (Some r) = None"
proof (rule ccontr)
  assume "quota_loop k me target (Some r) \<noteq> None"
  then obtain v where v: "quota_loop k me target (Some r) = Some v" by auto
  have "p_parent (procs k target) = Some q \<longrightarrow> Some r \<noteq> Some me \<longrightarrow> q \<noteq> me \<longrightarrow> Some r \<noteq> None \<longrightarrow> False"
  proof (rule quota_loop.raw_induct [OF _ v, where P = "\<lambda>k me target par v. p_parent (procs k target) = Some q \<longrightarrow>
      par \<noteq> Some me \<longrightarrow> q \<noteq> me \<longrightarrow> par \<noteq> None \<longrightarrow> False"])
    fix f k me target par v
    assume IH: "\<And>k me target par v. f k me target par = Some v \<Longrightarrow> p_parent (procs k target) = Some q \<longrightarrow>
      par \<noteq> Some me \<longrightarrow> q \<noteq> me \<longrightarrow> par \<noteq> None \<longrightarrow> False"
      and r: "(if par \<noteq> None then if par \<noteq> Some me then f k me target (p_parent (procs k target)) else Some True
        else Some False) = Some v"
    show "p_parent (procs k target) = Some q \<longrightarrow> par \<noteq> Some me \<longrightarrow> q \<noteq> me \<longrightarrow> par \<noteq> None \<longrightarrow> False"
    proof (intro impI)
      assume a: "p_parent (procs k target) = Some q" "par \<noteq> Some me" "q \<noteq> me" "par \<noteq> None"
      then have "f k me target (Some q) = Some v" using r by (metis (full_types))
      from IH [OF this] a show False by simp
    qed
  qed
  then show False using assms by simp
qed

text \<open>
  C20. \<open>set_cpu_quota\<close> returns exactly when the process is not found, is the caller itself, has no
  parent, or is a child of the caller; for every other process, in particular for each grandchild
  of the caller, its loop never ends.
\<close>

theorem set_cpu_quota_returns_iff:
  "set_cpu_quota me pid q k \<noteq> None \<longleftrightarrow>
     (case List.find (\<lambda>i. p_pid (procs k i) = pid) [0..<NPROC] of
        None \<Rightarrow> True
      | Some target \<Rightarrow> target = me \<or> p_parent (procs k target) = None \<or> p_parent (procs k target) = Some me)"
proof (cases "List.find (\<lambda>i. p_pid (procs k i) = pid) [0..<NPROC]")
  case None
  then show ?thesis by (simp add: set_cpu_quota_def del: upt_rec_numeral)
next
  case (Some target)
  have "quota_loop k me target (Some target) \<noteq> None \<longleftrightarrow>
      target = me \<or> p_parent (procs k target) = None \<or> p_parent (procs k target) = Some me"
  proof (cases "target = me")
    case True
    then show ?thesis by (simp add: quota_loop_stop)
  next
    case False
    note st = quota_loop_step [OF this, of k target]
    show ?thesis
    proof (cases "p_parent (procs k target) = None \<or> p_parent (procs k target) = Some me")
      case True
      then show ?thesis using st by (auto simp: quota_loop_stop)
    next
      case f: False
      then obtain r where "p_parent (procs k target) = Some r" "r \<noteq> me" by auto
      from quota_loop_diverges [OF this False] f False show ?thesis by simp
    qed
  qed
  then show ?thesis using Some
    by (auto simp: set_cpu_quota_def simp del: upt_rec_numeral split: option.splits bool.splits)
qed

subsection \<open>The ring keeps the last ten reports\<close>

definition empty_reports :: internal_report_list where
  "empty_reports = \<lparr>rl_reports = (\<lambda>_. blank_report), rl_count = 0, rl_write_index = 0\<rparr>"

definition ring_holds :: "report list \<Rightarrow> internal_report_list \<Rightarrow> bool" where
  "ring_holds rs l \<longleftrightarrow> rl_count l = int (length rs) \<and> rl_write_index l = length rs mod REPORT_BUFFER_SIZE \<and>
     (\<forall>i<length rs. length rs \<le> i + REPORT_BUFFER_SIZE \<longrightarrow> rl_reports l (i mod REPORT_BUFFER_SIZE) = rs ! i)"

lemma ring_holds_empty: "ring_holds [] empty_reports"
  by (simp add: ring_holds_def empty_reports_def)

lemma ring_holds_store:
  assumes "ring_holds rs l"
  shows "ring_holds (rs @ [r]) (store_report r l)"
proof -
  have "rl_reports (store_report r l) (i mod 10) = (rs @ [r]) ! i"
    if i: "i < length (rs @ [r])" "length (rs @ [r]) \<le> i + 10" for i
  proof (cases "i = length rs")
    case True
    then show ?thesis using assms by (simp add: ring_holds_def store_report_def Let_def)
  next
    case False
    then have "i < length rs" "length rs < i + 10" using i by auto
    then have "(0 + i) mod 10 \<noteq> (0 + length rs) mod 10" by (intro add_mod_distinct) auto
    then show ?thesis using assms \<open>i < length rs\<close> \<open>length rs < i + 10\<close>
      by (simp add: ring_holds_def store_report_def Let_def nth_append)
  qed
  then show ?thesis using assms by (simp add: ring_holds_def store_report_def Let_def mod_Suc_eq)
qed

lemma ring_holds_fold: "ring_holds rs l \<Longrightarrow> ring_holds (rs @ xs) (fold store_report xs l)"
proof (induction xs arbitrary: rs l)
  case (Cons x xs)
  from Cons.IH [OF ring_holds_store [OF Cons.prems]] show ?case by simp
qed simp

text \<open>The reports that \<open>myrep\<close> visits, oldest first.\<close>

definition recent :: "report list \<Rightarrow> report list" where
  "recent rs = drop (length rs - REPORT_BUFFER_SIZE) rs"

lemma myrep_visits_recent:
  assumes "ring_holds rs l"
  shows "myrep_loop pid l (if rl_count l \<le> int REPORT_BUFFER_SIZE then 0 else rl_write_index l)
      (nat (min (int REPORT_BUFFER_SIZE) (rl_count l))) rt = foldR (myrep_visit pid) (recent rs) rt"
proof -
  have loop: "myrep_loop pid l (i mod 10) n rt = foldR (myrep_visit pid) (drop i rs) rt"
    if "i + n = length rs" "n \<le> 10" for i n rt
    using that
  proof (induction n arbitrary: i rt)
    case 0
    then show ?case by simp
  next
    case (Suc n)
    then have i: "i < length rs" "length rs \<le> i + 10" by auto
    then have "rl_reports l (i mod 10) = rs ! i" using assms by (simp add: ring_holds_def)
    moreover have "drop i rs = rs ! i # drop (Suc i) rs" using i(1) by (simp add: Cons_nth_drop_Suc)
    moreover have "(i mod 10 + 1) mod 10 = Suc i mod 10" by (simp add: mod_Suc_eq)
    ultimately show ?case using Suc.IH [of "Suc i"] Suc.prems by (auto intro: bindR_cong)
  qed
  show ?thesis
  proof (cases "length rs \<le> 10")
    case True
    then show ?thesis using loop [of 0 "length rs" rt] assms by (simp add: ring_holds_def recent_def)
  next
    case False
    then have "(length rs - 10) mod 10 = length rs mod 10" by (simp add: le_mod_geq [symmetric])
    then show ?thesis using False loop [of "length rs - 10" 10 rt] assms by (simp add: ring_holds_def recent_def)
  qed
qed




definition report_of :: "cint \<Rightarrow> cint list \<Rightarrow> report" where
  "report_of pid anc = blank_report\<lparr>r_pid := pid, r_ancestors := anc\<rparr>"



text \<open>
  C22. The count in the caller's structure is trusted: with a count of ten or more that the caller
  chose, one report of a process below the caller is enough for \<open>myrep\<close> to store outside of the
  array on the kernel's stack.
\<close>

theorem myrep_overflows_on_user_count:
  assumes "ring_holds rs (replist k)" and "r \<in> set (drop (length rs - REPORT_BUFFER_SIZE) rs)"
    and "p_pid (procs k me) \<in> set (r_ancestors r)" and "sint (rt_count rt) \<ge> 10"
  shows "myrep me rt k = panic ''out of bounds''"
proof -
  have "foldR (myrep_visit (p_pid (procs k me))) xs rt = panic ''out of bounds''" if "r \<in> set xs" for xs
    using that
  proof (induction xs)
    case (Cons x xs)
    then show ?case using assms(3,4) by (auto simp: myrep_visit_def)
  qed simp
  then show ?thesis using assms(1,2) myrep_visits_recent by (simp add: myrep_def Let_def recent_def)
qed

theorem myrep_overflows_on_user_count_witness:
  "myrep 0 \<lparr>rt_reports = (\<lambda>_. blank_report), rt_count = 10\<rparr>
      (blank_kernel\<lparr>replist := fold store_report [report_of 3 [0]] empty_reports\<rparr>) = panic ''out of bounds''"
  by (rule myrep_overflows_on_user_count [of "[report_of 3 [0]]" _ "report_of 3 [0]"])
    (use ring_holds_fold [OF ring_holds_empty, of "[report_of 3 [0]]"]
      in \<open>simp_all add: report_of_def blank_kernel_def blank_proc_def\<close>)

end
