(* ===== verification/Proctree.thy ===== *)
theory Proctree
  imports Procinfo
begin

section \<open>The process tree\<close>

text \<open>
  The invariant that keeps the parent pointers a tree: a process points to a live parent with a
  smaller pid, and \<open>initproc\<close>, to which orphans go, has the smallest. Forking, exiting, waiting,
  killing and the scheduler's changes of state are the steps; the invariant holds along every
  sequence of them, so the walks along the parents end.
\<close>

subsection \<open>What the operations do to state, pid and parent\<close>

lemma freeproc_tree:
  assumes "freeproc i k = Inr k'"
  shows "p_state (procs k' j) = (if j = i then UNUSED else p_state (procs k j))"
    "p_pid (procs k' j) = (if j = i then 0 else p_pid (procs k j))"
    "p_parent (procs k' j) = (if j = i then None else p_parent (procs k j))"
    "nextpid k' = nextpid k" "initproc k' = initproc k"
  using assms by (auto simp: freeproc_def Let_def)

lemma allocproc_tree:
  assumes "allocproc tr fr k = Inr (r, k')"
  shows "(case r of
      Some i \<Rightarrow> i < NPROC \<and> p_state (procs k i) = UNUSED \<and> nextpid k' = nextpid k + 1 \<and> initproc k' = initproc k \<and>
        (\<forall>j. p_state (procs k' j) = (if j = i then USED else p_state (procs k j)) \<and>
          p_pid (procs k' j) = (if j = i then nextpid k else p_pid (procs k j)) \<and>
          p_parent (procs k' j) = p_parent (procs k j))
    | None \<Rightarrow> k' = k \<or> (\<exists>i<NPROC. p_state (procs k i) = UNUSED \<and> nextpid k' = nextpid k + 1 \<and> initproc k' = initproc k \<and>
        (\<forall>j. p_state (procs k' j) = p_state (procs k j) \<and>
          p_pid (procs k' j) = (if j = i then 0 else p_pid (procs k j)) \<and>
          p_parent (procs k' j) = (if j = i then None else p_parent (procs k j)))))"
proof (cases "List.find (\<lambda>i. p_state (procs k i) = UNUSED) [0..<NPROC]")
  case None
  then show ?thesis using assms by (simp add: allocproc_def del: upt_rec_numeral)
next
  case (Some i)
  then have i: "i < NPROC" "p_state (procs k i) = UNUSED"
    by (auto simp: find_upt_Some_iff simp del: upt_rec_numeral)
  show ?thesis
  proof (cases r)
    case None
    then show ?thesis using assms Some i
      by (auto simp: allocproc_def allocpid_def Let_def freeproc_tree split_beta split: if_splits
        simp del: upt_rec_numeral intro!: exI [of _ i])
  next
    case (Some i')
    then show ?thesis using assms \<open>List.find _ _ = Some i\<close> i
      by (auto simp: allocproc_def allocpid_def Let_def split_beta split: if_splits simp del: upt_rec_numeral)
  qed
qed

lemma dup_files_tree:
  assumes "dup_files i np k = Inr k'"
  shows "(\<forall>j. p_state (procs k' j) = p_state (procs k j) \<and> p_pid (procs k' j) = p_pid (procs k j) \<and>
    p_parent (procs k' j) = p_parent (procs k j)) \<and> nextpid k' = nextpid k \<and> initproc k' = initproc k"
  using assms unfolding dup_files_def
  by (rule foldR_invariant) (auto simp: filedup_def split: option.splits if_splits)

lemma fork_core_tree:
  assumes "fork_core tr fr i k = Inr (r, k')"
  shows "(case r of
      Some np \<Rightarrow> np < NPROC \<and> p_state (procs k np) = UNUSED \<and> nextpid k' = nextpid k + 1 \<and> initproc k' = initproc k \<and>
        (\<forall>j. p_state (procs k' j) = (if j = np then RUNNABLE else p_state (procs k j)) \<and>
          p_pid (procs k' j) = (if j = np then nextpid k else p_pid (procs k j)) \<and>
          p_parent (procs k' j) = (if j = np then Some i else p_parent (procs k j)))
    | None \<Rightarrow> k' = k \<or> (\<exists>np<NPROC. p_state (procs k np) = UNUSED \<and> nextpid k' = nextpid k + 1 \<and> initproc k' = initproc k \<and>
        (\<forall>j. p_state (procs k' j) = p_state (procs k j) \<and>
          p_pid (procs k' j) = (if j = np then 0 else p_pid (procs k j)) \<and>
          p_parent (procs k' j) = (if j = np then None else p_parent (procs k j)))))"
proof -
  from assms obtain a k1 where a: "allocproc tr fr k = Inr (a, k1)"
    by (auto simp: fork_core_def)
  note al = allocproc_tree [OF a]
  show ?thesis
  proof (cases a)
    case None
    then show ?thesis using assms a al by (auto simp: fork_core_def)
  next
    case (Some np)
    let ?u = "uvmcopy (p_pagetable (procs k1 i)) (p_pagetable (procs k1 np)) (p_sz (procs k1 i)) (pm k1)"
    from assms a Some obtain c s1 where u: "?u = Inr (c, s1)" by (auto simp: fork_core_def)
    show ?thesis
    proof (cases "c < 0")
      case True
      then obtain k2 where "freeproc np (k1\<lparr>pm := s1\<rparr>) = Inr k2" and r: "r = None" "k' = k2"
        using assms a Some u by (auto simp: fork_core_def)
      note f = freeproc_tree [OF this(1)]
      show ?thesis using al by (auto simp: r Some f intro!: disjI2 exI [of _ np])
    next
      case False
      let ?m = "store64 (copy_trapframe (p_trapframe (procs k1 np)) (p_trapframe (procs k1 i)) (mem s1))
        (p_trapframe (procs k1 np) + TF_A0) 0"
      let ?k2 = "upd_proc np (\<lambda>p. p\<lparr>p_sz := p_sz (procs k1 i)\<rparr>) (k1\<lparr>pm := s1\<lparr>mem := ?m\<rparr>\<rparr>)"
      from False assms a Some u obtain k3 where d: "dup_files i np ?k2 = Inr k3"
        and c: "(case p_cwd (procs k3 i) of None \<Rightarrow> panic ''null dereference''
           | Some cwd \<Rightarrow> Inr (Some np, upd_proc np (\<lambda>p. p\<lparr>p_cwd := Some cwd,
              p_name := safestrcpy_bytes 16 (p_name p) (p_name (procs k3 i)),
              p_parent := Some i, p_state := RUNNABLE\<rparr>) (idup cwd k3))) = Inr (r, k')"
        by (auto simp: fork_core_def Let_def)
      then obtain cwd where r: "r = Some np" "k' = upd_proc np (\<lambda>p. p\<lparr>p_cwd := Some cwd,
              p_name := safestrcpy_bytes 16 (p_name p) (p_name (procs k3 i)),
              p_parent := Some i, p_state := RUNNABLE\<rparr>) (idup cwd k3)"
        by (auto split: option.splits)
      note d = dup_files_tree [OF d]
      show ?thesis using al d by (auto simp: r Some idup_def)
    qed
  qed
qed

definition woken :: "procstate \<Rightarrow> procstate \<Rightarrow> bool" where
  "woken s t \<longleftrightarrow> t = s \<or> s = SLEEPING \<and> t = RUNNABLE"

lemma woken_trans: "woken s t \<Longrightarrow> woken t u \<Longrightarrow> woken s u"
  by (auto simp: woken_def)

lemma woken_live: "woken s t \<Longrightarrow> live t = live s" "woken s t \<Longrightarrow> t = UNUSED \<longleftrightarrow> s = UNUSED" "woken s t \<Longrightarrow> t = ZOMBIE \<longleftrightarrow> s = ZOMBIE"
  by (auto simp: woken_def live_def)

lemma wakeup_tree [simp]:
  "p_pid (procs (wakeup self ch k) j) = p_pid (procs k j)" "p_parent (procs (wakeup self ch k) j) = p_parent (procs k j)"
  "nextpid (wakeup self ch k) = nextpid k" "initproc (wakeup self ch k) = initproc k"
  "woken (p_state (procs k j)) (p_state (procs (wakeup self ch k) j))"
  by (simp_all add: wakeup_eq woken_def)

lemma reparent_tree:
  shows "p_pid (procs (reparent i k) j) = p_pid (procs k j)"
    "p_parent (procs (reparent i k) j) = (if j < NPROC \<and> p_parent (procs k j) = Some i then initproc k else p_parent (procs k j))"
    "woken (p_state (procs k j)) (p_state (procs (reparent i k) j))"
    "nextpid (reparent i k) = nextpid k" "initproc (reparent i k) = initproc k"
proof -
  define f where "f = (\<lambda>j k. if p_parent (procs k j) = Some i
       then (case initproc k of
           None \<Rightarrow> upd_proc j (\<lambda>p. p\<lparr>p_parent := None\<rparr>) k
         | Some ini \<Rightarrow> wakeup (Some i) (ChanProc ini) (upd_proc j (\<lambda>p. p\<lparr>p_parent := Some ini\<rparr>) k))
       else k)"
  have "\<forall>j. p_pid (procs (fold f [0..<n] k) j) = p_pid (procs k j) \<and>
      p_parent (procs (fold f [0..<n] k) j) = (if j < n \<and> p_parent (procs k j) = Some i then initproc k else p_parent (procs k j)) \<and>
      woken (p_state (procs k j)) (p_state (procs (fold f [0..<n] k) j)) \<and>
      nextpid (fold f [0..<n] k) = nextpid k \<and> initproc (fold f [0..<n] k) = initproc k" for n
  proof (induction n)
    case 0
    then show ?case by (simp add: woken_def)
  next
    case (Suc n)
    let ?k = "fold f [0..<n] k"
    have w: "woken (p_state (procs ?k j)) (p_state (procs (f n ?k) j))" for j
    proof -
      have "woken (p_state (procs ?k j)) (p_state (procs (wakeup (Some i) (ChanProc ini) (upd_proc n g ?k)) j))"
        if "\<And>p. p_state (g p) = p_state p" for ini g
        using wakeup_tree(5) [of "upd_proc n g ?k" j "Some i" "ChanProc ini"] that by (auto split: if_splits)
      then show ?thesis by (auto simp: f_def woken_def split: option.split)
    qed
    have "p_pid (procs (f n ?k) j) = p_pid (procs ?k j)" "nextpid (f n ?k) = nextpid ?k" "initproc (f n ?k) = initproc ?k"
      "p_parent (procs (f n ?k) j) = (if j = n \<and> p_parent (procs ?k j) = Some i then initproc ?k else p_parent (procs ?k j))" for j
      by (auto simp: f_def split: option.split)
    then show ?case using Suc w by (auto simp: less_Suc_eq intro: woken_trans)
  qed
  from this [of NPROC] show "p_pid (procs (reparent i k) j) = p_pid (procs k j)"
    "p_parent (procs (reparent i k) j) = (if j < NPROC \<and> p_parent (procs k j) = Some i then initproc k else p_parent (procs k j))"
    "woken (p_state (procs k j)) (p_state (procs (reparent i k) j))"
    "nextpid (reparent i k) = nextpid k" "initproc (reparent i k) = initproc k"
    unfolding reparent_def f_def by (simp_all del: upt_rec_numeral)
qed

lemma exit_tail_tree:
  shows "p_pid (procs (exit_tail i status k) j) = p_pid (procs k j)"
    "p_parent (procs (exit_tail i status k) j) = (if j < NPROC \<and> p_parent (procs k j) = Some i then initproc k else p_parent (procs k j))"
    "j \<noteq> i \<Longrightarrow> woken (p_state (procs k j)) (p_state (procs (exit_tail i status k) j))"
    "p_state (procs (exit_tail i status k) i) = ZOMBIE"
    "p_xstate (procs (exit_tail i status k) i) = status"
    "nextpid (exit_tail i status k) = nextpid k" "initproc (exit_tail i status k) = initproc k"
  using woken_trans [OF reparent_tree(3) wakeup_tree(5)]
  by (auto simp: exit_tail_def Let_def reparent_tree split: option.split)

lemma kill_tree:
  assumes "kill pid k = (r, k')"
  shows "p_pid (procs k' j) = p_pid (procs k j)" "p_parent (procs k' j) = p_parent (procs k j)"
    "woken (p_state (procs k j)) (p_state (procs k' j))" "nextpid k' = nextpid k" "initproc k' = initproc k"
  using assms by (auto simp: kill_def Let_def woken_def simp del: upt_rec_numeral split: option.splits if_splits)

lemma wait_tree:
  assumes "wait i addr k = Inr (r, k')"
  shows "(\<exists>j<NPROC. p_parent (procs k j) = Some i \<and> p_state (procs k j) = ZOMBIE \<and>
      (\<exists>s k1. k1 = k\<lparr>pm := s\<rparr> \<and> freeproc j k1 = Inr k')) \<or> (\<exists>s. k' = k\<lparr>pm := s\<rparr>)"
proof (cases "List.find (\<lambda>j. p_parent (procs k j) = Some i \<and> p_state (procs k j) = ZOMBIE) [0..<NPROC]")
  case None
  then have "k' = k\<lparr>pm := pm k\<rparr>" using assms by (auto simp: wait_def simp del: upt_rec_numeral split: if_splits)
  then show ?thesis by blast
next
  case (Some j)
  then have j: "j < NPROC" "p_parent (procs k j) = Some i" "p_state (procs k j) = ZOMBIE"
    by (auto simp: find_upt_Some_iff simp del: upt_rec_numeral)
  have "(\<exists>s. freeproc j (k\<lparr>pm := s\<rparr>) = Inr k') \<or> (\<exists>s. k' = k\<lparr>pm := s\<rparr>)"
    using assms Some
    by (auto simp: wait_def Let_def split_beta simp del: upt_rec_numeral split: if_splits intro: exI [of _ "pm k"])
  then show ?thesis using j by blast
qed

subsection \<open>The invariant\<close>

definition tree_inv :: "kernel \<Rightarrow> bool" where
  "tree_inv k \<longleftrightarrow>
     0 < sint (nextpid k) \<and>
     (\<forall>j. p_state (procs k j) \<noteq> UNUSED \<longrightarrow> j < NPROC \<and> 0 < sint (p_pid (procs k j)) \<and> sint (p_pid (procs k j)) < sint (nextpid k)) \<and>
     (\<forall>i j. p_state (procs k i) \<noteq> UNUSED \<and> p_state (procs k j) \<noteq> UNUSED \<and> p_pid (procs k i) = p_pid (procs k j) \<longrightarrow> i = j) \<and>
     (\<forall>j q. p_parent (procs k j) = Some q \<longrightarrow> p_state (procs k j) \<noteq> UNUSED \<and> live (p_state (procs k q)) \<and>
        sint (p_pid (procs k q)) < sint (p_pid (procs k j))) \<and>
     (\<forall>ini. initproc k = Some ini \<longrightarrow> live (p_state (procs k ini)) \<and>
        (\<forall>j. p_state (procs k j) \<noteq> UNUSED \<and> j \<noteq> ini \<longrightarrow> sint (p_pid (procs k ini)) < sint (p_pid (procs k j))))"

lemma sint_Suc_pid:
  fixes x :: cint
  assumes "sint x < 2 ^ 31 - 1"
  shows "sint (x + 1) = sint x + 1"
proof -
  have "sint (x + 1) = signed_take_bit 31 (sint x + 1)" by (simp add: sint_word_ariths)
  also have "\<dots> = sint x + 1"
    using assms sint_ge [of x] by (intro signed_take_bit_int_eq_self) simp_all
  finally show ?thesis .
qed

lemma tree_invD:
  assumes "tree_inv k"
  shows tree_next: "0 < sint (nextpid k)"
    and tree_pid: "p_state (procs k j) \<noteq> UNUSED \<Longrightarrow> j < NPROC \<and> 0 < sint (p_pid (procs k j)) \<and> sint (p_pid (procs k j)) < sint (nextpid k)"
    and tree_uniq: "p_state (procs k i) \<noteq> UNUSED \<Longrightarrow> p_state (procs k j) \<noteq> UNUSED \<Longrightarrow> p_pid (procs k i) = p_pid (procs k j) \<Longrightarrow> i = j"
    and tree_parent: "p_parent (procs k j) = Some q \<Longrightarrow> p_state (procs k j) \<noteq> UNUSED \<and> live (p_state (procs k q)) \<and>
        sint (p_pid (procs k q)) < sint (p_pid (procs k j))"
    and tree_init_live: "initproc k = Some ini \<Longrightarrow> live (p_state (procs k ini))"
    and tree_init: "initproc k = Some ini \<Longrightarrow> p_state (procs k j) \<noteq> UNUSED \<Longrightarrow> j \<noteq> ini \<Longrightarrow>
        sint (p_pid (procs k ini)) < sint (p_pid (procs k j))"
  using assms unfolding tree_inv_def by blast+

lemma tree_invI:
  assumes "0 < sint (nextpid k)"
    and "\<And>j. p_state (procs k j) \<noteq> UNUSED \<Longrightarrow> j < NPROC \<and> 0 < sint (p_pid (procs k j)) \<and> sint (p_pid (procs k j)) < sint (nextpid k)"
    and "\<And>i j. p_state (procs k i) \<noteq> UNUSED \<Longrightarrow> p_state (procs k j) \<noteq> UNUSED \<Longrightarrow> p_pid (procs k i) = p_pid (procs k j) \<Longrightarrow> i = j"
    and "\<And>j q. p_parent (procs k j) = Some q \<Longrightarrow> p_state (procs k j) \<noteq> UNUSED \<and> live (p_state (procs k q)) \<and>
        sint (p_pid (procs k q)) < sint (p_pid (procs k j))"
    and "\<And>ini. initproc k = Some ini \<Longrightarrow> live (p_state (procs k ini))"
    and "\<And>ini j. initproc k = Some ini \<Longrightarrow> p_state (procs k j) \<noteq> UNUSED \<Longrightarrow> j \<noteq> ini \<Longrightarrow>
        sint (p_pid (procs k ini)) < sint (p_pid (procs k j))"
  shows "tree_inv k"
  using assms unfolding tree_inv_def by blast

text \<open>A change of states that keeps which entries are in use and which are live.\<close>

lemma tree_inv_states:
  assumes "tree_inv k" and "\<And>j. p_pid (procs k' j) = p_pid (procs k j)" "\<And>j. p_parent (procs k' j) = p_parent (procs k j)"
    and "\<And>j. (p_state (procs k' j) = UNUSED) = (p_state (procs k j) = UNUSED)"
    and "\<And>j. live (p_state (procs k' j)) = live (p_state (procs k j))" and "nextpid k' = nextpid k" "initproc k' = initproc k"
  shows "tree_inv k'"
  using assms(1) unfolding tree_inv_def assms(2-7) .

lemma tree_inv_woken:
  assumes "tree_inv k" and "\<And>j. p_pid (procs k' j) = p_pid (procs k j)" "\<And>j. p_parent (procs k' j) = p_parent (procs k j)"
    and "\<And>j. woken (p_state (procs k j)) (p_state (procs k' j))" and "nextpid k' = nextpid k" "initproc k' = initproc k"
  shows "tree_inv k'"
  by (rule tree_inv_states [OF assms(1,2,3) _ _ assms(5,6)]) (rule woken_live [OF assms(4)])+

lemma tree_inv_fork:
  assumes inv: "tree_inv k" and "fork_core tr fr i k = Inr (r, k')" and "live (p_state (procs k i))" and "sint (nextpid k) < 2 ^ 31 - 1"
  shows "tree_inv k'"
proof -
  note f = fork_core_tree [OF assms(2)]
  have n: "sint (nextpid k + 1) = sint (nextpid k) + 1" by (rule sint_Suc_pid [OF assms(4)])
  show ?thesis
  proof (cases r)
    case None
    show ?thesis
    proof (cases "k' = k")
      case True
      then show ?thesis using inv by simp
    next
      case False
      then obtain np where np: "p_state (procs k np) = UNUSED" and k': "nextpid k' = nextpid k + 1" "initproc k' = initproc k"
        "\<And>j. p_state (procs k' j) = p_state (procs k j)" "\<And>j. p_pid (procs k' j) = (if j = np then 0 else p_pid (procs k j))"
        "\<And>j. p_parent (procs k' j) = (if j = np then None else p_parent (procs k j))"
        using f None by auto
      have x: "p_state (procs k j) \<noteq> UNUSED \<Longrightarrow> j \<noteq> np" "live (p_state (procs k j)) \<Longrightarrow> j \<noteq> np" for j
        using np by (auto simp: live_def)
      show ?thesis
        by (rule tree_invI; simp add: k' x n)
          (use tree_next [OF inv] tree_pid [OF inv] tree_uniq [OF inv] tree_parent [OF inv] tree_init_live [OF inv]
            tree_init [OF inv] x in \<open>fastforce split: if_splits\<close>)+
    qed
  next
    case (Some np)
    then have np: "np < NPROC" "p_state (procs k np) = UNUSED" and k': "nextpid k' = nextpid k + 1" "initproc k' = initproc k"
      "\<And>j. p_state (procs k' j) = (if j = np then RUNNABLE else p_state (procs k j))"
      "\<And>j. p_pid (procs k' j) = (if j = np then nextpid k else p_pid (procs k j))"
      "\<And>j. p_parent (procs k' j) = (if j = np then Some i else p_parent (procs k j))"
      using f by auto
    have x: "p_state (procs k j) \<noteq> UNUSED \<Longrightarrow> j \<noteq> np" "live (p_state (procs k j)) \<Longrightarrow> j \<noteq> np" for j
      using np by (auto simp: live_def)
    have i: "i \<noteq> np" "p_state (procs k i) \<noteq> UNUSED" using np(2) assms(3) by (auto simp: live_def)
    have "p_state (procs k j) \<noteq> UNUSED \<Longrightarrow> p_pid (procs k j) \<noteq> nextpid k" for j
      using tree_pid [OF inv, of j] by auto
    note fs = this tree_next [OF inv] tree_pid [OF inv] tree_uniq [OF inv] tree_parent [OF inv] tree_init_live [OF inv]
      tree_init [OF inv] x i assms(3) np
    show ?thesis
    proof (rule tree_invI)
      fix j q assume "p_parent (procs k' j) = Some q"
      then have "j = np \<and> q = i \<or> j \<noteq> np \<and> p_parent (procs k j) = Some q" by (auto simp: k' split: if_splits)
      then show "p_state (procs k' j) \<noteq> UNUSED \<and> live (p_state (procs k' q)) \<and> sint (p_pid (procs k' q)) < sint (p_pid (procs k' j))"
        using fs(3) [of i] fs(5) [of j q] fs(9) [of q] i assms(3) by (auto simp: k')
    next
      fix ini j assume "initproc k' = Some ini" "p_state (procs k' j) \<noteq> UNUSED" "j \<noteq> ini"
      then show "sint (p_pid (procs k' ini)) < sint (p_pid (procs k' j))"
        using fs(6) [of ini] fs(7) [of ini j] fs(9) [of ini] fs(3) [of ini] by (auto simp: k' live_def split: if_splits)
    next
      fix i j assume "p_state (procs k' i) \<noteq> UNUSED" "p_state (procs k' j) \<noteq> UNUSED" "p_pid (procs k' i) = p_pid (procs k' j)"
      then show "i = j" using fs(1) [of i] fs(1) [of j] fs(4) [of i j] by (auto simp: k' split: if_splits)
    next
      fix j assume "p_state (procs k' j) \<noteq> UNUSED"
      then show "j < NPROC \<and> 0 < sint (p_pid (procs k' j)) \<and> sint (p_pid (procs k' j)) < sint (nextpid k')"
        using fs(2) fs(3) [of j] np(1) by (auto simp: k' n split: if_splits)
    next
      fix ini assume "initproc k' = Some ini"
      then show "live (p_state (procs k' ini))" using fs(6) [of ini] by (auto simp: k' live_def)
    qed (use fs(2) in \<open>simp add: k' n\<close>)
  qed
qed

lemma tree_inv_exit:
  assumes inv: "tree_inv k" and "initproc k \<noteq> Some i" and "live (p_state (procs k i))"
  shows "tree_inv (exit_tail i status k)"
proof -
  let ?k = "exit_tail i status k"
  have st: "p_state (procs ?k j) = UNUSED \<longleftrightarrow> p_state (procs k j) = UNUSED" for j
    using woken_live(2) [OF exit_tail_tree(3) [of j i k status]] exit_tail_tree(4) [of i status k] assms(3)
    by (cases "j = i") (auto simp: live_def)
  have lv: "live (p_state (procs ?k j)) \<longleftrightarrow> j \<noteq> i \<and> live (p_state (procs k j))" for j
    using woken_live(1) [OF exit_tail_tree(3) [of j i k status]] exit_tail_tree(4) [of i status k]
    by (cases "j = i") (auto simp: live_def)
  have pa: "p_state (procs ?k j) \<noteq> UNUSED \<and> live (p_state (procs ?k q)) \<and> sint (p_pid (procs ?k q)) < sint (p_pid (procs ?k j))"
    if p: "p_parent (procs ?k j) = Some q" for j q
  proof (cases "p_parent (procs k j) = Some i")
    case True
    then have j: "p_state (procs k j) \<noteq> UNUSED" "j < NPROC" "sint (p_pid (procs k i)) < sint (p_pid (procs k j))"
      using inv unfolding tree_inv_def by auto
    then have ini: "initproc k = Some q" using p True by (simp add: exit_tail_tree)
    have "q \<noteq> j"
    proof
      assume "q = j"
      moreover have "i \<noteq> j" using j(3) by auto
      ultimately have "sint (p_pid (procs k j)) < sint (p_pid (procs k i))"
        using inv ini assms(3) unfolding tree_inv_def live_def by blast
      then show False using j(3) by simp
    qed
    then show ?thesis using inv ini j assms(2) unfolding tree_inv_def by (auto simp: exit_tail_tree st lv)
  next
    case False
    then have "p_parent (procs k j) = Some q" "q \<noteq> i" using p by (auto simp: exit_tail_tree split: if_splits)
    then show ?thesis using inv unfolding tree_inv_def by (auto simp: exit_tail_tree st lv)
  qed
  show ?thesis using inv pa assms(2) unfolding tree_inv_def st lv exit_tail_tree(1,6,7) by blast
qed

lemma tree_inv_free:
  assumes inv: "tree_inv k" and "p_state (procs k j) = ZOMBIE" and f: "freeproc j k = Inr k'"
  shows "tree_inv k'"
proof -
  have "p_parent (procs k c) \<noteq> Some j" for c using inv assms(2) unfolding tree_inv_def live_def by blast
  moreover have "initproc k \<noteq> Some j" using inv assms(2) unfolding tree_inv_def live_def by blast
  ultimately show ?thesis
    using tree_next [OF inv] tree_pid [OF inv] tree_uniq [OF inv] tree_parent [OF inv] tree_init_live [OF inv] tree_init [OF inv]
    by (intro tree_invI) (auto simp: freeproc_tree [OF f] split: if_splits)
qed

subsection \<open>Steps and reachable states\<close>

lemma userinit_tree:
  assumes "userinit tr fr k = Inr k'" and un: "\<And>j. p_state (procs k j) = UNUSED" and pa: "\<And>j. p_parent (procs k j) = None"
    and "0 < sint (nextpid k)" and "sint (nextpid k) < 2 ^ 31 - 1"
  shows "tree_inv k'"
proof -
  from assms(1) obtain i k1 where a: "allocproc tr fr k = Inr (Some i, k1)"
    by (auto simp: userinit_def split: option.splits)
  note al = allocproc_tree [OF a]
  have n: "sint (nextpid k + 1) = sint (nextpid k) + 1" by (rule sint_Suc_pid [OF assms(5)])
  have "(\<forall>j. p_state (procs k' j) = (if j = i then RUNNABLE else p_state (procs k1 j)) \<and>
      p_pid (procs k' j) = p_pid (procs k1 j) \<and> p_parent (procs k' j) = p_parent (procs k1 j)) \<and>
      nextpid k' = nextpid k1 \<and> initproc k' = Some i"
    using assms(1) a
    by (auto simp: userinit_def iget_def Let_def simp del: upt_rec_numeral split: option.splits)
  then have k': "\<And>j. p_state (procs k' j) = (if j = i then RUNNABLE else UNUSED)" "p_pid (procs k' i) = nextpid k"
    "\<And>j. p_parent (procs k' j) = None" "nextpid k' = nextpid k + 1" "initproc k' = Some i" "i < NPROC"
    using al un pa by auto
  show ?thesis by (rule tree_invI) (auto simp: k' n live_def less_imp_le assms(4) split: if_splits)
qed

text \<open>
  A state step of the scheduler, of \<open>yield\<close> or of \<open>sleep\<close> changes the state of one live process to
  another live one. Pids are not reused: fork is a step as long as \<open>nextpid\<close> has not reached the
  largest int.
\<close>

inductive tree_step :: "kernel \<Rightarrow> kernel \<Rightarrow> bool" where
  step_userinit: "userinit tr fr k = Inr k' \<Longrightarrow> \<forall>j. p_state (procs k j) = UNUSED \<Longrightarrow> \<forall>j. p_parent (procs k j) = None \<Longrightarrow>
    sint (nextpid k) < 2 ^ 31 - 1 \<Longrightarrow> tree_step k k'"
| step_fork: "fork_core tr fr i k = Inr (r, k') \<Longrightarrow> live (p_state (procs k i)) \<Longrightarrow> sint (nextpid k) < 2 ^ 31 - 1 \<Longrightarrow> tree_step k k'"
| step_exit: "initproc k \<noteq> Some i \<Longrightarrow> live (p_state (procs k i)) \<Longrightarrow> tree_step k (exit_tail i status k)"
| step_wait: "wait i addr k = Inr (r, k') \<Longrightarrow> tree_step k k'"
| step_kill: "kill pid k = (v, k') \<Longrightarrow> tree_step k k'"
| step_wakeup: "tree_step k (wakeup self ch k)"
| step_drop_dead: "tree_step k (drop_dead_processes d k)"
| step_dispatch: "live (p_state (procs k i)) \<Longrightarrow> live st \<Longrightarrow> tree_step k (upd_proc i (\<lambda>p. p\<lparr>p_state := st\<rparr>) k)"

definition tree_start :: "kernel \<Rightarrow> bool" where
  "tree_start k \<longleftrightarrow> (\<forall>j. p_state (procs k j) = UNUSED \<and> p_parent (procs k j) = None) \<and> nextpid k = 1 \<and> initproc k = None"

lemma tree_step_inv: "tree_step k k' \<Longrightarrow> tree_inv k \<Longrightarrow> tree_inv k'"
proof (induction rule: tree_step.induct)
  case (step_userinit tr fr k k')
  then show ?case using tree_next by (intro userinit_tree [of tr fr k]) auto
next
  case (step_fork tr fr i k r k')
  show ?case by (rule tree_inv_fork [OF step_fork(4,1,2,3)])
next
  case (step_exit k i status)
  show ?case by (rule tree_inv_exit [OF step_exit(3,1,2)])
next
  case (step_wait i addr k r k')
  from wait_tree [OF step_wait(1)] show ?case
  proof
    assume "\<exists>j<NPROC. p_parent (procs k j) = Some i \<and> p_state (procs k j) = ZOMBIE \<and> (\<exists>s k1. k1 = k\<lparr>pm := s\<rparr> \<and> freeproc j k1 = Inr k')"
    then obtain j s where "p_state (procs (k\<lparr>pm := s\<rparr>) j) = ZOMBIE" "freeproc j (k\<lparr>pm := s\<rparr>) = Inr k'" by auto
    moreover have "tree_inv (k\<lparr>pm := s\<rparr>)" using step_wait(2) by (simp add: tree_inv_def)
    ultimately show ?thesis by (auto intro: tree_inv_free)
  qed (use step_wait(2) in \<open>auto simp: tree_inv_def\<close>)
next
  case (step_kill pid k v k')
  show ?case by (rule tree_inv_woken [OF step_kill(2)]) (rule kill_tree [OF step_kill(1)])+
next
  case (step_wakeup k self ch)
  show ?case by (rule tree_inv_woken [OF step_wakeup(1)]) simp_all
next
  case (step_drop_dead k d)
  show ?case by (rule tree_inv_woken [OF step_drop_dead(1)]) (auto simp: drop_dead_processes_eq woken_def)
next
  case (step_dispatch k i st)
  show ?case by (rule tree_inv_states [OF step_dispatch(3)]) (use step_dispatch(1,2) in \<open>auto simp: live_def\<close>)
qed

interpretation ptree: transition_invariant tree_start tree_step tree_inv
proof
  show "tree_inv s" if "tree_start s" for s
    using that by (intro tree_invI) (auto simp: tree_start_def)
  show "tree_inv t" if "tree_inv s" "tree_step s t" for s t
    using that by (auto intro: tree_step_inv)
qed

subsection \<open>Properties\<close>

text \<open>
  C16. The process table stays a tree, from an empty table or from any state in which it is one,
  through every sequence of creations, forks, exits, waits, kills and changes of state: pids of
  processes in use are distinct, and the parent of a process is live and older than it.
\<close>

theorem process_tree_invariant:
  assumes "tree_start k \<or> tree_inv k" and "tree_step\<^sup>*\<^sup>* k k'"
  shows "(p_parent (procs k' j) = Some q \<longrightarrow> live (p_state (procs k' q)) \<and> sint (p_pid (procs k' q)) < sint (p_pid (procs k' j))) \<and>
    (p_state (procs k' i) \<noteq> UNUSED \<and> p_state (procs k' j) \<noteq> UNUSED \<and> p_pid (procs k' i) = p_pid (procs k' j) \<longrightarrow> i = j)"
proof -
  have "tree_inv k'" using ptree.steps_inv [OF assms(2)] ptree.start_inv assms(1) by blast
  then show ?thesis using tree_parent [of k' j q] tree_uniq [of k' i j] by blast
qed

definition family :: kernel where
  "family = blank_kernel\<lparr>nextpid := 4, procs := (procs blank_kernel)
     (0 := blank_proc\<lparr>p_state := RUNNING, p_pid := 1\<rparr>,
      1 := blank_proc\<lparr>p_state := SLEEPING, p_pid := 2, p_parent := Some 0\<rparr>,
      2 := blank_proc\<lparr>p_state := RUNNABLE, p_pid := 3, p_parent := Some 1\<rparr>)\<rparr>"

lemma family_tree: "tree_inv family"
  by (rule tree_invI) (auto simp: family_def blank_kernel_def blank_proc_def live_def split: if_splits)

theorem process_tree_invariant_witness:
  "live (p_state (procs (wakeup None ChanTicks family) 0)) \<and>
   sint (p_pid (procs (wakeup None ChanTicks family) 0)) < sint (p_pid (procs (wakeup None ChanTicks family) 1))"
proof -
  have "p_parent (procs (wakeup None ChanTicks family) 1) = Some 0" by (simp add: family_def)
  then show ?thesis
    using process_tree_invariant [OF disjI2 [OF family_tree] r_into_rtranclp [of tree_step, OF step_wakeup [of family None ChanTicks]], of 1 0] by blast
qed

lemma tree_wf: "tree_inv k \<Longrightarrow> wfP (parent_rel k)"
  unfolding wfp_def
proof (rule wf_subset [OF wf_measure [of "\<lambda>j. nat (sint (p_pid (procs k j)))"]])
  assume inv: "tree_inv k"
  show "{(q, j). parent_rel k q j} \<subseteq> measure (\<lambda>j. nat (sint (p_pid (procs k j))))"
  proof clarify
    fix q j assume "parent_rel k q j"
    then have "live (p_state (procs k q))" "sint (p_pid (procs k q)) < sint (p_pid (procs k j))"
      using tree_parent [OF inv] by (auto simp: parent_rel_def)
    moreover have "0 < sint (p_pid (procs k q))" using tree_pid [OF inv, of q] calculation(1) by (auto simp: live_def)
    ultimately show "(q, j) \<in> measure (\<lambda>j. nat (sint (p_pid (procs k j))))" by simp
  qed
qed

text \<open>
  C17. In a state with the tree invariant \<open>child_processes\<close> ends and stores, in the order of the
  process table and from index 0, exactly the descendants of the caller that are in use, and adds
  their number to the caller's count.
\<close>

theorem child_processes_lists_descendants:
  assumes "tree_inv k"
  shows "\<exists>cp'. child_processes k me cp = Some cp' \<and>
    (let ds = filter (\<lambda>j. p_state (procs k j) \<noteq> UNUSED \<and> (parent_rel k)\<^sup>+\<^sup>+ me j) [0..<NPROC]
     in cp_count cp' = cp_count cp + of_nat (length ds) \<and>
        cp_processes cp' = (\<lambda>n. if n < length ds then child_entry k (ds ! n) (cp_processes cp n) else cp_processes cp n))"
proof -
  have d: "descendants k me [0..<NPROC] = filter (\<lambda>j. p_state (procs k j) \<noteq> UNUSED \<and> (parent_rel k)\<^sup>+\<^sup>+ me j) [0..<NPROC]"
    unfolding descendants_def descendant_def ..
  from child_loop_descendants [OF tree_wf [OF assms], of me "[0..<NPROC]" 0 cp] show ?thesis
    unfolding child_processes_def d [symmetric] by (auto simp: Let_def fun_eq_iff simp del: upt_rec_numeral)
qed

theorem child_processes_lists_descendants_witness:
  "\<exists>cp'. child_processes family 0 \<lparr>cp_count = 0, cp_processes = (\<lambda>_. top_entry family 0)\<rparr> = Some cp' \<and>
    (let ds = filter (\<lambda>j. p_state (procs family j) \<noteq> UNUSED \<and> (parent_rel family)\<^sup>+\<^sup>+ 0 j) [0..<NPROC]
     in cp_count cp' = of_nat (length ds) \<and>
        cp_processes cp' = (\<lambda>n. if n < length ds then child_entry family (ds ! n) (top_entry family 0) else top_entry family 0))"
  using child_processes_lists_descendants [OF family_tree, of 0 "\<lparr>cp_count = 0, cp_processes = (\<lambda>_. top_entry family 0)\<rparr>"]
  by (simp add: Let_def cong: if_cong del: upt_rec_numeral)

text \<open>
  C18. \<open>drop_dead_processes\<close> kills exactly the live processes whose deadline has passed, wakes those
  of them that sleep, and changes nothing else; a deadline of -1 never passes.
\<close>

theorem drop_dead_processes_kills_expired:
  "drop_dead_processes now k = k\<lparr>procs := (\<lambda>j.
     if j < NPROC \<and> live (p_state (procs k j)) \<and> p_deadline (procs k j) \<noteq> -1 \<and> p_deadline (procs k j) \<le> now
     then (procs k j)\<lparr>p_killed := True, p_state := (if p_state (procs k j) = SLEEPING then RUNNABLE else p_state (procs k j))\<rparr>
     else procs k j)\<rparr>"
  by (rule drop_dead_processes_eq)

end
