(* ===== verification/Bio.thy ===== *)
theory Bio
  imports Sched
begin

section \<open>kernel/sleeplock.c and kernel/bio.c: sleep locks and the buffer cache\<close>

text \<open>
  The buffers form a doubly linked list through \<open>prev\<close> and \<open>next\<close>, most recently used first. The
  functions take the number i of the calling process. A request to the disk driver is one step: it
  has copied the block when \<open>virtio_disk_rw\<close> returns.
\<close>

subsection \<open>Sleep locks\<close>

definition initsleeplock :: "cint option" where
  "initsleeplock = None"

definition acquiresleep :: "cint \<Rightarrow> cint option \<Rightarrow> cint option res" where
  "acquiresleep pid lk = (if lk \<noteq> None then blocked else Inr (Some pid))"

text \<open>\<open>set\<close> writes the lock, and its address is the channel ch.\<close>

definition releasesleep :: "nat \<Rightarrow> chan \<Rightarrow> (cint option \<Rightarrow> kernel \<Rightarrow> kernel) \<Rightarrow> kernel \<Rightarrow> kernel" where
  "releasesleep i ch set_lock k = wakeup (Some i) ch (set_lock None k)"

definition holdingsleep :: "cint \<Rightarrow> cint option \<Rightarrow> bool" where
  "holdingsleep pid lk \<longleftrightarrow> (case lk of None \<Rightarrow> False | Some holder \<Rightarrow> holder = pid)"

subsection \<open>The list of buffers\<close>

abbreviation (input) head :: nat where "head \<equiv> NBUF"

text \<open>The two stores \<open>b->next->prev = b->prev; b->prev->next = b->next;\<close>.\<close>

definition unlink_buf :: "nat \<Rightarrow> kernel \<Rightarrow> kernel" where
  "unlink_buf b k =
     (let k1 = upd_buf (b_next (bufs k b)) (\<lambda>x. x\<lparr>b_prev := b_prev (bufs k b)\<rparr>) k
      in upd_buf (b_prev (bufs k1 b)) (\<lambda>x. x\<lparr>b_next := b_next (bufs k1 b)\<rparr>) k1)"

text \<open>\<open>b->next = head.next; b->prev = &head; head.next->prev = b; head.next = b;\<close>\<close>

definition push_buf :: "nat \<Rightarrow> kernel \<Rightarrow> kernel" where
  "push_buf b k =
     (let k1 = upd_buf b (\<lambda>x. x\<lparr>b_next := b_next (bufs k head)\<rparr>) k;
          k2 = upd_buf b (\<lambda>x. x\<lparr>b_prev := head\<rparr>) k1;
          k3 = upd_buf (b_next (bufs k2 head)) (\<lambda>x. x\<lparr>b_prev := b\<rparr>) k2
      in upd_buf head (\<lambda>x. x\<lparr>b_next := b\<rparr>) k3)"

definition binit :: "kernel \<Rightarrow> kernel" where
  "binit k =
     fold (\<lambda>b k. upd_buf b (\<lambda>x. x\<lparr>b_lock := initsleeplock\<rparr>) (push_buf b k)) [0..<NBUF]
       (upd_buf head (\<lambda>x. x\<lparr>b_prev := head, b_next := head\<rparr>) k)"

text \<open>
  The two searches of \<open>bget\<close>. The list has \<open>NBUF\<close> elements, which bounds the steps; a search that
  takes more would be one in a list that is broken.
\<close>

fun scan_next :: "nat \<Rightarrow> (buf \<Rightarrow> bool) \<Rightarrow> kernel \<Rightarrow> nat \<Rightarrow> ptr res" where
  "scan_next n P k b =
     (if b = head then Inr None
      else if P (bufs k b) then Inr (Some b)
      else case n of 0 \<Rightarrow> out_of_fuel | Suc n \<Rightarrow> scan_next n P k (b_next (bufs k b)))"

fun scan_prev :: "nat \<Rightarrow> (buf \<Rightarrow> bool) \<Rightarrow> kernel \<Rightarrow> nat \<Rightarrow> ptr res" where
  "scan_prev n P k b =
     (if b = head then Inr None
      else if P (bufs k b) then Inr (Some b)
      else case n of 0 \<Rightarrow> out_of_fuel | Suc n \<Rightarrow> scan_prev n P k (b_prev (bufs k b)))"

declare scan_next.simps [simp del] scan_prev.simps [simp del]

definition lock_buf :: "nat \<Rightarrow> nat \<Rightarrow> kernel \<Rightarrow> (nat \<times> kernel) res" where
  "lock_buf i b k =
     bindR (acquiresleep (p_pid (procs k i)) (b_lock (bufs k b))) (\<lambda>l. Inr (b, upd_buf b (\<lambda>x. x\<lparr>b_lock := l\<rparr>) k))"

definition bget :: "nat \<Rightarrow> uint \<Rightarrow> uint \<Rightarrow> kernel \<Rightarrow> (nat \<times> kernel) res" where
  "bget i dev blockno k =
     bindR (scan_next NBUF (\<lambda>x. b_dev x = dev \<and> b_blockno x = blockno) k (b_next (bufs k head))) (\<lambda>r.
       case r of
         Some b \<Rightarrow> lock_buf i b (upd_buf b (\<lambda>x. x\<lparr>b_refcnt := b_refcnt x + 1\<rparr>) k)
       | None \<Rightarrow>
           bindR (scan_prev NBUF (\<lambda>x. b_refcnt x = 0) k (b_prev (bufs k head))) (\<lambda>r.
             case r of
               Some b \<Rightarrow> lock_buf i b (upd_buf b (\<lambda>x. x\<lparr>b_dev := dev, b_blockno := blockno, b_valid := False, b_refcnt := 1\<rparr>) k)
             | None \<Rightarrow> panic ''bget: no buffers''))"

subsection \<open>Reading, writing and releasing\<close>

definition disk_rw :: "nat \<Rightarrow> bool \<Rightarrow> kernel \<Rightarrow> kernel" where
  "disk_rw b write k =
     (if write then k\<lparr>disk := (disk k)(b_blockno (bufs k b) := b_data (bufs k b)),
        disk_writes := disk_writes k @ [(b_blockno (bufs k b), b_data (bufs k b))]\<rparr>
      else upd_buf b (\<lambda>x. x\<lparr>b_data := disk k (b_blockno x)\<rparr>) k)"

definition bread :: "nat \<Rightarrow> uint \<Rightarrow> uint \<Rightarrow> kernel \<Rightarrow> (nat \<times> kernel) res" where
  "bread i dev blockno k =
     bindR (bget i dev blockno k) (\<lambda>(b, k1).
       if \<not> b_valid (bufs k1 b) then Inr (b, upd_buf b (\<lambda>x. x\<lparr>b_valid := True\<rparr>) (disk_rw b False k1))
       else Inr (b, k1))"

definition bwrite :: "nat \<Rightarrow> nat \<Rightarrow> kernel \<Rightarrow> kernel res" where
  "bwrite i b k =
     (if \<not> holdingsleep (p_pid (procs k i)) (b_lock (bufs k b)) then panic ''bwrite''
      else Inr (disk_rw b True k))"

definition brelse :: "nat \<Rightarrow> nat \<Rightarrow> kernel \<Rightarrow> kernel res" where
  "brelse i b k =
     (if \<not> holdingsleep (p_pid (procs k i)) (b_lock (bufs k b)) then panic ''brelse''
      else
        let k1 = releasesleep i (ChanBuf b) (\<lambda>l. upd_buf b (\<lambda>x. x\<lparr>b_lock := l\<rparr>)) k;
            k2 = upd_buf b (\<lambda>x. x\<lparr>b_refcnt := b_refcnt x - 1\<rparr>) k1
        in Inr (if b_refcnt (bufs k2 b) = 0 then push_buf b (unlink_buf b k2) else k2))"

definition bpin :: "nat \<Rightarrow> kernel \<Rightarrow> kernel" where
  "bpin b k = upd_buf b (\<lambda>x. x\<lparr>b_refcnt := b_refcnt x + 1\<rparr>) k"

definition bunpin :: "nat \<Rightarrow> kernel \<Rightarrow> kernel" where
  "bunpin b k = upd_buf b (\<lambda>x. x\<lparr>b_refcnt := b_refcnt x - 1\<rparr>) k"

subsection \<open>Pointer chains\<close>

text \<open>From a, the pointers f lead through xs to z.\<close>

fun chain :: "(nat \<Rightarrow> nat) \<Rightarrow> nat \<Rightarrow> nat list \<Rightarrow> nat \<Rightarrow> bool" where
  "chain f a [] z \<longleftrightarrow> f a = z"
| "chain f a (x # xs) z \<longleftrightarrow> f a = x \<and> chain f x xs z"

lemma chain_append: "chain f a (xs @ y # ys) z \<longleftrightarrow> chain f a xs y \<and> chain f y ys z"
  by (induction xs arbitrary: a) auto

lemma chain_upd: "u \<noteq> a \<Longrightarrow> u \<notin> set xs \<Longrightarrow> chain (f(u := v)) a xs z = chain f a xs z"
  by (induction xs arbitrary: a) auto

lemma chain_cong: "f a = g a \<Longrightarrow> (\<And>x. x \<in> set xs \<Longrightarrow> f x = g x) \<Longrightarrow> chain f a xs z = chain g a xs z"
  by (induction xs arbitrary: a) auto

lemma chain_last: "chain f a xs z \<Longrightarrow> f (last (a # xs)) = z"
  by (induction xs arbitrary: a) auto

text \<open>Taking b out of a chain: its predecessor is made to point to its successor.\<close>

lemma chain_unlink:
  assumes "chain f a (xs @ b # ys) z" and "distinct (a # xs @ b # ys)"
  shows "chain (f(last (a # xs) := f b)) a (xs @ ys) z"
  using assms
proof (induction xs arbitrary: a)
  case Nil
  show ?case
  proof (cases ys)
    case (Cons y ys')
    then have "chain (f(a := f b)) y ys' z" using Nil by (subst chain_upd) auto
    then show ?thesis using Cons Nil by (auto simp: fun_upd_def)
  qed (use Nil in simp)
next
  case (Cons x xs)
  have "last (a # x # xs) \<noteq> a" using Cons.prems(2) by (auto simp: last_in_set)
  then show ?case using Cons.prems Cons.IH [of x] by auto
qed

lemma chain_push:
  assumes "chain f a xs z" and "b \<noteq> a" and "b \<notin> set xs" and "a \<notin> set xs"
  shows "chain (f(b := f a, a := b)) a (b # xs) z"
  using assms by (cases xs) (auto simp: chain_upd)

lemma chain_snoc:
  assumes "chain f a xs z" and "distinct (a # xs)" and "b \<noteq> a" and "b \<notin> set xs"
  shows "chain (f(b := z, last (a # xs) := b)) a (xs @ [b]) z"
  using assms
proof (induction xs arbitrary: a)
  case (Cons x xs)
  have "last (a # x # xs) \<noteq> a" using Cons.prems(2) by (auto simp: last_in_set)
  then show ?case using Cons.prems Cons.IH [of x] by auto
qed simp

text \<open>The list of the buffers, most recently used first.\<close>

definition lru_list :: "kernel \<Rightarrow> nat list \<Rightarrow> bool" where
  "lru_list k xs \<longleftrightarrow> distinct xs \<and> set xs = {..<NBUF} \<and>
     chain (\<lambda>b. b_next (bufs k b)) head xs head \<and> chain (\<lambda>b. b_prev (bufs k b)) head (rev xs) head"

lemma scan_next_find:
  "chain (\<lambda>b. b_next (bufs k b)) a xs head \<Longrightarrow> head \<notin> set xs \<Longrightarrow> length xs \<le> n \<Longrightarrow>
    scan_next n P k (b_next (bufs k a)) = Inr (List.find (\<lambda>b. P (bufs k b)) xs)"
  by (induction xs arbitrary: a n) (subst scan_next.simps, auto split: nat.split)+

lemma scan_prev_find:
  "chain (\<lambda>b. b_prev (bufs k b)) a xs head \<Longrightarrow> head \<notin> set xs \<Longrightarrow> length xs \<le> n \<Longrightarrow>
    scan_prev n P k (b_prev (bufs k a)) = Inr (List.find (\<lambda>b. P (bufs k b)) xs)"
  by (induction xs arbitrary: a n) (subst scan_prev.simps, auto split: nat.split)+

lemma lru_length: "lru_list k xs \<Longrightarrow> length xs = NBUF"
  using distinct_card [of xs] by (simp add: lru_list_def)

lemma lru_scan_next: "lru_list k xs \<Longrightarrow> scan_next NBUF P k (b_next (bufs k head)) = Inr (List.find (\<lambda>b. P (bufs k b)) xs)"
  using lru_length [of k xs] by (intro scan_next_find) (auto simp: lru_list_def)

lemma lru_scan_prev: "lru_list k xs \<Longrightarrow> scan_prev NBUF P k (b_prev (bufs k head)) = Inr (List.find (\<lambda>b. P (bufs k b)) (rev xs))"
  using lru_length [of k xs] by (intro scan_prev_find) (auto simp: lru_list_def)

lemma lru_list_cong:
  "(\<And>b. b_next (bufs k' b) = b_next (bufs k b)) \<Longrightarrow> (\<And>b. b_prev (bufs k' b) = b_prev (bufs k b)) \<Longrightarrow>
    lru_list k' xs = lru_list k xs"
  by (simp add: lru_list_def)

lemma unlink_buf_links:
  assumes "b_next (bufs k b) \<noteq> b"
  shows "(\<lambda>x. b_next (bufs (unlink_buf b k) x)) = (\<lambda>x. b_next (bufs k x))(b_prev (bufs k b) := b_next (bufs k b))"
    "(\<lambda>x. b_prev (bufs (unlink_buf b k) x)) = (\<lambda>x. b_prev (bufs k x))(b_next (bufs k b) := b_prev (bufs k b))"
  using assms by (auto simp: unlink_buf_def Let_def fun_eq_iff)

lemma push_buf_links:
  assumes "b \<noteq> head"
  shows "(\<lambda>x. b_next (bufs (push_buf b k) x)) = (\<lambda>x. b_next (bufs k x))(b := b_next (bufs k head), head := b)"
    "(\<lambda>x. b_prev (bufs (push_buf b k) x)) = (\<lambda>x. b_prev (bufs k x))(b := head, b_next (bufs k head) := b)"
  using assms by (auto simp: push_buf_def Let_def fun_eq_iff)

text \<open>The pointer surgery of \<open>brelse\<close> moves the buffer to the front of the list.\<close>

lemma move_to_front:
  assumes l: "lru_list k xs" and b: "b < NBUF"
  shows "lru_list (push_buf b (unlink_buf b k)) (b # remove1 b xs)"
proof -
  obtain A C where xs: "xs = A @ b # C" using l b split_list [of b xs] by (auto simp: lru_list_def)
  have d: "distinct (head # A @ b # C)" and set_xs: "set xs = {..<NBUF}" using l by (auto simp: lru_list_def xs)
  let ?n = "\<lambda>x. b_next (bufs k x)" and ?p = "\<lambda>x. b_prev (bufs k x)"
  have cn: "chain ?n head (A @ b # C) head" and cp: "chain ?p head (rev C @ b # rev A) head"
    using l by (simp_all add: lru_list_def xs)
  have nb: "?n b = last (head # rev C)"
    using cn by (cases C) (auto simp: chain_append)
  have pb: "?p b = last (head # A)"
    using cp by (cases A rule: rev_cases) (auto simp: chain_append)
  have bC: "b \<notin> set C" "b \<noteq> head" "b \<notin> set A" using d by auto
  have ne: "?n b \<noteq> b" using nb bC by (cases C) auto
  let ?k = "unlink_buf b k"
  have n1: "chain (\<lambda>x. b_next (bufs ?k x)) head (A @ C) head"
    using chain_unlink [OF cn d] by (simp add: unlink_buf_links(1) [OF ne] pb)
  have "chain (\<lambda>x. b_prev (bufs ?k x)) head (rev C @ rev A) head"
    using chain_unlink [OF cp] d by (auto simp: unlink_buf_links(2) [OF ne] nb Int_commute simp del: last.simps)
  then have p1: "chain (\<lambda>x. b_prev (bufs ?k x)) head (rev (A @ C)) head" by simp
  have fst: "b_next (bufs ?k head) = last (head # rev (A @ C))"
    using n1 by (cases "A @ C") auto
  have n2: "chain (\<lambda>x. b_next (bufs (push_buf b ?k) x)) head (b # A @ C) head"
    using chain_push [OF n1, of b] d by (simp add: push_buf_links(1) [OF bC(2)])
  have p2: "chain (\<lambda>x. b_prev (bufs (push_buf b ?k) x)) head (rev (A @ C) @ [b]) head"
    using chain_snoc [OF p1, of b] d by (simp add: push_buf_links(2) [OF bC(2)] fst del: last.simps rev_append)
  have rm: "remove1 b xs = A @ C" using bC by (simp add: xs remove1_append)
  have s: "set (b # A @ C) = {..<NBUF}" using set_xs xs by auto
  have p3: "rev (b # A @ C) = rev (A @ C) @ [b]" by simp
  show ?thesis unfolding lru_list_def rm p3 using n2 p2 d s by (intro conjI) simp_all
qed

subsection \<open>The invariant of the cache, as one process sees it\<close>

text \<open>
  H are the buffers that the process pid has locked, P those that the log has pinned; no other
  process holds a buffer. A buffer that is neither held nor pinned agrees with the disk, so that it
  can be reused, and no block has two buffers. The file system uses the device
  \<open>ROOTDEV\<close> only; the zero-initialised buffers have device 0.
\<close>

definition cache_ok :: "cint \<Rightarrow> nat set \<Rightarrow> nat set \<Rightarrow> kernel \<Rightarrow> bool" where
  "cache_ok pid H P k \<longleftrightarrow> (\<exists>xs. lru_list k xs) \<and> H \<subseteq> {..<NBUF} \<and> P \<subseteq> {..<NBUF} \<and>
     (\<forall>b<NBUF. b_lock (bufs k b) = (if b \<in> H then Some pid else None)) \<and>
     (\<forall>b<NBUF. b_refcnt (bufs k b) = (if b \<in> H then 1 else 0) + (if b \<in> P then 1 else 0)) \<and>
     (\<forall>b\<in>H \<union> P. b_valid (bufs k b)) \<and> (\<forall>b<NBUF. b_valid (bufs k b) \<longrightarrow> b_dev (bufs k b) = ROOTDEV) \<and>
     (\<forall>b<NBUF. b_valid (bufs k b) \<and> b \<notin> H \<and> b \<notin> P \<longrightarrow> b_data (bufs k b) = disk k (b_blockno (bufs k b))) \<and>
     (\<forall>a<NBUF. \<forall>b<NBUF. a \<noteq> b \<and> b_dev (bufs k a) = b_dev (bufs k b) \<and> b_blockno (bufs k a) = b_blockno (bufs k b) \<longrightarrow>
        b_dev (bufs k a) = 0)"

lemma cache_okD:
  assumes "cache_ok pid H P k"
  shows cache_lru: "\<exists>xs. lru_list k xs" and cache_H: "b \<in> H \<Longrightarrow> b < NBUF" and cache_P: "b \<in> P \<Longrightarrow> b < NBUF"
    and cache_lock: "b < NBUF \<Longrightarrow> b_lock (bufs k b) = (if b \<in> H then Some pid else None)"
    and cache_ref: "b < NBUF \<Longrightarrow> b_refcnt (bufs k b) = (if b \<in> H then 1 else 0) + (if b \<in> P then 1 else 0)"
    and cache_valid: "b \<in> H \<or> b \<in> P \<Longrightarrow> b_valid (bufs k b)" and cache_dev: "b < NBUF \<Longrightarrow> b_valid (bufs k b) \<Longrightarrow> b_dev (bufs k b) = ROOTDEV"
    and cache_clean: "b < NBUF \<Longrightarrow> b_valid (bufs k b) \<Longrightarrow> b \<notin> H \<Longrightarrow> b \<notin> P \<Longrightarrow> b_data (bufs k b) = disk k (b_blockno (bufs k b))"
    and cache_uniq: "a < NBUF \<Longrightarrow> b < NBUF \<Longrightarrow> b_dev (bufs k a) = b_dev (bufs k b) \<Longrightarrow> b_blockno (bufs k a) = b_blockno (bufs k b) \<Longrightarrow>
        b_dev (bufs k a) \<noteq> 0 \<Longrightarrow> a = b"
  using assms unfolding cache_ok_def by blast+

lemma cache_okI:
  assumes "\<exists>xs. lru_list k xs" and "\<And>b. b \<in> H \<Longrightarrow> b < NBUF" and "\<And>b. b \<in> P \<Longrightarrow> b < NBUF"
    and "\<And>b. b < NBUF \<Longrightarrow> b_lock (bufs k b) = (if b \<in> H then Some pid else None)"
    and "\<And>b. b < NBUF \<Longrightarrow> b_refcnt (bufs k b) = (if b \<in> H then 1 else 0) + (if b \<in> P then 1 else 0)"
    and "\<And>b. b \<in> H \<or> b \<in> P \<Longrightarrow> b_valid (bufs k b)" and "\<And>b. b < NBUF \<Longrightarrow> b_valid (bufs k b) \<Longrightarrow> b_dev (bufs k b) = ROOTDEV"
    and "\<And>b. b < NBUF \<Longrightarrow> b_valid (bufs k b) \<Longrightarrow> b \<notin> H \<Longrightarrow> b \<notin> P \<Longrightarrow> b_data (bufs k b) = disk k (b_blockno (bufs k b))"
    and "\<And>a b. a < NBUF \<Longrightarrow> b < NBUF \<Longrightarrow> a \<noteq> b \<Longrightarrow> b_dev (bufs k a) = b_dev (bufs k b) \<Longrightarrow>
        b_blockno (bufs k a) = b_blockno (bufs k b) \<Longrightarrow> b_dev (bufs k a) = 0"
  shows "cache_ok pid H P k"
  using assms unfolding cache_ok_def by blast

text \<open>What the file system reads at a block: the cached copy where there is one.\<close>

definition bufof :: "kernel \<Rightarrow> uint \<Rightarrow> nat option" where
  "bufof k bn = List.find (\<lambda>b. b_dev (bufs k b) = ROOTDEV \<and> b_blockno (bufs k b) = bn) [0..<NBUF]"

definition view :: "kernel \<Rightarrow> uint \<Rightarrow> block" where
  "view k bn = (case bufof k bn of
      None \<Rightarrow> disk k bn
    | Some b \<Rightarrow> if b_valid (bufs k b) then b_data (bufs k b) else disk k bn)"

lemma bufof_None: "bufof k bn = None \<longleftrightarrow> (\<forall>b<NBUF. \<not> (b_dev (bufs k b) = ROOTDEV \<and> b_blockno (bufs k b) = bn))"
  by (simp add: bufof_def find_upt_None_iff del: upt_rec_numeral)

lemma bufof_Some: "bufof k bn = Some b \<Longrightarrow> b < NBUF \<and> b_dev (bufs k b) = ROOTDEV \<and> b_blockno (bufs k b) = bn"
  by (simp add: bufof_def find_upt_Some_iff del: upt_rec_numeral)

lemma bufof_eq:
  assumes "cache_ok pid H P k" and "b < NBUF" and "b_dev (bufs k b) = ROOTDEV" and "b_blockno (bufs k b) = bn"
  shows "bufof k bn = Some b"
proof (cases "bufof k bn")
  case None
  then show ?thesis using assms(2-4) by (auto simp: bufof_None)
next
  case (Some a)
  then show ?thesis using bufof_Some [OF Some] cache_uniq [OF assms(1), of a b] assms(2-4) by auto
qed

lemma view_buf:
  assumes "cache_ok pid H P k" and "b < NBUF" and "b_dev (bufs k b) = ROOTDEV" and "b_blockno (bufs k b) = bn"
  shows "view k bn = (if b_valid (bufs k b) then b_data (bufs k b) else disk k bn)"
  using bufof_eq [OF assms] by (simp add: view_def)

lemma view_clean:
  assumes c: "cache_ok pid H P k" and "\<And>b. b \<in> H \<union> P \<Longrightarrow> \<not> (b_dev (bufs k b) = ROOTDEV \<and> b_blockno (bufs k b) = bn)"
  shows "view k bn = disk k bn"
proof (cases "bufof k bn")
  case None
  then show ?thesis by (simp add: view_def)
next
  case (Some b)
  then show ?thesis using bufof_Some [OF Some] assms cache_clean [OF c, of b] by (auto simp: view_def)
qed

text \<open>The view depends on the buffers of a well-formed cache, not on how they were found.\<close>

lemma view_eqI:
  assumes "cache_ok pid H P k" and "cache_ok pid' H' P' k'"
    and "\<And>b. b < NBUF \<Longrightarrow> b_dev (bufs k b) = ROOTDEV \<Longrightarrow> b_blockno (bufs k b) = bn \<Longrightarrow> b_valid (bufs k b) \<Longrightarrow> view k' bn = b_data (bufs k b)"
    and "\<And>b. b < NBUF \<Longrightarrow> b_dev (bufs k b) = ROOTDEV \<Longrightarrow> b_blockno (bufs k b) = bn \<Longrightarrow> \<not> b_valid (bufs k b) \<Longrightarrow> view k' bn = disk k bn"
    and "bufof k bn = None \<Longrightarrow> view k' bn = disk k bn"
  shows "view k' bn = view k bn"
proof (cases "bufof k bn")
  case None
  then show ?thesis using assms(5) by (simp add: view_def)
next
  case (Some b)
  then show ?thesis using bufof_Some [OF Some] assms(3,4) [of b] view_buf [OF assms(1), of b bn] by auto
qed

subsection \<open>The contract of bread\<close>

definition same_buf :: "kernel \<Rightarrow> kernel \<Rightarrow> nat \<Rightarrow> bool" where
  "same_buf k k' b \<longleftrightarrow> b_dev (bufs k' b) = b_dev (bufs k b) \<and> b_blockno (bufs k' b) = b_blockno (bufs k b) \<and>
     b_valid (bufs k' b) = b_valid (bufs k b) \<and> b_data (bufs k' b) = b_data (bufs k b)"

definition bread_post :: "cint \<Rightarrow> nat set \<Rightarrow> nat set \<Rightarrow> uint \<Rightarrow> kernel \<Rightarrow> nat \<Rightarrow> kernel \<Rightarrow> bool" where
  "bread_post pid H P bn k b k' \<longleftrightarrow> cache_ok pid (insert b H) P k' \<and> b \<notin> H \<and> b < NBUF \<and>
     b_dev (bufs k' b) = ROOTDEV \<and> b_blockno (bufs k' b) = bn \<and> b_data (bufs k' b) = view k bn \<and>
     (b \<in> P \<or> b_data (bufs k' b) = disk k bn) \<and> k' = k\<lparr>bufs := bufs k'\<rparr> \<and>
     (\<forall>a\<in>H \<union> P. same_buf k k' a) \<and> (\<forall>bn'. view k' bn' = view k bn')"

lemma bread_postD:
  assumes "bread_post pid H P bn k b k'"
  shows bp_ok: "cache_ok pid (insert b H) P k'" and bp_new: "b \<notin> H" "b < NBUF"
    and bp_block: "b_dev (bufs k' b) = ROOTDEV" "b_blockno (bufs k' b) = bn" "b_data (bufs k' b) = view k bn"
    and bp_clean: "b \<notin> P \<Longrightarrow> b_data (bufs k' b) = disk k bn"
    and bp_frame: "procs k' = procs k" "disk k' = disk k" "disk_writes k' = disk_writes k" "klog k' = klog k" "sb k' = sb k"
      "itable k' = itable k" "ftable k' = ftable k" "kftable k' = kftable k" "pm k' = pm k"
    and bp_same: "a \<in> H \<Longrightarrow> same_buf k k' a" "a \<in> P \<Longrightarrow> same_buf k k' a"
    and bp_view: "view k' = view k"
proof -
  have k': "k' = k\<lparr>bufs := bufs k'\<rparr>" using assms by (simp add: bread_post_def)
  show "procs k' = procs k" "disk k' = disk k" "disk_writes k' = disk_writes k" "klog k' = klog k" "sb k' = sb k"
    "itable k' = itable k" "ftable k' = ftable k" "kftable k' = kftable k" "pm k' = pm k" by (subst k', simp)+
qed (use assms in \<open>auto simp: bread_post_def fun_eq_iff\<close>)

lemma lock_buf_ok: "b_lock (bufs k b) = None \<Longrightarrow> lock_buf i b k = Inr (b, upd_buf b (\<lambda>x. x\<lparr>b_lock := Some (p_pid (procs k i))\<rparr>) k)"
  by (simp add: lock_buf_def acquiresleep_def)

text \<open>A held buffer of block bn that agrees with the view is all that bread adds.\<close>

lemma bread_postI:
  assumes c: "cache_ok pid H P k" and b: "b < NBUF" "b \<notin> H"
    and k': "k' = k\<lparr>bufs := (bufs k)(b := x)\<rparr>"
    and x: "b_next x = b_next (bufs k b)" "b_prev x = b_prev (bufs k b)" "b_lock x = Some pid" "b_dev x = ROOTDEV" "b_blockno x = bn"
      "b_valid x" "b_refcnt x = 1 + (if b \<in> P then 1 else 0)" "b_data x = view k bn" "b \<in> P \<or> b_data x = disk k bn"
    and old: "b \<in> P \<Longrightarrow> b_dev (bufs k b) = ROOTDEV \<and> b_blockno (bufs k b) = bn"
    and other: "\<And>a. a < NBUF \<Longrightarrow> a \<noteq> b \<Longrightarrow> \<not> (b_dev (bufs k a) = ROOTDEV \<and> b_blockno (bufs k a) = bn)"
  shows "bread_post pid H P bn k b k'"
proof -
  obtain xs where xs: "lru_list k xs" using cache_lru [OF c] by blast
  have "lru_list k' xs" using xs x(1,2) by (subst lru_list_cong [of k']) (auto simp: k')
  then have lx: "\<exists>xs. lru_list k' xs" by blast
  have c': "cache_ok pid (insert b H) P k'"
  proof (rule cache_okI)
    show "a < NBUF" if "a \<in> insert b H" for a using that cache_H [OF c, of a] b by auto
    show "a < NBUF" if "a \<in> P" for a using that cache_P [OF c, of a] by auto
    show "b_lock (bufs k' a) = (if a \<in> insert b H then Some pid else None)" if "a < NBUF" for a
      using that cache_lock [OF c, of a] x(3) by (auto simp: k')
    show "b_refcnt (bufs k' a) = (if a \<in> insert b H then 1 else 0) + (if a \<in> P then 1 else 0)" if "a < NBUF" for a
      using that cache_ref [OF c, of a] x(7) by (auto simp: k')
    show "b_valid (bufs k' a)" if "a \<in> insert b H \<or> a \<in> P" for a
      using that cache_valid [OF c, of a] x by (auto simp: k')
    show "b_dev (bufs k' a) = ROOTDEV" if "a < NBUF" "b_valid (bufs k' a)" for a
      using that cache_dev [OF c, of a] x by (auto simp: k' split: if_splits)
    show "b_data (bufs k' a) = disk k' (b_blockno (bufs k' a))" if "a < NBUF" "b_valid (bufs k' a)" "a \<notin> insert b H" "a \<notin> P" for a
      using that cache_clean [OF c, of a] by (auto simp: k')
    show "b_dev (bufs k' a) = 0" if "a < NBUF" "a' < NBUF" "a \<noteq> a'" "b_dev (bufs k' a) = b_dev (bufs k' a')"
        "b_blockno (bufs k' a) = b_blockno (bufs k' a')" for a a'
      using that cache_uniq [OF c, of a a'] other [of a] other [of a'] x(4,5) by (auto simp: k' split: if_splits)
  qed (rule lx)
  have gone: "bufof k' bn' = None" if "b_dev (bufs k b) = ROOTDEV" "b_blockno (bufs k b) = bn'" "bn' \<noteq> bn" for bn'
  proof -
    have "\<not> (b_dev (bufs k' a) = ROOTDEV \<and> b_blockno (bufs k' a) = bn')" if a: "a < NBUF" for a
    proof (cases "a = b")
      case True
      then show ?thesis using x(5) \<open>bn' \<noteq> bn\<close> by (simp add: k')
    next
      case False
      then show ?thesis using cache_uniq [OF c a b(1)] that \<open>b_dev (bufs k b) = ROOTDEV\<close> \<open>b_blockno (bufs k b) = bn'\<close>
        by (auto simp: k')
    qed
    then show ?thesis by (simp add: bufof_None)
  qed
  have v: "view k' bn' = view k bn'" for bn'
  proof (cases "bn' = bn")
    case True
    then show ?thesis using view_buf [OF c' b(1), of bn] x by (simp add: k')
  next
    case False
    show ?thesis
    proof (rule view_eqI [OF c c'])
      fix a assume a: "a < NBUF" "b_dev (bufs k a) = ROOTDEV" "b_blockno (bufs k a) = bn'"
      show "view k' bn' = b_data (bufs k a)" if "b_valid (bufs k a)"
      proof (cases "a = b")
        case True
        then have p: "b \<notin> P" using old a False by auto
        then have "b_data (bufs k a) = disk k bn'" using cache_clean [OF c, of b] a True that b by auto
        moreover have "view k' bn' = disk k' bn'" using gone [of bn'] a True False by (simp add: view_def)
        ultimately show ?thesis by (simp add: k')
      next
        case ne: False
        then show ?thesis using view_buf [OF c' a(1), of bn'] a that by (simp add: k')
      qed
      show "view k' bn' = disk k bn'" if nv: "\<not> b_valid (bufs k a)"
      proof (cases "a = b")
        case True
        then have "view k' bn' = disk k' bn'" using gone [of bn'] a False by (simp add: view_def)
        then show ?thesis by (simp add: k')
      next
        case ne: False
        then show ?thesis using view_buf [OF c' a(1), of bn'] a nv by (simp add: k')
      qed
    next
      assume "bufof k bn' = None"
      then have "bufof k' bn' = None" using False x(5) by (auto simp: bufof_None k')
      then show "view k' bn' = disk k bn'" by (simp add: view_def k')
    qed
  qed
  have "same_buf k k' a" if "a \<in> H \<union> P" for a
  proof (cases "a = b")
    case True
    then have p: "b \<in> P" using that b(2) by auto
    then have "view k bn = b_data (bufs k b)" using old view_buf [OF c b(1), of bn] cache_valid [OF c, of b] by auto
    then show ?thesis using True old [OF p] x cache_valid [OF c, of b] p by (simp add: same_buf_def k')
  qed (simp add: same_buf_def k')
  then show ?thesis using c' b x v unfolding bread_post_def by (auto simp: k')
qed

lemma find_rev_Some:
  assumes "x \<in> set xs" and "Q x"
  obtains y where "List.find Q (rev xs) = Some y" and "y \<in> set xs" and "Q y"
proof -
  have "List.find Q (rev xs) \<noteq> None" using assms by (auto simp: find_None_iff)
  then obtain y where y: "List.find Q (rev xs) = Some y" by auto
  then obtain n where "n < length (rev xs)" "Q (rev xs ! n)" "y = rev xs ! n" by (auto simp: find_Some_iff)
  then have "y \<in> set (rev xs)" "Q y" by (auto simp del: set_rev intro: nth_mem)
  then show ?thesis using that y by simp
qed

lemma bread_ok:
  assumes c: "cache_ok pid H P k" and pid: "pid = p_pid (procs k i)"
    and nh: "\<And>b. b \<in> H \<Longrightarrow> \<not> (b_dev (bufs k b) = ROOTDEV \<and> b_blockno (bufs k b) = bn)"
    and room: "bufof k bn \<noteq> None \<or> (\<exists>b<NBUF. b \<notin> H \<union> P)"
  shows "\<exists>b k'. bread i ROOTDEV bn k = Inr (b, k') \<and> bread_post pid H P bn k b k'"
proof -
  obtain xs where xs: "lru_list k xs" using cache_lru [OF c] by blast
  have sx: "set xs = {..<NBUF}" using xs by (simp add: lru_list_def)
  note sc = lru_scan_next [OF xs, of "\<lambda>x. b_dev x = ROOTDEV \<and> b_blockno x = bn"]
  show ?thesis
  proof (cases "List.find (\<lambda>b. b_dev (bufs k b) = ROOTDEV \<and> b_blockno (bufs k b) = bn) xs")
    case (Some b)
    then have b: "b < NBUF" "b_dev (bufs k b) = ROOTDEV" "b_blockno (bufs k b) = bn"
      using sx by (auto simp: find_Some_iff)
    have bH: "b \<notin> H" using nh b by blast
    have lk: "b_lock (bufs k b) = None" using cache_lock [OF c b(1)] bH by simp
    have rf: "b_refcnt (bufs k b) = (if b \<in> P then 1 else 0)" using cache_ref [OF c b(1)] bH by simp
    define y where "y = (bufs k b)\<lparr>b_refcnt := b_refcnt (bufs k b) + 1, b_lock := Some pid\<rparr>"
    define x where "x = (if b_valid y then y else y\<lparr>b_data := disk k bn, b_valid := True\<rparr>)"
    have "bget i ROOTDEV bn k = Inr (b, k\<lparr>bufs := (bufs k)(b := y)\<rparr>)"
      using sc Some lk by (simp add: bget_def lock_buf_ok y_def pid upd_buf_def)
    then have "bread i ROOTDEV bn k = Inr (b, k\<lparr>bufs := (bufs k)(b := x)\<rparr>)"
      using b by (auto simp: bread_def x_def y_def disk_rw_def upd_buf_def)
    moreover have "bread_post pid H P bn k b (k\<lparr>bufs := (bufs k)(b := x)\<rparr>)"
    proof (rule bread_postI [OF c b(1) bH refl])
      have "b_data x = view k bn" using view_buf [OF c b] by (simp add: x_def y_def)
      then show "b_data x = view k bn" .
      show "b \<in> P \<or> b_data x = disk k bn" using cache_clean [OF c b(1)] bH b(3) by (auto simp: x_def y_def)
      show "\<not> (b_dev (bufs k a) = ROOTDEV \<and> b_blockno (bufs k a) = bn)" if "a < NBUF" "a \<noteq> b" for a
        using cache_uniq [OF c that(1) b(1)] that(2) b by auto
    qed (use b in \<open>simp_all add: x_def y_def rf\<close>)
    ultimately show ?thesis by blast
  next
    case None
    then have none: "\<not> (b_dev (bufs k a) = ROOTDEV \<and> b_blockno (bufs k a) = bn)" if "a < NBUF" for a
      using that sx by (auto simp: find_None_iff)
    then have "bufof k bn = None" by (simp add: bufof_None)
    then obtain z where z: "z < NBUF" "z \<notin> H \<union> P" using room by auto
    have "z \<in> set xs" "b_refcnt (bufs k z) = 0" using z sx cache_ref [OF c z(1)] by auto
    then obtain b where fb: "List.find (\<lambda>b. b_refcnt (bufs k b) = 0) (rev xs) = Some b" and "b \<in> set xs" "b_refcnt (bufs k b) = 0"
      by (rule find_rev_Some)
    then have b: "b < NBUF" "b_refcnt (bufs k b) = 0" using sx by auto
    have bHP: "b \<notin> H" "b \<notin> P" using cache_ref [OF c b(1)] b(2) by (auto split: if_splits)
    have lk: "b_lock (bufs k b) = None" using cache_lock [OF c b(1)] bHP by simp
    define x where "x = (bufs k b)\<lparr>b_dev := ROOTDEV, b_blockno := bn, b_refcnt := 1, b_lock := Some pid,
      b_data := disk k bn, b_valid := True\<rparr>"
    have sp: "scan_prev NBUF (\<lambda>x. b_refcnt x = 0) k (b_prev (bufs k head)) = Inr (Some b)"
      using lru_scan_prev [OF xs, of "\<lambda>x. b_refcnt x = 0"] fb by simp
    have "bread i ROOTDEV bn k = Inr (b, k\<lparr>bufs := (bufs k)(b := x)\<rparr>)"
      using sc None sp lk by (simp add: bread_def bget_def lock_buf_ok x_def pid upd_buf_def disk_rw_def)
    moreover have "bread_post pid H P bn k b (k\<lparr>bufs := (bufs k)(b := x)\<rparr>)"
    proof (rule bread_postI [OF c b(1) bHP(1) refl])
      show "b_data x = view k bn" using \<open>bufof k bn = None\<close> by (simp add: x_def view_def)
    qed (use bHP none in \<open>simp_all add: x_def\<close>)
    ultimately show ?thesis by blast
  qed
qed

subsection \<open>The contracts of bwrite, brelse and the pins\<close>

lemma holding_held: "cache_ok pid H P k \<Longrightarrow> b \<in> H \<Longrightarrow> pid = p_pid (procs k i) \<Longrightarrow>
    holdingsleep (p_pid (procs k i)) (b_lock (bufs k b))"
  using cache_lock [of pid H P k b] cache_H [of pid H P k b] by (simp add: holdingsleep_def)

lemma lru_links:
  assumes "lru_list k xs" and "\<And>b. b_next (bufs k' b) = b_next (bufs k b)" "\<And>b. b_prev (bufs k' b) = b_prev (bufs k b)"
  shows "\<exists>xs. lru_list k' xs"
  using assms lru_list_cong by blast

text \<open>A change that keeps which block each buffer holds.\<close>

lemma cache_ok_same:
  assumes c: "cache_ok pid H P k" and lru: "\<exists>xs. lru_list k' xs"
    and id: "\<And>b. b_dev (bufs k' b) = b_dev (bufs k b)" "\<And>b. b_blockno (bufs k' b) = b_blockno (bufs k b)"
      "\<And>b. b_valid (bufs k' b) = b_valid (bufs k b)"
    and lock: "\<And>b. b < NBUF \<Longrightarrow> b_lock (bufs k' b) = (if b \<in> H' then Some pid else None)"
    and ref: "\<And>b. b < NBUF \<Longrightarrow> b_refcnt (bufs k' b) = (if b \<in> H' then 1 else 0) + (if b \<in> P' then 1 else 0)"
    and sub: "H' \<subseteq> H" "P' \<subseteq> H \<union> P"
    and clean: "\<And>b. b < NBUF \<Longrightarrow> b_valid (bufs k b) \<Longrightarrow> b \<notin> H' \<Longrightarrow> b \<notin> P' \<Longrightarrow> b_data (bufs k' b) = disk k' (b_blockno (bufs k b))"
  shows "cache_ok pid H' P' k'"
proof (rule cache_okI [OF lru])
  show "b < NBUF" if "b \<in> H'" for b using that cache_H [OF c, of b] sub by auto
  show "b < NBUF" if "b \<in> P'" for b using that cache_H [OF c, of b] cache_P [OF c, of b] sub by auto
  show "b_valid (bufs k' b)" if "b \<in> H' \<or> b \<in> P'" for b
    using that cache_valid [OF c, of b] sub by (auto simp: id)
  show "b_dev (bufs k' b) = ROOTDEV" if "b < NBUF" "b_valid (bufs k' b)" for b
    using that cache_dev [OF c, of b] by (simp add: id)
  show "b_dev (bufs k' a) = 0" if "a < NBUF" "b < NBUF" "a \<noteq> b" "b_dev (bufs k' a) = b_dev (bufs k' b)"
      "b_blockno (bufs k' a) = b_blockno (bufs k' b)" for a b
    using cache_uniq [OF c that(1,2)] that(3-5) by (auto simp: id)
qed (use lock ref clean in \<open>simp_all add: id\<close>)

lemma bufof_same:
  assumes "\<And>b. b_dev (bufs k' b) = b_dev (bufs k b)" "\<And>b. b_blockno (bufs k' b) = b_blockno (bufs k b)"
  shows "bufof k' bn = bufof k bn"
  by (simp only: bufof_def assms)

text \<open>A change of a held buffer's data.\<close>

lemma modify_ok:
  assumes c: "cache_ok pid H P k" and b: "b \<in> H"
  shows "cache_ok pid H P (upd_buf b (\<lambda>x. x\<lparr>b_data := g\<rparr>) k)"
    "view (upd_buf b (\<lambda>x. x\<lparr>b_data := g\<rparr>) k) = (view k)(b_blockno (bufs k b) := g)"
proof -
  let ?k = "upd_buf b (\<lambda>x. x\<lparr>b_data := g\<rparr>) k"
  obtain xs where xs: "lru_list k xs" using cache_lru [OF c] by blast
  have "\<exists>xs. lru_list ?k xs" by (rule lru_links [OF xs]) simp_all
  then show c': "cache_ok pid H P ?k"
  proof (rule cache_ok_same [OF c])
    show "b_data (bufs ?k a) = disk ?k (b_blockno (bufs k a))" if "a < NBUF" "b_valid (bufs k a)" "a \<notin> H" "a \<notin> P" for a
      using cache_clean [OF c that] b that by auto
  qed (use cache_lock [OF c] cache_ref [OF c] in auto)
  have d: "b_dev (bufs k b) = ROOTDEV" and v: "b_valid (bufs k b)" and bn: "b < NBUF"
    using cache_dev [OF c] cache_valid [OF c] cache_H [OF c] b by auto
  show "view ?k = (view k)(b_blockno (bufs k b) := g)"
  proof (rule ext)
    fix bn'
    show "view ?k bn' = ((view k)(b_blockno (bufs k b) := g)) bn'"
    proof (cases "bn' = b_blockno (bufs k b)")
      case True
      then show ?thesis using view_buf [OF c' bn, of bn'] d v by simp
    next
      case False
      have "bufof ?k bn' = bufof k bn'" by (rule bufof_same) simp_all
      then show ?thesis using False d v bufof_Some [of k bn'] by (auto simp: view_def split: option.split)
    qed
  qed
qed

lemma bwrite_ok:
  assumes c: "cache_ok pid H P k" and b: "b \<in> H" and pid: "pid = p_pid (procs k i)"
    and k': "k' = k\<lparr>disk := (disk k)(b_blockno (bufs k b) := b_data (bufs k b)),
        disk_writes := disk_writes k @ [(b_blockno (bufs k b), b_data (bufs k b))]\<rparr>"
  shows "bwrite i b k = Inr k'" "cache_ok pid H P k'" "view k' = view k"
proof -
  show "bwrite i b k = Inr k'" using holding_held [OF c b pid] by (simp add: bwrite_def disk_rw_def k')
  obtain xs where xs: "lru_list k xs" using cache_lru [OF c] by blast
  have bb: "b < NBUF" "b_valid (bufs k b)" "b_dev (bufs k b) = ROOTDEV" using cache_H [OF c b] cache_valid [OF c] cache_dev [OF c] b by auto
  have "\<exists>xs. lru_list k' xs" by (rule lru_links [OF xs]) (simp_all add: k')
  then show c': "cache_ok pid H P k'"
  proof (rule cache_ok_same [OF c])
    show "b_data (bufs k' a) = disk k' (b_blockno (bufs k a))" if a: "a < NBUF" "b_valid (bufs k a)" "a \<notin> H" "a \<notin> P" for a
    proof (cases "b_blockno (bufs k a) = b_blockno (bufs k b)")
      case True
      then have "a = b" using cache_uniq [OF c a(1) bb(1)] cache_dev [OF c a(1,2)] bb by simp
      then show ?thesis using a b by simp
    next
      case False
      then show ?thesis using cache_clean [OF c a] by (simp add: k')
    qed
  qed (use cache_lock [OF c] cache_ref [OF c] in \<open>auto simp: k'\<close>)
  show "view k' = view k"
  proof (rule ext)
    fix bn'
    show "view k' bn' = view k bn'"
    proof (cases "bn' = b_blockno (bufs k b)")
      case True
      then show ?thesis using view_buf [OF c' bb(1), of bn'] view_buf [OF c bb(1), of bn'] bb by (simp add: k')
    next
      case False
      have "bufof k' bn' = bufof k bn'" by (rule bufof_same) (simp_all add: k')
      then show ?thesis using False by (auto simp: view_def k' split: option.split)
    qed
  qed
qed

lemma links_fields [simp]:
  "b_dev (bufs (push_buf b k) a) = b_dev (bufs k a)" "b_blockno (bufs (push_buf b k) a) = b_blockno (bufs k a)"
  "b_valid (bufs (push_buf b k) a) = b_valid (bufs k a)" "b_lock (bufs (push_buf b k) a) = b_lock (bufs k a)"
  "b_refcnt (bufs (push_buf b k) a) = b_refcnt (bufs k a)" "b_data (bufs (push_buf b k) a) = b_data (bufs k a)"
  "b_dev (bufs (unlink_buf b k) a) = b_dev (bufs k a)" "b_blockno (bufs (unlink_buf b k) a) = b_blockno (bufs k a)"
  "b_valid (bufs (unlink_buf b k) a) = b_valid (bufs k a)" "b_lock (bufs (unlink_buf b k) a) = b_lock (bufs k a)"
  "b_refcnt (bufs (unlink_buf b k) a) = b_refcnt (bufs k a)" "b_data (bufs (unlink_buf b k) a) = b_data (bufs k a)"
  by (simp_all add: push_buf_def unlink_buf_def Let_def)

lemma links_frame: "push_buf b k = k\<lparr>bufs := bufs (push_buf b k)\<rparr>" "unlink_buf b k = k\<lparr>bufs := bufs (unlink_buf b k)\<rparr>"
  by (simp_all add: push_buf_def unlink_buf_def Let_def upd_buf_def)

lemma move_frame: "push_buf b (unlink_buf b k) = k\<lparr>bufs := bufs (push_buf b (unlink_buf b k))\<rparr>"
  by (simp add: push_buf_def unlink_buf_def Let_def upd_buf_def)

lemma links_disk [simp]: "disk (push_buf b k) = disk k" "disk (unlink_buf b k) = disk k"
  by (simp_all add: push_buf_def unlink_buf_def Let_def)

definition buf_frame :: "kernel \<Rightarrow> kernel \<Rightarrow> bool" where
  "buf_frame k k' \<longleftrightarrow> k' = k\<lparr>procs := procs k', bufs := bufs k'\<rparr> \<and> (\<forall>j. p_pid (procs k' j) = p_pid (procs k j)) \<and>
     (\<forall>b. same_buf k k' b)"

lemma view_same:
  assumes "\<And>b. same_buf k k' b" and "disk k' = disk k"
  shows "view k' = view k"
proof (rule ext)
  fix bn
  have "bufof k' bn = bufof k bn" using assms(1) by (intro bufof_same) (simp_all add: same_buf_def)
  then show "view k' bn = view k bn" using assms by (auto simp: view_def same_buf_def split: option.split)
qed

lemma brelse_ok:
  assumes c: "cache_ok pid H P k" and b: "b \<in> H" and pid: "pid = p_pid (procs k i)"
    and clean: "b \<in> P \<or> b_data (bufs k b) = disk k (b_blockno (bufs k b))"
  shows "\<exists>k'. brelse i b k = Inr k' \<and> cache_ok pid (H - {b}) P k' \<and> buf_frame k k' \<and> view k' = view k \<and>
    (\<forall>xs. lru_list k xs \<longrightarrow> lru_list k' (if b \<in> P then xs else b # remove1 b xs))"
proof -
  obtain xs where xs: "lru_list k xs" using cache_lru [OF c] by blast
  have bb: "b < NBUF" by (rule cache_H [OF c b])
  define k1 where "k1 = wakeup (Some i) (ChanBuf b) (upd_buf b (\<lambda>x. x\<lparr>b_lock := None\<rparr>) k)"
  define k2 where "k2 = upd_buf b (\<lambda>x. x\<lparr>b_refcnt := b_refcnt x - 1\<rparr>) k1"
  define k' where "k' = (if b \<in> P then k2 else push_buf b (unlink_buf b k2))"
  define w where "w = procs k1"
  have w: "k1 = k\<lparr>bufs := (bufs k)(b := (bufs k b)\<lparr>b_lock := None\<rparr>), procs := w\<rparr>" "\<And>j. p_pid (w j) = p_pid (procs k j)"
    unfolding w_def k1_def using wakeup_frame(1) [of "Some i" "ChanBuf b" "upd_buf b (\<lambda>x. x\<lparr>b_lock := None\<rparr>) k"]
    by (simp_all add: upd_buf_def wakeup_frame(2))
  have k2: "k2 = k\<lparr>bufs := (bufs k)(b := (bufs k b)\<lparr>b_lock := None, b_refcnt := b_refcnt (bufs k b) - 1\<rparr>), procs := w\<rparr>"
    by (simp add: k2_def w(1) upd_buf_def)
  have b2: "bufs k2 = (bufs k)(b := (bufs k b)\<lparr>b_lock := None, b_refcnt := b_refcnt (bufs k b) - 1\<rparr>)" "disk k2 = disk k"
    by (simp_all add: k2)
  have rf: "b_refcnt (bufs k b) - 1 = 0 \<longleftrightarrow> b \<notin> P" using cache_ref [OF c bb] b by simp
  have r: "brelse i b k = Inr k'"
    using holding_held [OF c b pid] rf arg_cong [OF w(1), of "\<lambda>k. b_refcnt (bufs k b)"]
    by (simp add: brelse_def releasesleep_def k1_def [symmetric] k2_def [symmetric] k'_def b2)
  have lx: "lru_list k2 ys" if "lru_list k ys" for ys
    using that by (subst lru_list_cong [of k2]) (auto simp: b2)
  then have lx': "lru_list k' (if b \<in> P then ys else b # remove1 b ys)" if "lru_list k ys" for ys
    using that move_to_front [OF lx [OF that] bb] by (simp add: k'_def)
  have f: "b_dev (bufs k' a) = b_dev (bufs k a)" "b_blockno (bufs k' a) = b_blockno (bufs k a)" "b_valid (bufs k' a) = b_valid (bufs k a)"
    "b_data (bufs k' a) = b_data (bufs k a)" "b_lock (bufs k' a) = (if a = b then None else b_lock (bufs k a))"
    "b_refcnt (bufs k' a) = (if a = b then b_refcnt (bufs k b) - 1 else b_refcnt (bufs k a))" for a
    by (simp_all add: k'_def b2)
  have dk: "disk k' = disk k" by (simp add: k'_def b2)
  have "\<exists>xs. lru_list k' xs" using lx' [OF xs] by blast
  then have c': "cache_ok pid (H - {b}) P k'"
  proof (rule cache_ok_same [OF c])
    show "b_data (bufs k' a) = disk k' (b_blockno (bufs k a))" if "a < NBUF" "b_valid (bufs k a)" "a \<notin> H - {b}" "a \<notin> P" for a
      using that clean cache_clean [OF c that(1,2)] by (cases "a = b") (auto simp: f dk)
  qed (use cache_lock [OF c] cache_ref [OF c] b in \<open>auto simp: f\<close>)
  have "k' = k2\<lparr>bufs := bufs k'\<rparr>" using move_frame [of b k2] by (simp add: k'_def)
  then have k': "k' = k\<lparr>procs := w, bufs := bufs k'\<rparr>" by (simp add: k2)
  then have p: "procs k' = w" by (rule ssubst) simp
  have fr: "buf_frame k k'" unfolding buf_frame_def same_buf_def p using k' w(2) f by blast
  have "view k' = view k" using f dk by (intro view_same) (simp_all add: same_buf_def)
  then show ?thesis using r c' fr lx' by blast
qed

lemma bpin_ok:
  assumes c: "cache_ok pid H P k" and b: "b \<in> H" "b \<notin> P"
  shows "cache_ok pid H (insert b P) (bpin b k)" "view (bpin b k) = view k"
proof -
  obtain xs where xs: "lru_list k xs" using cache_lru [OF c] by blast
  have "\<exists>xs. lru_list (bpin b k) xs" by (rule lru_links [OF xs]) (simp_all add: bpin_def)
  then show "cache_ok pid H (insert b P) (bpin b k)"
    by (rule cache_ok_same [OF c]) (use cache_lock [OF c] cache_ref [OF c] cache_clean [OF c] b in \<open>auto simp: bpin_def\<close>)
  show "view (bpin b k) = view k" by (rule view_same) (simp_all add: same_buf_def bpin_def)
qed

lemma bunpin_ok:
  assumes c: "cache_ok pid H P k" and b: "b \<in> H" "b \<in> P"
  shows "cache_ok pid H (P - {b}) (bunpin b k)" "view (bunpin b k) = view k"
proof -
  obtain xs where xs: "lru_list k xs" using cache_lru [OF c] by blast
  have "\<exists>xs. lru_list (bunpin b k) xs" by (rule lru_links [OF xs]) (simp_all add: bunpin_def)
  then show "cache_ok pid H (P - {b}) (bunpin b k)"
  proof (rule cache_ok_same [OF c])
    show "b_lock (bufs (bunpin b k) a) = (if a \<in> H then Some pid else None)" if "a < NBUF" for a
      using cache_lock [OF c that] by (cases "a = b") (simp_all add: bunpin_def)
    show "b_refcnt (bufs (bunpin b k) a) = (if a \<in> H then 1 else 0) + (if a \<in> P - {b} then 1 else 0)" if "a < NBUF" for a
      using cache_ref [OF c that] b by (cases "a = b") (simp_all add: bunpin_def)
    show "b_data (bufs (bunpin b k) a) = disk (bunpin b k) (b_blockno (bufs k a))"
      if "a < NBUF" "b_valid (bufs k a)" "a \<notin> H" "a \<notin> P - {b}" for a
      using cache_clean [OF c that(1,2)] that b by (cases "a = b") (simp_all add: bunpin_def)
  qed (auto simp: bunpin_def)
  show "view (bunpin b k) = view k" by (rule view_same) (simp_all add: same_buf_def bunpin_def)
qed

subsection \<open>binit\<close>

definition linked :: "kernel \<Rightarrow> nat list \<Rightarrow> bool" where
  "linked k xs \<longleftrightarrow> distinct (head # xs) \<and> chain (\<lambda>b. b_next (bufs k b)) head xs head \<and>
     chain (\<lambda>b. b_prev (bufs k b)) head (rev xs) head"

lemma push_linked:
  assumes "linked k xs" and "b \<notin> set xs" and "b \<noteq> head"
  shows "linked (push_buf b k) (b # xs)"
proof -
  let ?n = "\<lambda>x. b_next (bufs k x)"
  have fst: "?n head = last (head # rev xs)" using assms(1) by (cases xs) (auto simp: linked_def)
  have n: "chain (\<lambda>x. b_next (bufs (push_buf b k) x)) head (b # xs) head"
    using chain_push [of ?n head xs head b] assms by (simp add: push_buf_links(1) linked_def)
  have "chain (\<lambda>x. b_prev (bufs (push_buf b k) x)) head (rev xs @ [b]) head"
    using chain_snoc [of "\<lambda>x. b_prev (bufs k x)" head "rev xs" head b] assms
    by (simp add: push_buf_links(2) linked_def fst del: last.simps)
  then show ?thesis using n assms by (simp add: linked_def)
qed

lemma linked_lock: "linked (upd_buf b (\<lambda>x. x\<lparr>b_lock := l\<rparr>) k) xs = linked k xs"
proof -
  let ?k = "upd_buf b (\<lambda>x. x\<lparr>b_lock := l\<rparr>) k"
  have "(\<lambda>x. b_next (bufs ?k x)) = (\<lambda>x. b_next (bufs k x))" "(\<lambda>x. b_prev (bufs ?k x)) = (\<lambda>x. b_prev (bufs k x))"
    by (simp_all add: fun_eq_iff)
  then show ?thesis by (simp only: linked_def)
qed

lemma binit_lru: "lru_list (binit k) (rev [0..<NBUF])"
proof -
  let ?f = "\<lambda>b k. upd_buf b (\<lambda>x. x\<lparr>b_lock := initsleeplock\<rparr>) (push_buf b k)"
  let ?k = "upd_buf head (\<lambda>x. x\<lparr>b_prev := head, b_next := head\<rparr>) k"
  have "linked (fold ?f [0..<n] ?k) (rev [0..<n])" if "n \<le> NBUF" for n
    using that
  proof (induction n)
    case 0
    then show ?case by (simp add: linked_def)
  next
    case (Suc n)
    then have "linked (push_buf n (fold ?f [0..<n] ?k)) (n # rev [0..<n])" by (intro push_linked) auto
    then show ?case by (simp add: linked_lock)
  qed
  from this [of NBUF] have "linked (binit k) (rev [0..<NBUF])" unfolding binit_def by (simp only: order_refl)
  moreover have "set (rev [0..<NBUF]) = {..<NBUF}" by (simp only: set_rev set_upt atLeast0LessThan)
  ultimately show ?thesis by (simp only: linked_def lru_list_def distinct.simps simp_thms)
qed

lemma binit_fields:
  "b_dev (bufs (binit k) b) = b_dev (bufs k b)" "b_valid (bufs (binit k) b) = b_valid (bufs k b)"
  "b_refcnt (bufs (binit k) b) = b_refcnt (bufs k b)" "b < NBUF \<Longrightarrow> b_lock (bufs (binit k) b) = None"
proof -
  let ?f = "\<lambda>b k. upd_buf b (\<lambda>x. x\<lparr>b_lock := initsleeplock\<rparr>) (push_buf b k)"
  let ?k = "upd_buf head (\<lambda>x. x\<lparr>b_prev := head, b_next := head\<rparr>) k"
  have "b_dev (bufs (fold ?f [0..<n] ?k) b) = b_dev (bufs k b) \<and> b_valid (bufs (fold ?f [0..<n] ?k) b) = b_valid (bufs k b) \<and>
    b_refcnt (bufs (fold ?f [0..<n] ?k) b) = b_refcnt (bufs k b) \<and> (b < n \<longrightarrow> b_lock (bufs (fold ?f [0..<n] ?k) b) = None)" for n b
    by (induction n) (auto simp: initsleeplock_def)
  from this [of NBUF] show "b_dev (bufs (binit k) b) = b_dev (bufs k b)" "b_valid (bufs (binit k) b) = b_valid (bufs k b)"
    "b_refcnt (bufs (binit k) b) = b_refcnt (bufs k b)" "b < NBUF \<Longrightarrow> b_lock (bufs (binit k) b) = None"
    unfolding binit_def by (simp_all del: upt_rec_numeral)
qed

text \<open>After boot the cache is empty and well-formed.\<close>

lemma binit_ok:
  assumes "\<And>b. b < NBUF \<Longrightarrow> b_dev (bufs k b) = 0 \<and> \<not> b_valid (bufs k b) \<and> b_refcnt (bufs k b) = 0"
  shows "cache_ok pid {} {} (binit k)"
proof (rule cache_okI)
  show "\<exists>xs. lru_list (binit k) xs" using binit_lru by blast
qed (use assms in \<open>auto simp: binit_fields\<close>)

subsection \<open>Properties\<close>

text \<open>
  C24. \<open>bread\<close> returns a locked buffer with the current content of the block, the cached copy if
  there is one and what is on the disk otherwise. It does so whenever the caller does not hold the
  block already and the block is cached or some buffer is neither held nor pinned; the invariant of
  the cache and the content of every block stay as they were.
\<close>

theorem bread_returns_block:
  assumes "cache_ok (p_pid (procs k i)) H P k"
    and "\<forall>b\<in>H. \<not> (b_dev (bufs k b) = ROOTDEV \<and> b_blockno (bufs k b) = bn)"
    and "bufof k bn \<noteq> None \<or> (\<exists>b<NBUF. b \<notin> H \<union> P)"
  shows "\<exists>b k'. bread i ROOTDEV bn k = Inr (b, k') \<and> cache_ok (p_pid (procs k i)) (insert b H) P k' \<and>
    b_blockno (bufs k' b) = bn \<and> b_data (bufs k' b) = view k bn \<and> (\<forall>bn'. view k' bn' = view k bn') \<and> disk k' = disk k"
proof -
  from bread_ok [OF assms(1) refl, of bn] assms(2,3) obtain b k' where
    r: "bread i ROOTDEV bn k = Inr (b, k')" and p: "bread_post (p_pid (procs k i)) H P bn k b k'" by auto
  show ?thesis using r bp_ok [OF p] bp_block [OF p] bp_view [OF p] bp_frame(2) [OF p] by auto
qed

lemma boot_cache: "cache_ok pid {} {} (binit blank_kernel)"
  by (rule binit_ok) (simp add: blank_kernel_def blank_buf_def)

theorem bread_returns_block_witness:
  "\<exists>b k'. bread 0 ROOTDEV 7 (binit blank_kernel) = Inr (b, k') \<and>
    cache_ok (p_pid (procs (binit blank_kernel) 0)) (insert b {}) {} k' \<and>
    b_blockno (bufs k' b) = 7 \<and> b_data (bufs k' b) = view (binit blank_kernel) 7 \<and>
    (\<forall>bn'. view k' bn' = view (binit blank_kernel) bn') \<and> disk k' = disk (binit blank_kernel)"
  by (rule bread_returns_block [OF boot_cache]) (use zero_less_numeral in blast)+

text \<open>
  C25. Replacement is least recently used: releasing an unpinned buffer moves it to the front of the
  list, and a block that is not cached gets the last buffer of the list that nobody refers to.
\<close>

theorem brelse_moves_to_front:
  assumes "cache_ok (p_pid (procs k i)) H P k" and "b \<in> H" and "b \<notin> P"
    and "b_data (bufs k b) = disk k (b_blockno (bufs k b))" and "lru_list k xs"
  shows "\<exists>k'. brelse i b k = Inr k' \<and> lru_list k' (b # remove1 b xs) \<and>
    (bufof k' bn = None \<longrightarrow> bget i ROOTDEV bn k' =
      (case List.find (\<lambda>a. b_refcnt (bufs k' a) = 0) (rev (b # remove1 b xs)) of
         None \<Rightarrow> panic ''bget: no buffers''
       | Some a \<Rightarrow> lock_buf i a (upd_buf a (\<lambda>x. x\<lparr>b_dev := ROOTDEV, b_blockno := bn, b_valid := False, b_refcnt := 1\<rparr>) k')))"
proof -
  from brelse_ok [OF assms(1,2) refl] assms(3-5) obtain k' where r: "brelse i b k = Inr k'" and l: "lru_list k' (b # remove1 b xs)"
    by auto
  have "List.find (\<lambda>a. b_dev (bufs k' a) = ROOTDEV \<and> b_blockno (bufs k' a) = bn) (b # remove1 b xs) = None" if "bufof k' bn = None"
    using that l unfolding lru_list_def by (auto simp: bufof_None find_None_iff)
  then show ?thesis using r l lru_scan_next [OF l, of "\<lambda>x. b_dev x = ROOTDEV \<and> b_blockno x = bn"]
      lru_scan_prev [OF l, of "\<lambda>x. b_refcnt x = 0"]
    by (intro exI [of _ k']) (simp add: bget_def)
qed

lemma boot_bread:
  "\<exists>b k. cache_ok (p_pid (procs k 0)) {b} {} k \<and> b_data (bufs k b) = disk k (b_blockno (bufs k b))"
proof -
  have "\<exists>b<NBUF. b \<notin> {} \<union> ({} :: nat set)" using zero_less_numeral by blast
  then obtain b k where p: "bread_post (p_pid (procs (binit blank_kernel) 0)) {} {} 7 (binit blank_kernel) b k"
    using bread_ok [OF boot_cache refl, of 7 0] by blast
  then have "cache_ok (p_pid (procs k 0)) {b} {} k" "b_data (bufs k b) = disk k (b_blockno (bufs k b))"
    using bp_ok [OF p] bp_block [OF p] bp_clean [OF p] bp_frame [OF p] by simp_all
  then show ?thesis by (intro exI [of _ b] exI [of _ k]) simp
qed

theorem brelse_moves_to_front_witness:
  "\<exists>b k xs k'. lru_list k xs \<and> brelse 0 b k = Inr k' \<and> lru_list k' (b # remove1 b xs) \<and>
    (bufof k' 9 = None \<longrightarrow> bget 0 ROOTDEV 9 k' =
      (case List.find (\<lambda>a. b_refcnt (bufs k' a) = 0) (rev (b # remove1 b xs)) of
         None \<Rightarrow> panic ''bget: no buffers''
       | Some a \<Rightarrow> lock_buf 0 a (upd_buf a (\<lambda>x. x\<lparr>b_dev := ROOTDEV, b_blockno := 9, b_valid := False, b_refcnt := 1\<rparr>) k')))"
proof -
  obtain b k where k: "cache_ok (p_pid (procs k 0)) {b} {} k" "b_data (bufs k b) = disk k (b_blockno (bufs k b))"
    using boot_bread by blast
  obtain xs where xs: "lru_list k xs" using cache_lru [OF k(1)] by blast
  have "\<exists>k'. brelse 0 b k = Inr k' \<and> lru_list k' (b # remove1 b xs) \<and>
    (bufof k' 9 = None \<longrightarrow> bget 0 ROOTDEV 9 k' =
      (case List.find (\<lambda>a. b_refcnt (bufs k' a) = 0) (rev (b # remove1 b xs)) of
         None \<Rightarrow> panic ''bget: no buffers''
       | Some a \<Rightarrow> lock_buf 0 a (upd_buf a (\<lambda>x. x\<lparr>b_dev := ROOTDEV, b_blockno := 9, b_valid := False, b_refcnt := 1\<rparr>) k')))"
    by (rule brelse_moves_to_front [OF k(1) _ _ k(2) xs]) simp_all
  with xs have "\<exists>k'. lru_list k xs \<and> brelse 0 b k = Inr k' \<and> lru_list k' (b # remove1 b xs) \<and>
    (bufof k' 9 = None \<longrightarrow> bget 0 ROOTDEV 9 k' =
      (case List.find (\<lambda>a. b_refcnt (bufs k' a) = 0) (rev (b # remove1 b xs)) of
         None \<Rightarrow> panic ''bget: no buffers''
       | Some a \<Rightarrow> lock_buf 0 a (upd_buf a (\<lambda>x. x\<lparr>b_dev := ROOTDEV, b_blockno := 9, b_valid := False, b_refcnt := 1\<rparr>) k')))"
    by (simp only: simp_thms)
  then show ?thesis by (rule exI [of _ b, OF exI [of _ k, OF exI [of _ xs]]])
qed

text \<open>
  C26. When no buffer is free, \<open>bread\<close> of a block that is not cached panics: the log may pin
  \<open>LOGSIZE\<close> blocks, as many as there are buffers, and then no log block can be read to commit them.
\<close>

theorem bread_panics_without_buffers:
  assumes "cache_ok pid H P k" and "H \<union> P = {..<NBUF}" and "bufof k bn = None"
  shows "bread i ROOTDEV bn k = panic ''bget: no buffers''"
proof -
  obtain xs where xs: "lru_list k xs" using cache_lru [OF assms(1)] by blast
  have sx: "set xs = {..<NBUF}" using xs by (simp add: lru_list_def)
  have 1: "List.find (\<lambda>a. b_dev (bufs k a) = ROOTDEV \<and> b_blockno (bufs k a) = bn) xs = None"
    using assms(3) sx by (auto simp: bufof_None find_None_iff)
  have "b_refcnt (bufs k a) \<noteq> 0" if a: "a \<in> set xs" for a
  proof -
    have "a < NBUF" "a \<in> H \<or> a \<in> P" using a sx assms(2) by auto
    then show ?thesis using cache_ref [OF assms(1), of a] by (auto split: if_splits)
  qed
  then have 2: "List.find (\<lambda>a. b_refcnt (bufs k a) = 0) (rev xs) = None" by (auto simp: find_None_iff)
  show ?thesis
    using lru_scan_next [OF xs, of "\<lambda>x. b_dev x = ROOTDEV \<and> b_blockno x = bn"] lru_scan_prev [OF xs, of "\<lambda>x. b_refcnt x = 0"] 1 2
    by (simp add: bread_def bget_def)
qed

lemma of_nat_uint_inj: "a < 2 ^ 32 \<Longrightarrow> b < 2 ^ 32 \<Longrightarrow> (of_nat a :: uint) = of_nat b \<longleftrightarrow> a = b"
  by (simp add: word_of_nat_eq_iff take_bit_nat_eq_self)

definition full_cache :: kernel where
  "full_cache = (binit blank_kernel)\<lparr>bufs := (\<lambda>b. (bufs (binit blank_kernel) b)
     \<lparr>b_dev := ROOTDEV, b_blockno := of_nat b, b_valid := True, b_refcnt := 1\<rparr>)\<rparr>"

lemma full_cache_ok: "cache_ok 0 {} {..<NBUF} full_cache"
proof (rule cache_okI)
  show "\<exists>xs. lru_list full_cache xs" by (rule lru_links [OF binit_lru [of blank_kernel]]) (simp_all add: full_cache_def)
  show "b_dev (bufs full_cache a) = 0" if "a < NBUF" "b < NBUF" "a \<noteq> b" "b_blockno (bufs full_cache a) = b_blockno (bufs full_cache b)" for a b
    using that of_nat_uint_inj [of a b] by (simp add: full_cache_def)
qed (simp_all add: full_cache_def binit_fields)

theorem bread_panics_without_buffers_witness:
  "bread 0 ROOTDEV 40 full_cache = panic ''bget: no buffers''"
proof (rule bread_panics_without_buffers [OF full_cache_ok])
  have "(of_nat b :: uint) \<noteq> 40" if "b < NBUF" for b
    using that of_nat_uint_inj [of b 40] by simp
  then show "bufof full_cache 40 = None" by (simp add: bufof_None full_cache_def)
qed simp

end
