(* ===== verification/Log.thy ===== *)
theory Log
  imports Bio
begin

section \<open>kernel/log.c: the log\<close>

text \<open>
  The log of the file system: logged writes, commit and recovery. \<open>blocked\<close> is a call of \<open>begin_op\<close>
  that has to sleep. \<open>log.lh.block\<close> is a function of the index; the code keeps \<open>n\<close> below
  \<open>LOGSIZE\<close>, except when it reads a header with a larger count from the disk: then it stores outside
  of the array, which is the result \<open>out of bounds\<close>.
\<close>

subsection \<open>Words in blocks\<close>

definition blk_word :: "block \<Rightarrow> nat \<Rightarrow> nat \<Rightarrow> 'a::len word" where
  "blk_word d off n = word_of_bytes (map (\<lambda>j. d (off + j)) [0..<n])"

definition blk_store :: "block \<Rightarrow> nat \<Rightarrow> byte list \<Rightarrow> block" where
  "blk_store d off bs = (\<lambda>j. if off \<le> j \<and> j < off + length bs then bs ! (j - off) else d j)"

subsection \<open>The log header\<close>

definition decode_head :: "block \<Rightarrow> logheader \<Rightarrow> logheader" where
  "decode_head d lh =
     (let n = sint (blk_word d 0 4 :: cint)
      in \<lparr>lh_n = n, lh_block = (\<lambda>i. if int i < n then blk_word d (4 + 4 * i) 4 else lh_block lh i)\<rparr>)"

definition encode_head :: "logheader \<Rightarrow> block \<Rightarrow> block" where
  "encode_head lh d =
     fold (\<lambda>i d. blk_store d (4 + 4 * i) (bytes_of_word 4 (lh_block lh i))) [0..<nat (lh_n lh)]
       (blk_store d 0 (bytes_of_word 4 (of_int (lh_n lh) :: cint)))"

definition set_lh :: "logheader \<Rightarrow> kernel \<Rightarrow> kernel" where
  "set_lh lh k = k\<lparr>klog := (klog k)\<lparr>lg_lh := lh\<rparr>\<rparr>"

definition read_head :: "nat \<Rightarrow> kernel \<Rightarrow> kernel res" where
  "read_head i k =
     bindR (bread i (lg_dev (klog k)) (lg_start (klog k)) k) (\<lambda>(b, k1).
       let lh = decode_head (b_data (bufs k1 b)) (lg_lh (klog k1))
       in if lh_n lh > int LOGSIZE then panic ''out of bounds'' else brelse i b (set_lh lh k1))"

definition write_head :: "nat \<Rightarrow> kernel \<Rightarrow> kernel res" where
  "write_head i k =
     bindR (bread i (lg_dev (klog k)) (lg_start (klog k)) k) (\<lambda>(b, k1).
       bindR (bwrite i b (upd_buf b (\<lambda>x. x\<lparr>b_data := encode_head (lg_lh (klog k1)) (b_data x)\<rparr>) k1)) (brelse i b))"

subsection \<open>Copying between the log and the home blocks\<close>

definition install_one :: "nat \<Rightarrow> bool \<Rightarrow> nat \<Rightarrow> kernel \<Rightarrow> kernel res" where
  "install_one i recovering tail k =
     bindR (bread i (lg_dev (klog k)) (lg_start (klog k) + of_nat tail + 1) k) (\<lambda>(lbuf, k1).
       bindR (bread i (lg_dev (klog k1)) (lh_block (lg_lh (klog k1)) tail) k1) (\<lambda>(dbuf, k2).
         bindR (bwrite i dbuf (upd_buf dbuf (\<lambda>x. x\<lparr>b_data := b_data (bufs k2 lbuf)\<rparr>) k2)) (\<lambda>k3.
           bindR (brelse i lbuf (if recovering then k3 else bunpin dbuf k3)) (brelse i dbuf))))"

definition install_trans :: "nat \<Rightarrow> bool \<Rightarrow> kernel \<Rightarrow> kernel res" where
  "install_trans i recovering k = foldR (install_one i recovering) [0..<nat (lh_n (lg_lh (klog k)))] k"

definition write_one :: "nat \<Rightarrow> nat \<Rightarrow> kernel \<Rightarrow> kernel res" where
  "write_one i tail k =
     bindR (bread i (lg_dev (klog k)) (lg_start (klog k) + of_nat tail + 1) k) (\<lambda>(to, k1).
       bindR (bread i (lg_dev (klog k1)) (lh_block (lg_lh (klog k1)) tail) k1) (\<lambda>(from_b, k2).
         bindR (bwrite i to (upd_buf to (\<lambda>x. x\<lparr>b_data := b_data (bufs k2 from_b)\<rparr>) k2)) (\<lambda>k3.
           bindR (brelse i from_b k3) (brelse i to))))"

definition write_log :: "nat \<Rightarrow> kernel \<Rightarrow> kernel res" where
  "write_log i k = foldR (write_one i) [0..<nat (lh_n (lg_lh (klog k)))] k"

definition clear_log :: "kernel \<Rightarrow> kernel" where
  "clear_log k = set_lh ((lg_lh (klog k))\<lparr>lh_n := 0\<rparr>) k"

definition recover_from_log :: "nat \<Rightarrow> kernel \<Rightarrow> kernel res" where
  "recover_from_log i k =
     bindR (read_head i k) (\<lambda>k1. bindR (install_trans i True k1) (\<lambda>k2. write_head i (clear_log k2)))"

definition commit :: "nat \<Rightarrow> kernel \<Rightarrow> kernel res" where
  "commit i k =
     (if lh_n (lg_lh (klog k)) > 0 then
        bindR (write_log i k) (\<lambda>k1.
          bindR (write_head i k1) (\<lambda>k2.
            bindR (install_trans i False k2) (\<lambda>k3. write_head i (clear_log k3))))
      else Inr k)"

definition initlog :: "nat \<Rightarrow> uint \<Rightarrow> kernel \<Rightarrow> kernel res" where
  "initlog i dev k =
     (if 4 + 4 * LOGSIZE \<ge> BSIZE then panic ''initlog: too big logheader''
      else recover_from_log i (k\<lparr>klog := (klog k)\<lparr>lg_start := sb_logstart (sb k), lg_size := sint (sb_nlog (sb k)), lg_dev := dev\<rparr>\<rparr>))"

subsection \<open>Transactions\<close>

definition begin_op :: "kernel \<Rightarrow> kernel res" where
  "begin_op k =
     (let l = klog k
      in if lg_committing l then blocked
         else if lh_n (lg_lh l) + (lg_outstanding l + 1) * int MAXOPBLOCKS > int LOGSIZE then blocked
         else Inr (k\<lparr>klog := l\<lparr>lg_outstanding := lg_outstanding l + 1\<rparr>\<rparr>))"

definition end_op :: "nat \<Rightarrow> kernel \<Rightarrow> kernel res" where
  "end_op i k =
     (let k1 = k\<lparr>klog := (klog k)\<lparr>lg_outstanding := lg_outstanding (klog k) - 1\<rparr>\<rparr>
      in if lg_committing (klog k1) then panic ''log.committing''
         else if lg_outstanding (klog k1) = 0 then
           bindR (commit i (k1\<lparr>klog := (klog k1)\<lparr>lg_committing := True\<rparr>\<rparr>)) (\<lambda>k2.
             Inr (wakeup (Some i) ChanLog (k2\<lparr>klog := (klog k2)\<lparr>lg_committing := False\<rparr>\<rparr>)))
         else Inr (wakeup (Some i) ChanLog k1))"

definition log_write :: "nat \<Rightarrow> kernel \<Rightarrow> kernel res" where
  "log_write b k =
     (let l = klog k; lh = lg_lh l; n = nat (lh_n lh)
      in if lh_n lh \<ge> int LOGSIZE \<or> lh_n lh \<ge> lg_size l - 1 then panic ''too big a transaction''
         else if lg_outstanding l < 1 then panic ''log_write outside of trans''
         else
           let bn = b_blockno (bufs k b);
               j = (case List.find (\<lambda>j. lh_block lh j = bn) [0..<n] of None \<Rightarrow> n | Some j \<Rightarrow> j);
               lh1 = lh\<lparr>lh_block := (lh_block lh)(j := bn)\<rparr>
           in Inr (if j = n then bpin b (set_lh (lh1\<lparr>lh_n := lh_n lh + 1\<rparr>) k) else set_lh lh1 k))"

subsection \<open>Words in blocks: reading back what was stored\<close>

lemma blk_word_store_same:
  assumes "LENGTH('a) \<le> 8 * n"
  shows "blk_word (blk_store d off (bytes_of_word n (w :: 'a::len word))) off n = w"
proof -
  have "map (\<lambda>j. blk_store d off (bytes_of_word n w) (off + j)) [0..<n] = bytes_of_word n w"
    by (rule nth_equalityI) (simp_all add: blk_store_def)
  then show ?thesis using assms by (simp add: blk_word_def word_of_bytes_of_word take_bit_word_eq_self)
qed

lemma blk_word_store_other:
  assumes "off' + n \<le> off \<or> off + length bs \<le> off'"
  shows "blk_word (blk_store d off bs) off' n = blk_word d off' n"
proof -
  have "map (\<lambda>j. blk_store d off bs (off' + j)) [0..<n] = map (\<lambda>j. d (off' + j)) [0..<n]"
    using assms by (auto simp: blk_store_def)
  then show ?thesis by (simp only: blk_word_def)
qed

lemma decode_encode_head:
  assumes "0 \<le> lh_n lh" and "lh_n lh \<le> int LOGSIZE"
  shows "lh_n (decode_head (encode_head lh d) lh0) = lh_n lh"
    "int t < lh_n lh \<Longrightarrow> lh_block (decode_head (encode_head lh d) lh0) t = lh_block lh t"
proof -
  define e where "e = (\<lambda>m. fold (\<lambda>i d. blk_store d (4 + 4 * i) (bytes_of_word 4 (lh_block lh i))) [0..<m]
       (blk_store d 0 (bytes_of_word 4 (of_int (lh_n lh) :: cint))))"
  have e: "blk_word (e m) 0 4 = (of_int (lh_n lh) :: cint) \<and> (\<forall>t<m. blk_word (e m) (4 + 4 * t) 4 = lh_block lh t)" for m
  proof (induction m)
    case 0
    then show ?case by (simp add: e_def blk_word_store_same)
  next
    case (Suc m)
    have "e (Suc m) = blk_store (e m) (4 + 4 * m) (bytes_of_word 4 (lh_block lh m))" by (simp add: e_def)
    then show ?case using Suc by (auto simp: less_Suc_eq blk_word_store_same blk_word_store_other)
  qed
  have ee: "encode_head lh d = e (nat (lh_n lh))" by (simp add: encode_head_def e_def)
  have sn: "sint (of_int (lh_n lh) :: cint) = lh_n lh" using assms by (simp add: signed_of_int signed_take_bit_int_eq_self)
  show "lh_n (decode_head (encode_head lh d) lh0) = lh_n lh"
    using e [of "nat (lh_n lh)"] sn by (simp add: decode_head_def Let_def ee)
  show "lh_block (decode_head (encode_head lh d) lh0) t = lh_block lh t" if "int t < lh_n lh"
    using e [of "nat (lh_n lh)"] sn that by (simp add: decode_head_def Let_def ee)
qed

subsection \<open>Frames\<close>

definition fs_frame :: "kernel \<Rightarrow> kernel \<Rightarrow> bool" where
  "fs_frame k k' \<longleftrightarrow> sb k' = sb k \<and> itable k' = itable k \<and> ftable k' = ftable k \<and> kftable k' = kftable k \<and> pm k' = pm k \<and>
     (\<forall>j. p_pid (procs k' j) = p_pid (procs k j))"

lemma fs_frame_refl [simp]: "fs_frame k k"
  by (simp add: fs_frame_def)

lemma fs_frame_trans: "fs_frame k k' \<Longrightarrow> fs_frame k' k'' \<Longrightarrow> fs_frame k k''"
  by (simp add: fs_frame_def)

lemma fs_frame_pid: "fs_frame k k' \<Longrightarrow> p_pid (procs k' j) = p_pid (procs k j)"
  by (simp add: fs_frame_def)

lemma bread_fs_frame: "bread_post pid H P bn k b k' \<Longrightarrow> fs_frame k k'"
  by (simp add: fs_frame_def bp_frame)

lemma buf_frameD:
  assumes "buf_frame k k'"
  shows "fs_frame k k'" "klog k' = klog k" "disk k' = disk k" "disk_writes k' = disk_writes k" "same_buf k k' b"
proof -
  have k': "k' = k\<lparr>procs := procs k', bufs := bufs k'\<rparr>" "\<And>j. p_pid (procs k' j) = p_pid (procs k j)" "\<And>b. same_buf k k' b"
    using assms by (auto simp: buf_frame_def)
  show "klog k' = klog k" "disk k' = disk k" "disk_writes k' = disk_writes k" by (subst k'(1), simp)+
  have "sb k' = sb k" "itable k' = itable k" "ftable k' = ftable k" "kftable k' = kftable k" "pm k' = pm k" by (subst k'(1), simp)+
  then show "fs_frame k k'" using k'(2) by (simp add: fs_frame_def)
qed (use assms in \<open>simp add: buf_frame_def\<close>)

lemma same_buf_trans: "same_buf k k' b \<Longrightarrow> same_buf k' k'' b \<Longrightarrow> same_buf k k'' b"
  by (simp add: same_buf_def)

text \<open>A block that no pinned buffer holds comes in an unpinned buffer.\<close>

lemma bp_unpinned:
  assumes "bread_post pid H P bn k b k'" and "\<And>a. a \<in> P \<Longrightarrow> b_blockno (bufs k a) \<noteq> bn"
  shows "b \<notin> P"
  using assms(2) [of b] bp_same(2) [OF assms(1), of b] bp_block(2) [OF assms(1)] by (auto simp: same_buf_def)

subsection \<open>Writing the header\<close>

lemma write_head_ok:
  assumes c: "cache_ok pid {} P k" and pid: "pid = p_pid (procs k i)" and dev: "lg_dev (klog k) = ROOTDEV"
    and np: "\<And>a. a \<in> P \<Longrightarrow> b_blockno (bufs k a) \<noteq> lg_start (klog k)" and room: "\<exists>b<NBUF. b \<notin> P"
    and h: "h = encode_head (lg_lh (klog k)) (view k (lg_start (klog k)))"
  shows "\<exists>k'. write_head i k = Inr k' \<and> cache_ok pid {} P k' \<and> fs_frame k k' \<and> klog k' = klog k \<and>
    view k' = (view k)(lg_start (klog k) := h) \<and> disk k' = (disk k)(lg_start (klog k) := h) \<and>
    disk_writes k' = disk_writes k @ [(lg_start (klog k), h)] \<and> (\<forall>a\<in>P. same_buf k k' a)"
proof -
  let ?s = "lg_start (klog k)"
  obtain b k1 where r: "bread i ROOTDEV ?s k = Inr (b, k1)" and p: "bread_post pid {} P ?s k b k1"
    using bread_ok [OF c pid, of ?s] room by auto
  have bP: "b \<notin> P" using np by (rule bp_unpinned [OF p])
  let ?k2 = "upd_buf b (\<lambda>x. x\<lparr>b_data := h\<rparr>) k1"
  have c2: "cache_ok pid {b} P ?k2" and v2: "view ?k2 = (view k)(?s := h)"
    using modify_ok [OF bp_ok [OF p], of b h] bp_block [OF p] bp_view [OF p] by simp_all
  have pid2: "pid = p_pid (procs ?k2 i)" using pid by (simp add: bp_frame [OF p])
  let ?k3 = "?k2\<lparr>disk := (disk ?k2)(?s := h), disk_writes := disk_writes ?k2 @ [(?s, h)]\<rparr>"
  have w: "bwrite i b ?k2 = Inr ?k3" "cache_ok pid {b} P ?k3" "view ?k3 = view ?k2"
    using bwrite_ok [OF c2 _ pid2, of b ?k3] bp_block [OF p] by simp_all
  obtain k4 where k4: "brelse i b ?k3 = Inr k4" "cache_ok pid ({b} - {b}) P k4" "buf_frame ?k3 k4" "view k4 = view ?k3"
    using brelse_ok [OF w(2), of b i] pid2 bp_block [OF p] by auto
  have "upd_buf b (\<lambda>x. x\<lparr>b_data := encode_head (lg_lh (klog k1)) (b_data x)\<rparr>) k1 = ?k2"
    by (simp add: upd_buf_def h bp_block [OF p] bp_frame [OF p])
  then have "write_head i k = Inr k4"
    using r w(1) k4(1) by (simp add: write_head_def dev)
  moreover have "fs_frame k k4" using buf_frameD(1) [OF k4(3)] bread_fs_frame [OF p] by (simp add: fs_frame_def)
  moreover have "same_buf k k4 a" if "a \<in> P" for a
  proof -
    have "a \<noteq> b" using bP that by auto
    then show ?thesis using buf_frameD(5) [OF k4(3), of a] bp_same(2) [OF p that] by (simp add: same_buf_def)
  qed
  ultimately show ?thesis
    using k4(2,4) w(3) v2 buf_frameD [OF k4(3)] by (intro exI [of _ k4]) (simp add: bp_frame [OF p])
qed

subsection \<open>Copying one block\<close>

text \<open>
  From a pinned block to an unpinned one, as \<open>write_log\<close> does.
\<close>

lemma write_one_ok:
  assumes c: "cache_ok pid {} P k" and pid: "pid = p_pid (procs k i)" and dev: "lg_dev (klog k) = ROOTDEV"
    and dst: "dst = lg_start (klog k) + of_nat t + 1" and src: "src = lh_block (lg_lh (klog k)) t"
    and np: "\<And>a. a \<in> P \<Longrightarrow> b_blockno (bufs k a) \<noteq> dst" and room: "\<exists>b<NBUF. b \<notin> P"
    and sp: "s \<in> P" "b_blockno (bufs k s) = src"
  shows "\<exists>k'. write_one i t k = Inr k' \<and> cache_ok pid {} P k' \<and> fs_frame k k' \<and> klog k' = klog k \<and>
    view k' = (view k)(dst := view k src) \<and> disk k' = (disk k)(dst := view k src) \<and>
    disk_writes k' = disk_writes k @ [(dst, view k src)] \<and> (\<forall>a\<in>P. same_buf k k' a)"
proof -
  obtain b k1 where r: "bread i ROOTDEV dst k = Inr (b, k1)" and p: "bread_post pid {} P dst k b k1"
    using bread_ok [OF c pid, of dst] room by auto
  have bP: "b \<notin> P" using np by (rule bp_unpinned [OF p])
  have ne: "src \<noteq> dst" using np [OF sp(1)] sp(2) by simp
  have pid1: "pid = p_pid (procs k1 i)" using pid by (simp add: bp_frame [OF p])
  have s1: "b_blockno (bufs k1 s) = src" "s < NBUF" "b_dev (bufs k1 s) = ROOTDEV"
    using bp_same(2) [OF p sp(1)] sp cache_P [OF c sp(1)] cache_valid [OF c] cache_dev [OF c] by (auto simp: same_buf_def)
  have nh: "\<not> (b_dev (bufs k1 a) = ROOTDEV \<and> b_blockno (bufs k1 a) = src)" if "a \<in> {b}" for a
    using that bp_block [OF p] ne by simp
  have "bufof k1 src \<noteq> None" using s1 by (auto simp: bufof_None)
  then obtain f k2 where r2: "bread i ROOTDEV src k1 = Inr (f, k2)" and p2: "bread_post pid {b} P src k1 f k2"
    using bread_ok [OF bp_ok [OF p] pid1 nh] by blast
  have fP: "f \<in> P"
  proof -
    have "s < NBUF" "b_dev (bufs k2 s) = ROOTDEV" "b_blockno (bufs k2 s) = src"
      using bp_same(2) [OF p2 sp(1)] s1 by (auto simp: same_buf_def)
    then have "s = f" using cache_uniq [OF bp_ok [OF p2], of s f] bp_new [OF p2] bp_block [OF p2] by simp
    then show ?thesis using sp(1) by simp
  qed
  have fb: "f \<noteq> b" using bp_new(1) [OF p2] by simp
  let ?k3 = "upd_buf b (\<lambda>x. x\<lparr>b_data := view k src\<rparr>) k2"
  have bk2: "b_blockno (bufs k2 b) = dst" "b_dev (bufs k2 b) = ROOTDEV"
    using bp_same(1) [OF p2, of b] bp_block [OF p] by (simp_all add: same_buf_def)
  have c3: "cache_ok pid {f, b} P ?k3" and v3: "view ?k3 = (view k)(dst := view k src)"
    using modify_ok [OF bp_ok [OF p2], of b "view k src"] bk2 bp_view [OF p2] bp_view [OF p] by simp_all
  have pid3: "pid = p_pid (procs ?k3 i)" using pid1 by (simp add: bp_frame [OF p2])
  let ?k4 = "?k3\<lparr>disk := (disk ?k3)(dst := view k src), disk_writes := disk_writes ?k3 @ [(dst, view k src)]\<rparr>"
  have w: "bwrite i b ?k3 = Inr ?k4" "cache_ok pid {f, b} P ?k4" "view ?k4 = view ?k3"
    using bwrite_ok [OF c3 _ pid3, of b ?k4] bk2 by simp_all
  obtain k5 where k5: "brelse i f ?k4 = Inr k5" "cache_ok pid ({f, b} - {f}) P k5" "buf_frame ?k4 k5" "view k5 = view ?k4"
    using brelse_ok [OF w(2), of f i] pid3 fP by auto
  have b5: "same_buf ?k4 k5 b" by (rule buf_frameD(5) [OF k5(3)])
  have c5: "cache_ok pid {b} P k5" using k5(2) fb by (simp add: insert_Diff_if)
  have pid5: "pid = p_pid (procs k5 i)" using pid3 fs_frame_pid [OF buf_frameD(1) [OF k5(3)]] by simp
  have cl5: "b_data (bufs k5 b) = disk k5 (b_blockno (bufs k5 b))"
    using b5 bk2 buf_frameD(3) [OF k5(3)] by (simp add: same_buf_def)
  obtain k6 where k6: "brelse i b k5 = Inr k6" "cache_ok pid ({b} - {b}) P k6" "buf_frame k5 k6" "view k6 = view k5"
    using brelse_ok [OF c5 singletonI pid5] cl5 by auto
  have "write_one i t k = Inr k6"
    using r r2 w(1) k5(1) k6(1) bp_block [OF p2] bp_view [OF p]
    by (simp add: write_one_def dev dst [symmetric] bp_frame [OF p] src [symmetric])
  moreover have "fs_frame k k6"
    using buf_frameD(1) [OF k6(3)] buf_frameD(1) [OF k5(3)] bread_fs_frame [OF p] bread_fs_frame [OF p2] by (simp add: fs_frame_def)
  moreover have "same_buf k k6 a" if "a \<in> P" for a
  proof -
    have "a \<noteq> b" using bP that by auto
    then show ?thesis
      using buf_frameD(5) [OF k6(3), of a] buf_frameD(5) [OF k5(3), of a] bp_same(2) [OF p2 that] bp_same(2) [OF p that]
      by (simp add: same_buf_def)
  qed
  ultimately show ?thesis
    using k6(2,4) k5(4) w(3) v3 buf_frameD [OF k6(3)] buf_frameD [OF k5(3)]
    by (intro exI [of _ k6]) (simp add: bp_frame [OF p] bp_frame [OF p2])
qed

text \<open>From an unpinned block to another block, as \<open>install_trans\<close> does.\<close>

lemma install_one_ok:
  assumes c: "cache_ok pid {} P k" and pid: "pid = p_pid (procs k i)" and dev: "lg_dev (klog k) = ROOTDEV"
    and src: "src = lg_start (klog k) + of_nat t + 1" and dst: "dst = lh_block (lg_lh (klog k)) t" and ne: "src \<noteq> dst"
    and np: "\<And>a. a \<in> P \<Longrightarrow> b_blockno (bufs k a) \<noteq> src" and room: "\<exists>b<NBUF. b \<notin> P"
    and Q: "if recovering then P = {} \<and> Q = {} else (\<exists>d\<in>P. b_blockno (bufs k d) = dst \<and> Q = P - {d})"
  shows "\<exists>k'. install_one i recovering t k = Inr k' \<and> cache_ok pid {} Q k' \<and> fs_frame k k' \<and> klog k' = klog k \<and>
    view k' = (view k)(dst := view k src) \<and> disk k' = (disk k)(dst := view k src) \<and>
    disk_writes k' = disk_writes k @ [(dst, view k src)] \<and> (\<forall>a\<in>Q. same_buf k k' a)"
proof -
  obtain l k1 where r: "bread i ROOTDEV src k = Inr (l, k1)" and p: "bread_post pid {} P src k l k1"
    using bread_ok [OF c pid, of src] room by auto
  have lP: "l \<notin> P" using np by (rule bp_unpinned [OF p])
  have pid1: "pid = p_pid (procs k1 i)" using pid by (simp add: bp_frame [OF p])
  have nh: "\<not> (b_dev (bufs k1 a) = ROOTDEV \<and> b_blockno (bufs k1 a) = dst)" if "a \<in> {l}" for a
    using that bp_block [OF p] ne by simp
  have room1: "bufof k1 dst \<noteq> None \<or> (\<exists>b<NBUF. b \<notin> {l} \<union> P)"
  proof (cases recovering)
    case True
    have "(0::nat) < NBUF \<and> (1::nat) < NBUF" by simp
    then show ?thesis using Q True by (cases "l = 0") (auto intro: exI [of _ 0] exI [of _ 1])
  next
    case False
    then obtain d where d: "d \<in> P" "b_blockno (bufs k d) = dst" using Q by auto
    then have "d < NBUF" "b_dev (bufs k1 d) = ROOTDEV" "b_blockno (bufs k1 d) = dst"
      using bp_same(2) [OF p d(1)] cache_P [OF c d(1)] cache_valid [OF c, of d] cache_dev [OF c, of d] by (auto simp: same_buf_def)
    then show ?thesis by (auto simp: bufof_None)
  qed
  then obtain d k2 where r2: "bread i ROOTDEV dst k1 = Inr (d, k2)" and p2: "bread_post pid {l} P dst k1 d k2"
    using bread_ok [OF bp_ok [OF p] pid1 nh] by blast
  have dl: "d \<noteq> l" using bp_new(1) [OF p2] by simp
  let ?k3 = "upd_buf d (\<lambda>x. x\<lparr>b_data := view k src\<rparr>) k2"
  have l2: "b_data (bufs k2 l) = view k src" "b_blockno (bufs k2 l) = src"
    using bp_same(1) [OF p2, of l] bp_block [OF p] by (simp_all add: same_buf_def)
  have c3: "cache_ok pid {d, l} P ?k3" and v3: "view ?k3 = (view k)(dst := view k src)"
    using modify_ok [OF bp_ok [OF p2], of d "view k src"] bp_block [OF p2] bp_view [OF p2] bp_view [OF p] by simp_all
  have pid3: "pid = p_pid (procs ?k3 i)" using pid1 by (simp add: bp_frame [OF p2])
  let ?k4 = "?k3\<lparr>disk := (disk ?k3)(dst := view k src), disk_writes := disk_writes ?k3 @ [(dst, view k src)]\<rparr>"
  have w: "bwrite i d ?k3 = Inr ?k4" "cache_ok pid {d, l} P ?k4" "view ?k4 = view ?k3"
    using bwrite_ok [OF c3 _ pid3, of d ?k4] bp_block [OF p2] by simp_all
  have cl: "b_data (bufs k1 l) = disk k src" using bp_clean [OF p lP] .
  define k5 where "k5 = (if recovering then ?k4 else bunpin d ?k4)"
  have k5: "cache_ok pid {d, l} Q k5" "view k5 = view ?k4" "fs_frame ?k4 k5" "klog k5 = klog ?k4" "disk k5 = disk ?k4"
    "disk_writes k5 = disk_writes ?k4" "\<And>a. same_buf ?k4 k5 a"
  proof -
    have Qd: "Q = P - {d} \<and> d \<in> P" if norec: "\<not> recovering"
    proof -
      obtain a where a: "a \<in> P" "b_blockno (bufs k a) = dst" "Q = P - {a}" using Q norec by auto
      have "a < NBUF" "b_dev (bufs k2 a) = ROOTDEV" "b_blockno (bufs k2 a) = dst"
        using bp_same(2) [OF p2 a(1)] bp_same(2) [OF p a(1)] a(2) cache_P [OF c a(1)] cache_valid [OF c, of a] cache_dev [OF c, of a] a(1)
        by (auto simp: same_buf_def)
      then have "a = d" using cache_uniq [OF bp_ok [OF p2], of a d] bp_new [OF p2] bp_block [OF p2] by simp
      then show ?thesis using a by simp
    qed
    show "cache_ok pid {d, l} Q k5" "view k5 = view ?k4"
      using bunpin_ok [OF w(2), of d] Qd w(2) Q by (cases recovering; simp add: k5_def)+
  qed (simp_all add: k5_def fs_frame_def same_buf_def bunpin_def)
  have pid5: "pid = p_pid (procs k5 i)" using pid3 fs_frame_pid [OF k5(3)] by simp
  have cl5: "l \<in> Q \<or> b_data (bufs k5 l) = disk k5 (b_blockno (bufs k5 l))"
    using k5(5) k5(7) [of l] l2 cl dl ne bp_view [OF p] bp_frame(2) [OF p] bp_frame(2) [OF p2] bp_block [OF p] by (simp add: same_buf_def)
  obtain k6 where k6: "brelse i l k5 = Inr k6" "cache_ok pid ({d, l} - {l}) Q k6" "buf_frame k5 k6" "view k6 = view k5"
    using brelse_ok [OF k5(1) _ pid5 cl5] by auto
  have c6: "cache_ok pid {d} Q k6" using k6(2) dl by (simp add: insert_Diff_if)
  have pid6: "pid = p_pid (procs k6 i)" using pid5 fs_frame_pid [OF buf_frameD(1) [OF k6(3)]] by simp
  have cl6: "d \<in> Q \<or> b_data (bufs k6 d) = disk k6 (b_blockno (bufs k6 d))"
    using buf_frameD(3,5) [OF k6(3)] k5(5) k5(7) [of d] bp_block [OF p2] by (simp add: same_buf_def)
  obtain k7 where k7: "brelse i d k6 = Inr k7" "cache_ok pid ({d} - {d}) Q k7" "buf_frame k6 k7" "view k7 = view k6"
    using brelse_ok [OF c6 singletonI pid6 cl6] by auto
  have "install_one i recovering t k = Inr k7"
    using r r2 w(1) k6(1) k7(1) l2(1) unfolding install_one_def k5_def
    by (cases recovering) (simp_all add: dev src [symmetric] bp_frame [OF p] dst [symmetric])
  moreover have "fs_frame k k7"
    using buf_frameD(1) [OF k7(3)] buf_frameD(1) [OF k6(3)] k5(3) bread_fs_frame [OF p] bread_fs_frame [OF p2] by (simp add: fs_frame_def)
  moreover have "same_buf k k7 a" if a: "a \<in> Q" for a
  proof -
    have aP: "a \<in> P" "a \<noteq> d"
    proof -
      show "a \<in> P" using a Q by (auto split: if_splits)
      show "a \<noteq> d"
      proof
        assume "a = d"
        then have "b_blockno (bufs k a) = dst" "a \<in> P" using bp_same(2) [OF p, of a] bp_same(2) [OF p2, of a] bp_block [OF p2] \<open>a \<in> P\<close>
          by (auto simp: same_buf_def)
        moreover obtain e where "e \<in> P" "b_blockno (bufs k e) = dst" "Q = P - {e}" using Q a by (auto split: if_splits)
        ultimately have "a = e" using cache_uniq [OF c, of a e] cache_P [OF c] cache_valid [OF c] cache_dev [OF c] by simp
        then show False using a \<open>Q = P - {e}\<close> by simp
      qed
    qed
    then show ?thesis
      using buf_frameD(5) [OF k7(3), of a] buf_frameD(5) [OF k6(3), of a] k5(7) [of a] bp_same(2) [OF p2 aP(1)] bp_same(2) [OF p aP(1)]
      by (simp add: same_buf_def)
  qed
  ultimately show ?thesis
    using k7(2,4) k6(4) k5 w(3) v3 buf_frameD [OF k6(3)] buf_frameD [OF k7(3)]
    by (intro exI [of _ k7]) (simp add: bp_frame [OF p] bp_frame [OF p2])
qed

subsection \<open>Sequences of block writes\<close>

definition apply_writes :: "(uint \<times> block) list \<Rightarrow> (uint \<Rightarrow> block) \<Rightarrow> uint \<Rightarrow> block" where
  "apply_writes ws m = fold (\<lambda>(bn, d) m. m(bn := d)) ws m"

lemma apply_writes_Nil [simp]: "apply_writes [] m = m"
  by (simp add: apply_writes_def)

lemma apply_writes_append [simp]: "apply_writes (xs @ ys) m = apply_writes ys (apply_writes xs m)"
  by (simp add: apply_writes_def)

lemma apply_writes_Cons [simp]: "apply_writes ((bn, d) # ws) m = apply_writes ws (m(bn := d))"
  by (simp add: apply_writes_def)

lemma apply_writes_other: "bn \<notin> fst ` set ws \<Longrightarrow> apply_writes ws m bn = m bn"
  by (induction ws rule: rev_induct) auto

lemma apply_writes_map_in:
  "inj_on f {..<n} \<Longrightarrow> t < n \<Longrightarrow> apply_writes (map (\<lambda>t. (f t, g t)) [0..<n]) m (f t) = g t"
proof (induction n)
  case (Suc n)
  then show ?case
    by (cases "t = n") (auto simp: inj_on_def)
qed simp

lemma apply_writes_map_other:
  "(\<And>t. t < n \<Longrightarrow> f t \<noteq> bn) \<Longrightarrow> apply_writes (map (\<lambda>t. (f t, g t)) [0..<n]) m bn = m bn"
  by (induction n) auto

text \<open>
  \<open>wrote W pid P k k'\<close>: between the states, exactly the writes \<open>W\<close> went to the disk and to the
  content of the blocks, and the buffers \<open>P\<close> are now those that are pinned.
\<close>

definition wrote :: "(uint \<times> block) list \<Rightarrow> cint \<Rightarrow> nat set \<Rightarrow> kernel \<Rightarrow> kernel \<Rightarrow> bool" where
  "wrote W pid P k k' \<longleftrightarrow> cache_ok pid {} P k' \<and> fs_frame k k' \<and> klog k' = klog k \<and>
     view k' = apply_writes W (view k) \<and> disk k' = apply_writes W (disk k) \<and>
     disk_writes k' = disk_writes k @ W \<and> (\<forall>a\<in>P. same_buf k k' a)"

lemma wrote_Nil: "cache_ok pid {} P k \<Longrightarrow> wrote [] pid P k k"
  by (simp add: wrote_def same_buf_def)

lemma wrote_trans: "wrote W pid P k k' \<Longrightarrow> wrote W' pid Q k' k'' \<Longrightarrow> Q \<subseteq> P \<Longrightarrow> wrote (W @ W') pid Q k k''"
  by (auto simp: wrote_def elim: fs_frame_trans intro: same_buf_trans)

lemma wroteD:
  assumes "wrote W pid P k k'"
  shows "cache_ok pid {} P k'" "fs_frame k k'" "klog k' = klog k" "view k' = apply_writes W (view k)"
    "disk k' = apply_writes W (disk k)" "disk_writes k' = disk_writes k @ W" "a \<in> P \<Longrightarrow> same_buf k k' a"
  using assms by (simp_all add: wrote_def)

lemma cache_ok_klog [simp]: "cache_ok pid H P (k\<lparr>klog := l\<rparr>) = cache_ok pid H P k"
  by (simp add: cache_ok_def lru_list_def)

lemma view_klog [simp]: "view (k\<lparr>klog := l\<rparr>) = view k"
  by (rule ext) (simp add: view_def bufof_def split: option.split)

subsection \<open>The region of the log\<close>

definition log_block :: "log \<Rightarrow> nat \<Rightarrow> uint" where
  "log_block l t = lg_start l + of_nat t + 1"

text \<open>How many blocks the log may hold: \<open>LOGSIZE\<close>, and one less than its size on the disk.\<close>

definition log_room :: "log \<Rightarrow> nat" where
  "log_room l = min LOGSIZE (nat (lg_size l - 1))"

definition log_region :: "log \<Rightarrow> uint set" where
  "log_region l = insert (lg_start l) (log_block l ` {..<log_room l})"

definition log_count :: "log \<Rightarrow> nat" where
  "log_count l = nat (lh_n (lg_lh l))"

text \<open>
  A log on the root device whose header lists different blocks that fit into it, all outside
  the region of the log itself.
\<close>

definition log_wf :: "log \<Rightarrow> bool" where
  "log_wf l \<longleftrightarrow> lg_dev l = ROOTDEV \<and> 0 \<le> lh_n (lg_lh l) \<and> lh_n (lg_lh l) \<le> int (log_room l) \<and>
     inj_on (lh_block (lg_lh l)) {..<log_count l} \<and> lh_block (lg_lh l) ` {..<log_count l} \<inter> log_region l = {}"

lemma log_wfD:
  assumes "log_wf l"
  shows "lg_dev l = ROOTDEV" "0 \<le> lh_n (lg_lh l)" "lh_n (lg_lh l) \<le> int LOGSIZE" "log_count l \<le> log_room l"
    "inj_on (lh_block (lg_lh l)) {..<log_count l}" "t < log_count l \<Longrightarrow> lh_block (lg_lh l) t \<notin> log_region l"
  using assms by (auto simp: log_wf_def log_count_def log_room_def)

lemma log_room_le: "log_room l \<le> LOGSIZE"
  by (simp add: log_room_def)

lemma log_block_inj: "inj_on (log_block l) {..<LOGSIZE}"
  by (rule inj_onI) (simp add: log_block_def word_of_nat_eq_iff take_bit_nat_eq_self)

lemma log_block_ne_start: "t < LOGSIZE \<Longrightarrow> log_block l t \<noteq> lg_start l"
proof
  assume t: "t < LOGSIZE" and "log_block l t = lg_start l"
  then have "(of_nat (Suc t) :: uint) = 0" by (simp add: log_block_def algebra_simps)
  then have "2 ^ LENGTH(32) dvd Suc t" by (simp only: word_of_nat_eq_0_iff)
  then show False using t by (auto dest: dvd_imp_le)
qed

lemma log_region_mem: "lg_start l \<in> log_region l" "t < log_room l \<Longrightarrow> log_block l t \<in> log_region l"
  by (auto simp: log_region_def)

subsection \<open>The loops over the logged blocks\<close>

lemma write_log_ok:
  assumes c: "cache_ok pid {} P k" and pid: "pid = p_pid (procs k i)" and wf: "log_wf (klog k)"
    and P: "(\<lambda>b. b_blockno (bufs k b)) ` P = lh_block (lg_lh (klog k)) ` {..<log_count (klog k)}"
    and room: "\<exists>b<NBUF. b \<notin> P" and m: "m \<le> log_count (klog k)"
  shows "\<exists>k'. foldR (write_one i) [0..<m] k = Inr k' \<and>
    wrote (map (\<lambda>t. (log_block (klog k) t, view k (lh_block (lg_lh (klog k)) t))) [0..<m]) pid P k k'"
  using m
proof (induction m)
  case 0
  then show ?case using wrote_Nil [OF c] by simp
next
  case (Suc m)
  let ?l = "klog k" and ?home = "lh_block (lg_lh (klog k))"
  let ?W = "\<lambda>m. map (\<lambda>t. (log_block ?l t, view k (?home t))) [0..<m]"
  obtain k1 where k1: "foldR (write_one i) [0..<m] k = Inr k1" "wrote (?W m) pid P k k1" using Suc by auto
  note w = wroteD [OF k1(2)]
  have mL: "m < log_room ?l" using Suc(2) log_wfD(4) [OF wf] by simp
  have home: "?home m \<notin> log_region ?l" using log_wfD(6) [OF wf] Suc(2) by simp
  have blk: "b_blockno (bufs k1 a) = b_blockno (bufs k a)" if "a \<in> P" for a using w(7) [OF that] by (simp add: same_buf_def)
  have np: "b_blockno (bufs k1 a) \<noteq> log_block ?l m" if "a \<in> P" for a
  proof -
    have "b_blockno (bufs k a) \<in> ?home ` {..<log_count ?l}" using P that by blast
    then show ?thesis using log_wfD(6) [OF wf] log_region_mem(2) [OF mL] blk [OF that] by auto
  qed
  obtain s where s: "s \<in> P" "b_blockno (bufs k s) = ?home m"
  proof -
    have "?home m \<in> (\<lambda>b. b_blockno (bufs k b)) ` P" using P Suc(2) by simp
    then show ?thesis using that by auto
  qed
  have v: "view k1 (?home m) = view k (?home m)"
    unfolding w(4)
  proof (rule apply_writes_map_other)
    show "log_block ?l t \<noteq> ?home m" if "t < m" for t using home log_region_mem(2) [of t ?l] that mL by auto
  qed
  have pid1: "pid = p_pid (procs k1 i)" using pid fs_frame_pid [OF w(2)] by simp
  have dev1: "lg_dev (klog k1) = ROOTDEV" using log_wfD(1) [OF wf] w(3) by simp
  have d: "log_block ?l m = lg_start (klog k1) + of_nat m + 1" "?home m = lh_block (lg_lh (klog k1)) m"
    by (simp_all add: w(3) log_block_def)
  obtain k2 where k2: "write_one i m k1 = Inr k2" "wrote [(log_block ?l m, view k (?home m))] pid P k1 k2"
    using write_one_ok [OF w(1) pid1 dev1 d np room s(1)] s blk v by (auto simp: wrote_def)
  then show ?case using k1 wrote_trans [OF k1(2) k2(2) subset_refl] by (auto simp: foldR_append)
qed

text \<open>The buffers that stay pinned when the first \<open>m\<close> blocks have been installed.\<close>

definition still_pinned :: "kernel \<Rightarrow> nat set \<Rightarrow> nat \<Rightarrow> nat set" where
  "still_pinned k P m = {a \<in> P. b_blockno (bufs k a) \<notin> lh_block (lg_lh (klog k)) ` {..<m}}"

lemma still_pinned_0 [simp]: "still_pinned k P 0 = P"
  by (simp add: still_pinned_def)

lemma still_pinned_empty [simp]: "still_pinned k {} m = {}"
  by (simp add: still_pinned_def)

lemma still_pinned_Suc:
  assumes "cache_ok pid {} P k" and "log_wf (klog k)" and "m < log_count (klog k)" and "d \<in> P"
    and "b_blockno (bufs k d) = lh_block (lg_lh (klog k)) m"
  shows "d \<in> still_pinned k P m" "still_pinned k P (Suc m) = still_pinned k P m - {d}"
proof -
  have uniq: "a = d" if "a \<in> P" "b_blockno (bufs k a) = lh_block (lg_lh (klog k)) m" for a
    using cache_uniq [OF assms(1), of a d] cache_P [OF assms(1)] cache_valid [OF assms(1)] cache_dev [OF assms(1)] that assms(4,5)
    by simp
  have "lh_block (lg_lh (klog k)) m \<notin> lh_block (lg_lh (klog k)) ` {..<m}"
  proof
    assume "lh_block (lg_lh (klog k)) m \<in> lh_block (lg_lh (klog k)) ` {..<m}"
    then obtain t where "t < m" "lh_block (lg_lh (klog k)) m = lh_block (lg_lh (klog k)) t" by auto
    then show False using inj_onD [OF log_wfD(5) [OF assms(2)], of m t] assms(3) by simp
  qed
  then show "d \<in> still_pinned k P m" using assms(4,5) by (simp add: still_pinned_def)
  have "still_pinned k P (Suc m) = {a \<in> still_pinned k P m. b_blockno (bufs k a) \<noteq> lh_block (lg_lh (klog k)) m}"
    by (simp add: still_pinned_def lessThan_Suc) blast
  moreover have "b_blockno (bufs k a) \<noteq> lh_block (lg_lh (klog k)) m \<longleftrightarrow> a \<noteq> d" if "a \<in> still_pinned k P m" for a
    using that uniq [of a] assms(5) by (auto simp: still_pinned_def)
  ultimately show "still_pinned k P (Suc m) = still_pinned k P m - {d}" by blast
qed

lemma install_trans_ok:
  assumes c: "cache_ok pid {} P k" and pid: "pid = p_pid (procs k i)" and wf: "log_wf (klog k)"
    and P: "if recovering then P = {} else (\<lambda>b. b_blockno (bufs k b)) ` P = lh_block (lg_lh (klog k)) ` {..<log_count (klog k)}"
    and room: "\<exists>b<NBUF. b \<notin> P" and m: "m \<le> log_count (klog k)"
  shows "\<exists>k'. foldR (install_one i recovering) [0..<m] k = Inr k' \<and>
    wrote (map (\<lambda>t. (lh_block (lg_lh (klog k)) t, view k (log_block (klog k) t))) [0..<m]) pid (still_pinned k P m) k k'"
  using m
proof (induction m)
  case 0
  then show ?case using wrote_Nil [OF c] by simp
next
  case (Suc m)
  let ?l = "klog k" and ?home = "lh_block (lg_lh (klog k))" and ?Q = "still_pinned k P"
  let ?W = "\<lambda>m. map (\<lambda>t. (?home t, view k (log_block ?l t))) [0..<m]"
  obtain k1 where k1: "foldR (install_one i recovering) [0..<m] k = Inr k1" "wrote (?W m) pid (?Q m) k k1" using Suc by auto
  note w = wroteD [OF k1(2)]
  have mL: "m < log_room ?l" and mn: "m < log_count ?l" using Suc(2) log_wfD(4) [OF wf] by simp_all
  have reg: "log_block ?l m \<in> log_region ?l" by (rule log_region_mem(2) [OF mL])
  have home: "?home t \<noteq> log_block ?l m" if "t < log_count ?l" for t using log_wfD(6) [OF wf that] reg by auto
  have blk: "b_blockno (bufs k1 a) = b_blockno (bufs k a)" if "a \<in> ?Q m" for a using w(7) [OF that] by (simp add: same_buf_def)
  have np: "b_blockno (bufs k1 a) \<noteq> log_block ?l m" if "a \<in> ?Q m" for a
  proof (cases recovering)
    case False
    have "b_blockno (bufs k a) \<in> ?home ` {..<log_count ?l}" using P that False by (auto simp: still_pinned_def)
    then obtain t where "t < log_count ?l" "b_blockno (bufs k a) = ?home t" by auto
    then show ?thesis using home [of t] blk [OF that] by simp
  qed (use that P in simp)
  have v: "view k1 (log_block ?l m) = view k (log_block ?l m)"
    unfolding w(4) by (rule apply_writes_map_other, rule home) (use mn in simp)
  have Q: "if recovering then ?Q m = {} \<and> ?Q (Suc m) = {}
    else (\<exists>d\<in>?Q m. b_blockno (bufs k1 d) = ?home m \<and> ?Q (Suc m) = ?Q m - {d})"
  proof (cases recovering)
    case False
    then have "?home m \<in> (\<lambda>b. b_blockno (bufs k b)) ` P" using P mn by simp
    then obtain d where d: "d \<in> P" "b_blockno (bufs k d) = ?home m" by auto
    show ?thesis using still_pinned_Suc [OF c wf mn d] blk d(2) False by auto
  qed (use P in simp)
  have pid1: "pid = p_pid (procs k1 i)" using pid fs_frame_pid [OF w(2)] by simp
  have dev1: "lg_dev (klog k1) = ROOTDEV" using log_wfD(1) [OF wf] w(3) by simp
  have d: "log_block ?l m = lg_start (klog k1) + of_nat m + 1" "?home m = lh_block (lg_lh (klog k1)) m"
    by (simp_all add: w(3) log_block_def)
  have room1: "\<exists>b<NBUF. b \<notin> ?Q m" using room by (auto simp: still_pinned_def)
  obtain k2 where k2: "install_one i recovering m k1 = Inr k2" "wrote [(?home m, view k (log_block ?l m))] pid (?Q (Suc m)) k1 k2"
    using install_one_ok [OF w(1) pid1 dev1 d home [OF mn, symmetric] np room1 Q] v by (auto simp: wrote_def)
  have "?Q (Suc m) \<subseteq> ?Q m" by (auto simp: still_pinned_def)
  then show ?case using k1 wrote_trans [OF k1(2) k2(2)] k2(1) by (auto simp: foldR_append)
qed

subsection \<open>Commit and recovery\<close>

text \<open>The header block, with the count of a logged transaction and with a count of 0.\<close>

definition head_block :: "kernel \<Rightarrow> block" where
  "head_block k = encode_head (lg_lh (klog k)) (view k (lg_start (klog k)))"

definition cleared_head :: "kernel \<Rightarrow> block \<Rightarrow> block" where
  "cleared_head k d = encode_head ((lg_lh (klog k))\<lparr>lh_n := 0\<rparr>) d"

text \<open>The writes that \<open>commit\<close> sends to the disk, in this order.\<close>

definition commit_writes :: "kernel \<Rightarrow> (uint \<times> block) list" where
  "commit_writes k =
     (let l = klog k; home = lh_block (lg_lh l); n = log_count l
      in map (\<lambda>t. (log_block l t, view k (home t))) [0..<n] @ [(lg_start l, head_block k)] @
         map (\<lambda>t. (home t, view k (home t))) [0..<n] @ [(lg_start l, cleared_head k (head_block k))])"

text \<open>A transaction that \<open>end_op\<close> may commit: the pinned buffers are those of the logged blocks.\<close>

definition commit_ready :: "cint \<Rightarrow> nat set \<Rightarrow> kernel \<Rightarrow> bool" where
  "commit_ready pid P k \<longleftrightarrow> cache_ok pid {} P k \<and> log_wf (klog k) \<and> 0 < lh_n (lg_lh (klog k)) \<and>
     (\<lambda>b. b_blockno (bufs k b)) ` P = lh_block (lg_lh (klog k)) ` {..<log_count (klog k)} \<and> (\<exists>b<NBUF. b \<notin> P)"

lemma commit_readyD:
  assumes "commit_ready pid P k"
  shows "cache_ok pid {} P k" "log_wf (klog k)" "0 < lh_n (lg_lh (klog k))"
    "(\<lambda>b. b_blockno (bufs k b)) ` P = lh_block (lg_lh (klog k)) ` {..<log_count (klog k)}" "\<exists>b<NBUF. b \<notin> P"
  using assms by (simp_all add: commit_ready_def)

lemma clear_log_simps [simp]:
  "klog (clear_log k) = (klog k)\<lparr>lg_lh := (lg_lh (klog k))\<lparr>lh_n := 0\<rparr>\<rparr>" "cache_ok pid H P (clear_log k) = cache_ok pid H P k"
  "view (clear_log k) = view k" "disk (clear_log k) = disk k" "disk_writes (clear_log k) = disk_writes k"
  "procs (clear_log k) = procs k" "fs_frame k' (clear_log k) = fs_frame k' k" "fs_frame (clear_log k) k' = fs_frame k k'"
  by (simp_all add: clear_log_def set_lh_def fs_frame_def)

lemma view_home_or_disk:
  assumes "cache_ok pid {} P k" and "bn \<notin> (\<lambda>b. b_blockno (bufs k b)) ` P"
  shows "view k bn = disk k bn"
proof (rule view_clean [OF assms(1)])
  show "\<not> (b_dev (bufs k b) = ROOTDEV \<and> b_blockno (bufs k b) = bn)" if "b \<in> {} \<union> P" for b using assms(2) that by blast
qed

lemma commit_ok:
  assumes r: "commit_ready pid P k" and pid: "pid = p_pid (procs k i)"
  shows "\<exists>k'. commit i k = Inr k' \<and> cache_ok pid {} {} k' \<and> fs_frame k k' \<and>
    klog k' = (klog k)\<lparr>lg_lh := (lg_lh (klog k))\<lparr>lh_n := 0\<rparr>\<rparr> \<and> disk k' = apply_writes (commit_writes k) (disk k) \<and>
    disk_writes k' = disk_writes k @ commit_writes k"
proof -
  let ?l = "klog k" and ?home = "lh_block (lg_lh (klog k))" and ?n = "log_count (klog k)" and ?s = "lg_start (klog k)"
  note c = commit_readyD(1) [OF r] and wf = commit_readyD(2) [OF r] and P = commit_readyD(4) [OF r] and room = commit_readyD(5) [OF r]
  let ?W1 = "map (\<lambda>t. (log_block ?l t, view k (?home t))) [0..<?n]" and ?W2 = "map (\<lambda>t. (?home t, view k (?home t))) [0..<?n]"
  obtain k1 where k1: "write_log i k = Inr k1" "wrote ?W1 pid P k k1"
    using write_log_ok [OF c pid wf P room order_refl] by (auto simp: write_log_def log_count_def)
  note w1 = wroteD [OF k1(2)]
  have nP: "b_blockno (bufs k a) \<notin> log_region ?l" if "a \<in> P" for a
  proof -
    have "b_blockno (bufs k a) \<in> ?home ` {..<?n}" using P that by blast
    then show ?thesis using log_wfD(6) [OF wf] by auto
  qed
  have np1: "b_blockno (bufs k1 a) \<noteq> lg_start (klog k1)" if "a \<in> P" for a
    using w1(7) [OF that] nP [OF that] log_region_mem(1) [of ?l] by (auto simp: same_buf_def w1(3))
  have v1: "view k1 ?s = view k ?s"
    unfolding w1(4) by (rule apply_writes_map_other, rule log_block_ne_start) (use log_wfD(4) [OF wf] log_room_le [of ?l] in simp)
  have h1: "head_block k = encode_head (lg_lh (klog k1)) (view k1 (lg_start (klog k1)))" by (simp add: head_block_def w1(3) v1)
  have pid1: "pid = p_pid (procs k1 i)" using pid fs_frame_pid [OF w1(2)] by simp
  obtain k2 where k2: "write_head i k1 = Inr k2" "wrote [(?s, head_block k)] pid P k1 k2"
    using write_head_ok [OF w1(1) pid1 _ np1 room h1] log_wfD(1) [OF wf] w1(3) by (auto simp: wrote_def)
  note k12 = wrote_trans [OF k1(2) k2(2) subset_refl]
  note w2 = wroteD [OF k12]
  have blk2: "(\<lambda>b. b_blockno (bufs k2 b)) ` P = ?home ` {..<?n}"
    unfolding P [symmetric] using w2(7) by (intro image_cong) (simp_all add: same_buf_def)
  have logged: "view k2 (log_block ?l t) = view k (?home t)" if "t < ?n" for t
  proof -
    have "inj_on (log_block ?l) {..<?n}" using log_wfD(4) [OF wf] log_room_le [of ?l] by (intro inj_on_subset [OF log_block_inj]) auto
    from apply_writes_map_in [OF this that] show ?thesis
      using log_block_ne_start [of t ?l] log_wfD(4) [OF wf] log_room_le [of ?l] that unfolding w2(4) by simp
  qed
  have W2: "map (\<lambda>t. (?home t, view k2 (log_block ?l t))) [0..<?n] = ?W2" using logged by simp
  have pid2: "pid = p_pid (procs k2 i)" using pid fs_frame_pid [OF w2(2)] by simp
  have "still_pinned k2 P ?n = {}" using blk2 by (auto simp: still_pinned_def w2(3))
  then obtain k3 where k3: "install_trans i False k2 = Inr k3" "wrote ?W2 pid {} k2 k3"
    using install_trans_ok [OF w2(1) pid2, of False ?n] wf blk2 room unfolding install_trans_def w2(3) W2 log_count_def [symmetric] by auto
  note k123 = wrote_trans [OF k12 k3(2) empty_subsetI]
  note w3 = wroteD [OF k123]
  have v3: "view k3 ?s = head_block k"
  proof -
    have "view k3 ?s = view k2 ?s"
      unfolding wroteD(4) [OF k3(2)]
    proof (rule apply_writes_map_other)
      show "?home t \<noteq> ?s" if "t < ?n" for t using log_wfD(6) [OF wf that] log_region_mem(1) [of ?l] by auto
    qed
    then show ?thesis unfolding w2(4) by simp
  qed
  obtain k4 where k4: "write_head i (clear_log k3) = Inr k4" "cache_ok pid {} {} k4" "fs_frame k3 k4"
    "klog k4 = klog (clear_log k3)" "disk k4 = (disk k3)(?s := cleared_head k (head_block k))"
    "disk_writes k4 = disk_writes k3 @ [(?s, cleared_head k (head_block k))]"
  proof -
    have "cache_ok pid {} {} (clear_log k3)" "pid = p_pid (procs (clear_log k3) i)" "lg_dev (klog (clear_log k3)) = ROOTDEV"
      "cleared_head k (head_block k) = encode_head (lg_lh (klog (clear_log k3))) (view (clear_log k3) (lg_start (klog (clear_log k3))))"
      "\<exists>b<NBUF. b \<notin> {}" "\<And>a. a \<in> {} \<Longrightarrow> b_blockno (bufs (clear_log k3) a) \<noteq> lg_start (klog (clear_log k3))"
      using w3(1,3) log_wfD(1) [OF wf] pid fs_frame_pid [OF w3(2)] v3 by (simp_all add: cleared_head_def exI [of _ "0 :: nat"])
    from write_head_ok [OF this(1-3,6,5,4)] obtain k4 where "write_head i (clear_log k3) = Inr k4" "cache_ok pid {} {} k4"
      "fs_frame (clear_log k3) k4" "klog k4 = klog (clear_log k3)"
      "disk k4 = (disk (clear_log k3))(lg_start (klog (clear_log k3)) := cleared_head k (head_block k))"
      "disk_writes k4 = disk_writes (clear_log k3) @ [(lg_start (klog (clear_log k3)), cleared_head k (head_block k))]"
      by blast
    then show thesis using w3(3) by (intro that [of k4]) simp_all
  qed
  have "commit i k = Inr k4"
    using k1(1) k2(1) k3(1) k4(1) commit_readyD(3) [OF r] by (simp add: commit_def)
  then show ?thesis
    using k4 w3(3,5,6) fs_frame_trans [OF w3(2) k4(3)] by (intro exI [of _ k4]) (simp add: commit_writes_def Let_def)
qed

lemma view_disk: "cache_ok pid {} {} k \<Longrightarrow> view k = disk k"
  by (rule ext, rule view_home_or_disk) auto

lemma some_buffer: "\<exists>b<NBUF. b \<notin> ({} :: nat set)"
  by (rule exI [of _ 0]) simp

lemma read_head_ok:
  assumes c: "cache_ok pid {} {} k" and pid: "pid = p_pid (procs k i)" and dev: "lg_dev (klog k) = ROOTDEV"
    and n: "lh_n (decode_head (disk k (lg_start (klog k))) (lg_lh (klog k))) \<le> int LOGSIZE"
  shows "\<exists>k'. read_head i k = Inr k' \<and> cache_ok pid {} {} k' \<and> fs_frame k k' \<and>
    klog k' = (klog k)\<lparr>lg_lh := decode_head (disk k (lg_start (klog k))) (lg_lh (klog k))\<rparr> \<and>
    disk k' = disk k \<and> disk_writes k' = disk_writes k"
proof -
  let ?s = "lg_start (klog k)"
  obtain b k1 where r: "bread i ROOTDEV ?s k = Inr (b, k1)" and p: "bread_post pid {} {} ?s k b k1"
    using bread_ok [OF c pid, of ?s] some_buffer by auto
  let ?k2 = "set_lh (decode_head (b_data (bufs k1 b)) (lg_lh (klog k1))) k1"
  have d: "b_data (bufs k1 b) = disk k ?s" by (rule bp_clean [OF p]) simp
  have c2: "cache_ok pid {b} {} ?k2" using bp_ok [OF p] by (simp add: set_lh_def)
  have pid2: "pid = p_pid (procs ?k2 i)" using pid by (simp add: bp_frame [OF p] set_lh_def)
  have cl: "b \<in> {} \<or> b_data (bufs ?k2 b) = disk ?k2 (b_blockno (bufs ?k2 b))"
    by (simp add: set_lh_def d bp_block [OF p] bp_frame [OF p])
  obtain k3 where k3: "brelse i b ?k2 = Inr k3" "cache_ok pid ({b} - {b}) {} k3" "buf_frame ?k2 k3"
    using brelse_ok [OF c2 singletonI pid2 cl] by auto
  have "read_head i k = Inr k3" using r k3(1) n by (simp add: read_head_def dev Let_def d bp_frame [OF p])
  moreover have "fs_frame k k3" using buf_frameD(1) [OF k3(3)] bread_fs_frame [OF p] by (simp add: fs_frame_def set_lh_def)
  ultimately show ?thesis
    using k3(2) buf_frameD(2-4) [OF k3(3)] by (intro exI [of _ k3]) (simp add: set_lh_def d bp_frame [OF p])
qed

lemma lh_n_cleared: "lh_n (decode_head (encode_head (lh\<lparr>lh_n := 0\<rparr>) d) lh0) = 0"
  using decode_encode_head(1) [of "lh\<lparr>lh_n := 0\<rparr>"] by simp

lemma recover_ok:
  assumes c: "cache_ok pid {} {} k" and pid: "pid = p_pid (procs k i)"
    and l: "l = (klog k)\<lparr>lg_lh := decode_head (disk k (lg_start (klog k))) (lg_lh (klog k))\<rparr>" and wf: "log_wf l"
  shows "\<exists>k' d. recover_from_log i k = Inr k' \<and> cache_ok pid {} {} k' \<and> fs_frame k k' \<and> lh_n (lg_lh (klog k')) = 0 \<and>
    disk k' = (apply_writes (map (\<lambda>t. (lh_block (lg_lh l) t, disk k (log_block l t))) [0..<log_count l]) (disk k))
      (lg_start l := encode_head ((lg_lh l)\<lparr>lh_n := 0\<rparr>) d)"
proof -
  let ?W = "map (\<lambda>t. (lh_block (lg_lh l) t, disk k (log_block l t))) [0..<log_count l]"
  have dev: "lg_dev (klog k) = ROOTDEV" using log_wfD(1) [OF wf] l by simp
  obtain k1 where k1: "read_head i k = Inr k1" "cache_ok pid {} {} k1" "fs_frame k k1" "klog k1 = l" "disk k1 = disk k"
    using read_head_ok [OF c pid dev] log_wfD(3) [OF wf] unfolding l by auto
  have pid1: "pid = p_pid (procs k1 i)" using pid fs_frame_pid [OF k1(3)] by simp
  obtain k2 where k2: "install_trans i True k1 = Inr k2" "wrote ?W pid {} k1 k2"
    using install_trans_ok [OF k1(2) pid1, of True "log_count l"] wf k1(4,5) view_disk [OF k1(2)] some_buffer
    by (auto simp: install_trans_def log_count_def)
  note w = wroteD [OF k2(2)]
  define h where "h = encode_head (lg_lh (klog (clear_log k2))) (view (clear_log k2) (lg_start (klog (clear_log k2))))"
  have "cache_ok pid {} {} (clear_log k2)" "pid = p_pid (procs (clear_log k2) i)" "lg_dev (klog (clear_log k2)) = ROOTDEV"
      "\<And>a. a \<in> {} \<Longrightarrow> b_blockno (bufs (clear_log k2) a) \<noteq> lg_start (klog (clear_log k2))" "\<exists>b<NBUF. b \<notin> ({} :: nat set)"
    using w(1,3) log_wfD(1) [OF wf] k1(4) pid1 fs_frame_pid [OF w(2)] by (simp_all add: exI [of _ "0 :: nat"])
  from write_head_ok [OF this h_def] obtain k3 where k3: "write_head i (clear_log k2) = Inr k3" "cache_ok pid {} {} k3"
      "fs_frame (clear_log k2) k3" "klog k3 = klog (clear_log k2)" "disk k3 = (disk (clear_log k2))(lg_start (klog (clear_log k2)) := h)"
    by blast
  have "recover_from_log i k = Inr k3" using k1(1) k2(1) k3(1) by (simp add: recover_from_log_def)
  moreover have "fs_frame k k3" using k3(3) fs_frame_trans [OF k1(3) fs_frame_trans [OF w(2)], of k3] by simp
  ultimately show ?thesis
    using k3 w(3,5) k1(4,5) by (intro exI [of _ k3] exI [of _ "view k2 (lg_start l)"]) (simp add: h_def)
qed

subsection \<open>Crashes during a commit\<close>

text \<open>The state of a reboot on a given disk: a fresh cache and the superblock, nothing of the old memory.\<close>

definition rebooted :: "(uint \<Rightarrow> block) \<Rightarrow> log \<Rightarrow> kernel \<Rightarrow> bool" where
  "rebooted d l K \<longleftrightarrow> (\<forall>i. cache_ok (p_pid (procs K i)) {} {} K) \<and> disk K = d \<and> sb_logstart (sb K) = lg_start l \<and>
     sint (sb_nlog (sb K)) = lg_size l"

definition disk_head :: "(uint \<Rightarrow> block) \<Rightarrow> log \<Rightarrow> logheader" where
  "disk_head d l = decode_head (d (lg_start l)) (lg_lh l)"

lemma lh_n_decode: "lh_n (decode_head d lh) = lh_n (decode_head d lh')"
  by (simp add: decode_head_def Let_def)

lemma lh_block_decode: "int t < lh_n (decode_head d lh) \<Longrightarrow> lh_block (decode_head d lh) t = lh_block (decode_head d lh') t"
  by (simp add: decode_head_def Let_def)

lemma initlog_ok:
  assumes rb: "rebooted d l K" and wf: "log_wf (l\<lparr>lg_lh := disk_head d l\<rparr>)"
  shows "\<exists>K'. initlog j ROOTDEV K = Inr K' \<and> cache_ok (p_pid (procs K' j)) {} {} K' \<and> lh_n (disk_head (disk K') l) = 0 \<and>
    (\<forall>bn. bn \<noteq> lg_start l \<longrightarrow> disk K' bn = apply_writes (map (\<lambda>t. (lh_block (disk_head d l) t, d (log_block l t)))
       [0..<nat (lh_n (disk_head d l))]) d bn)"
proof -
  let ?K = "K\<lparr>klog := (klog K)\<lparr>lg_start := sb_logstart (sb K), lg_size := sint (sb_nlog (sb K)), lg_dev := ROOTDEV\<rparr>\<rparr>"
  have K: "cache_ok (p_pid (procs K j)) {} {} K" "disk K = d" "sb_logstart (sb K) = lg_start l"
    "sint (sb_nlog (sb K)) = lg_size l" using rb by (simp_all add: rebooted_def)
  define l1 where "l1 = (klog ?K)\<lparr>lg_lh := decode_head (disk ?K (lg_start (klog ?K))) (lg_lh (klog ?K))\<rparr>"
  have n: "lh_n (lg_lh l1) = lh_n (disk_head d l)" "log_count l1 = nat (lh_n (disk_head d l))"
    using K(2,3) lh_n_decode [of "d (lg_start l)" "lg_lh (klog K)" "lg_lh l"] by (simp_all add: l1_def disk_head_def log_count_def)
  have b: "lh_block (lg_lh l1) t = lh_block (disk_head d l) t" if "t < nat (lh_n (disk_head d l))" for t
    using K(2,3) lh_block_decode [of t "d (lg_start l)" "lg_lh l" "lg_lh (klog K)"] that by (simp add: l1_def disk_head_def)
  have lb: "log_block l1 = log_block l" "lg_start l1 = lg_start l" "lg_dev l1 = ROOTDEV" "lg_size l1 = lg_size l"
    using K(3,4) by (simp_all add: l1_def log_block_def fun_eq_iff)
  have bb: "lh_block (lg_lh l1) ` {..<log_count l1} = lh_block (disk_head d l) ` {..<nat (lh_n (disk_head d l))}"
    unfolding n(2) using b by (intro image_cong) simp_all
  have inj: "inj_on (lh_block (lg_lh l1)) {..<log_count l1} = inj_on (lh_block (disk_head d l)) {..<nat (lh_n (disk_head d l))}"
    unfolding n(2) using b by (intro inj_on_cong) simp
  have lbl: "log_block (l\<lparr>lg_lh := h\<rparr>) = log_block l" for h by (simp add: log_block_def fun_eq_iff)
  have wf1: "log_wf l1"
    using wf inj bb n lb by (simp add: log_wf_def log_count_def log_region_def log_room_def lbl)
  have c: "cache_ok (p_pid (procs ?K j)) {} {} ?K" using K(1) by simp
  obtain K' e where K': "recover_from_log j ?K = Inr K'" "cache_ok (p_pid (procs ?K j)) {} {} K'" "fs_frame ?K K'"
    "disk K' = (apply_writes (map (\<lambda>t. (lh_block (lg_lh l1) t, disk ?K (log_block l1 t))) [0..<log_count l1]) (disk ?K))
      (lg_start l1 := encode_head ((lg_lh l1)\<lparr>lh_n := 0\<rparr>) e)"
    using recover_ok [OF c refl l1_def wf1] by blast
  have W: "map (\<lambda>t. (lh_block (lg_lh l1) t, disk ?K (log_block l1 t))) [0..<log_count l1] =
      map (\<lambda>t. (lh_block (disk_head d l) t, d (log_block l t))) [0..<nat (lh_n (disk_head d l))]"
    unfolding n(2) using b lb K(2) by simp
  have "initlog j ROOTDEV K = Inr K'" using K'(1) by (simp add: initlog_def)
  moreover have "cache_ok (p_pid (procs K' j)) {} {} K'" using K'(2) fs_frame_pid [OF K'(3)] by simp
  moreover have "lh_n (disk_head (disk K') l) = 0" by (simp add: disk_head_def K'(4) lb lh_n_cleared)
  moreover have "disk K' bn = apply_writes (map (\<lambda>t. (lh_block (disk_head d l) t, d (log_block l t)))
       [0..<nat (lh_n (disk_head d l))]) d bn" if "bn \<noteq> lg_start l" for bn
    unfolding K'(4) W using that lb K(2) by simp
  ultimately show ?thesis by blast
qed

text \<open>The three shapes of the disk when a commit is cut off after \<open>m\<close> of its writes.\<close>

lemma log_regionD:
  assumes "bn \<notin> log_region l"
  shows "bn \<noteq> lg_start l" "t < log_room l \<Longrightarrow> log_block l t \<noteq> bn"
  using assms by (auto simp: log_region_def)

lemma commit_writes_take:
  fixes k :: kernel
  defines "l \<equiv> klog k" and "home \<equiv> lh_block (lg_lh (klog k))" and "n \<equiv> log_count (klog k)"
  defines "W \<equiv> map (\<lambda>t. (log_block l t, view k (home t)))" and "V \<equiv> map (\<lambda>t. (home t, view k (home t)))"
  shows "m \<le> n \<Longrightarrow> take m (commit_writes k) = W [0..<m]"
    "j \<le> n \<Longrightarrow> take (Suc (n + j)) (commit_writes k) = W [0..<n] @ [(lg_start l, head_block k)] @ V [0..<j]"
    "Suc (n + n) < m \<Longrightarrow> take m (commit_writes k) = commit_writes k"
    "commit_writes k = W [0..<n] @ [(lg_start l, head_block k)] @ V [0..<n] @ [(lg_start l, cleared_head k (head_block k))]"
proof -
  show w: "commit_writes k = W [0..<n] @ [(lg_start l, head_block k)] @ V [0..<n] @ [(lg_start l, cleared_head k (head_block k))]"
    by (simp add: commit_writes_def Let_def l_def home_def n_def W_def V_def)
  have len: "length (W xs) = length xs" "length (V xs) = length xs" for xs by (simp_all add: W_def V_def)
  have tk: "take m (W [0..<n]) = W [0..<m]" "take m (V [0..<n]) = V [0..<m]" if "m \<le> n" for m
    using that by (simp_all add: W_def V_def take_map)
  show "m \<le> n \<Longrightarrow> take m (commit_writes k) = W [0..<m]" unfolding w by (simp add: len tk)
  show "j \<le> n \<Longrightarrow> take (Suc (n + j)) (commit_writes k) = W [0..<n] @ [(lg_start l, head_block k)] @ V [0..<j]"
    unfolding w by (simp add: len tk Suc_diff_le)
  show "Suc (n + n) < m \<Longrightarrow> take m (commit_writes k) = commit_writes k" unfolding w by (simp add: len)
qed

lemma commit_homes:
  assumes "commit_ready pid P k"
  shows "apply_writes (map (\<lambda>t. (lh_block (lg_lh (klog k)) t, view k (lh_block (lg_lh (klog k)) t))) [0..<log_count (klog k)])
    d bn = (if bn \<in> lh_block (lg_lh (klog k)) ` {..<log_count (klog k)} then view k bn else d bn)"
    "bn \<notin> lh_block (lg_lh (klog k)) ` {..<log_count (klog k)} \<Longrightarrow> view k bn = disk k bn"
proof -
  let ?home = "lh_block (lg_lh (klog k))" and ?n = "log_count (klog k)"
  note wf = commit_readyD(2) [OF assms]
  show "apply_writes (map (\<lambda>t. (?home t, view k (?home t))) [0..<?n]) d bn = (if bn \<in> ?home ` {..<?n} then view k bn else d bn)"
  proof (cases "bn \<in> ?home ` {..<?n}")
    case True
    then obtain t where "t < ?n" "bn = ?home t" by auto
    then show ?thesis using apply_writes_map_in [OF log_wfD(5) [OF wf], of t "\<lambda>t. view k (?home t)"] by auto
  next
    case False
    then have "apply_writes (map (\<lambda>t. (?home t, view k (?home t))) [0..<?n]) d bn = d bn" by (intro apply_writes_map_other) auto
    then show ?thesis using False by simp
  qed
  show "bn \<notin> ?home ` {..<?n} \<Longrightarrow> view k bn = disk k bn"
    using view_home_or_disk [OF commit_readyD(1) [OF assms]] commit_readyD(4) [OF assms] by simp
qed

lemma cut_before_head:
  assumes "commit_ready pid P k" and "m \<le> log_count (klog k)" and "\<And>t. t < log_room (klog k) \<Longrightarrow> log_block (klog k) t \<noteq> bn"
  shows "apply_writes (take m (commit_writes k)) (disk k) bn = disk k bn"
proof -
  have "m \<le> log_room (klog k)" using log_wfD(4) [OF commit_readyD(2) [OF assms(1)]] assms(2) by simp
  then show ?thesis unfolding commit_writes_take(1) [OF assms(2)] using assms(3) by (intro apply_writes_map_other) simp
qed

lemma cut_after_head:
  assumes r: "commit_ready pid P k" and j: "j \<le> log_count (klog k)"
  defines "D \<equiv> apply_writes (take (Suc (log_count (klog k) + j)) (commit_writes k)) (disk k)"
  shows "D (lg_start (klog k)) = head_block k"
    "t < log_count (klog k) \<Longrightarrow> D (log_block (klog k) t) = view k (lh_block (lg_lh (klog k)) t)"
    "bn \<notin> log_region (klog k) \<Longrightarrow> bn \<notin> lh_block (lg_lh (klog k)) ` {..<log_count (klog k)} \<Longrightarrow> D bn = disk k bn"
proof -
  let ?l = "klog k" and ?home = "lh_block (lg_lh (klog k))" and ?n = "log_count (klog k)"
  let ?W = "map (\<lambda>t. (log_block ?l t, view k (?home t))) [0..<?n]" and ?V = "map (\<lambda>t. (?home t, view k (?home t))) [0..<j]"
  note wf = commit_readyD(2) [OF r]
  have nL: "?n \<le> log_room ?l" by (rule log_wfD(4) [OF wf])
  have D: "D = apply_writes ?V ((apply_writes ?W (disk k))(lg_start ?l := head_block k))"
    by (simp add: D_def commit_writes_take(2) [OF j])
  have home: "?home t \<notin> log_region ?l" if "t < j" for t using log_wfD(6) [OF wf] j that by simp
  have V: "apply_writes ?V m bn = m bn" if "bn \<in> log_region ?l" for bn m
    using home that by (intro apply_writes_map_other) auto
  show "D (lg_start ?l) = head_block k" unfolding D by (subst V [OF log_region_mem(1)]) simp
  show "D (log_block ?l t) = view k (?home t)" if t: "t < ?n"
  proof -
    have "inj_on (log_block ?l) {..<?n}" using nL log_room_le [of ?l] by (intro inj_on_subset [OF log_block_inj]) auto
    note in_W = apply_writes_map_in [OF this t, of "\<lambda>t. view k (?home t)" "disk k"]
    have tL: "t < log_room ?l" "t < LOGSIZE" using t nL log_room_le [of ?l] by simp_all
    show ?thesis unfolding D by (subst V [OF log_region_mem(2) [OF tL(1)]]) (simp add: log_block_ne_start [OF tL(2)] in_W)
  qed
  show "D bn = disk k bn" if bn: "bn \<notin> log_region ?l" "bn \<notin> ?home ` {..<?n}"
  proof -
    have "apply_writes ?V m bn = m bn" for m using bn(2) j by (intro apply_writes_map_other) auto
    moreover have "apply_writes ?W (disk k) bn = disk k bn"
      using log_regionD(2) [OF bn(1)] nL by (intro apply_writes_map_other) simp
    ultimately show ?thesis unfolding D using log_regionD(1) [OF bn(1)] by simp
  qed
qed

lemma cut_done:
  assumes r: "commit_ready pid P k"
  shows "apply_writes (commit_writes k) (disk k) (lg_start (klog k)) = cleared_head k (head_block k)"
    "bn \<notin> log_region (klog k) \<Longrightarrow> apply_writes (commit_writes k) (disk k) bn = view k bn"
proof -
  show "apply_writes (commit_writes k) (disk k) (lg_start (klog k)) = cleared_head k (head_block k)"
    by (simp add: commit_writes_take(4))
  assume bn: "bn \<notin> log_region (klog k)"
  then show "apply_writes (commit_writes k) (disk k) bn = view k bn"
    using commit_homes [OF r, where bn = bn] cut_after_head(3) [OF r le0 bn] log_regionD(1) [OF bn]
    unfolding commit_writes_take(4) commit_writes_take(2) [OF le0] by (simp split: if_splits)
qed

lemma log_wf_empty:
  assumes "log_wf l" and "lh_n lh = 0"
  shows "log_wf (l\<lparr>lg_lh := lh\<rparr>)"
  using assms by (simp add: log_wf_def log_count_def log_room_def)

lemma log_wf_same_blocks:
  assumes wf: "log_wf l" and n: "lh_n lh = lh_n (lg_lh l)" and b: "\<And>t. t < log_count l \<Longrightarrow> lh_block lh t = lh_block (lg_lh l) t"
  shows "log_wf (l\<lparr>lg_lh := lh\<rparr>)"
proof -
  have c: "log_count (l\<lparr>lg_lh := lh\<rparr>) = log_count l" using n by (simp add: log_count_def)
  have r: "log_room (l\<lparr>lg_lh := lh\<rparr>) = log_room l" "log_region (l\<lparr>lg_lh := lh\<rparr>) = log_region l"
    by (simp_all add: log_room_def log_region_def log_block_def cong: image_cong)
  have i: "lh_block lh ` {..<log_count l} = lh_block (lg_lh l) ` {..<log_count l}" using b by (intro image_cong) simp_all
  have j: "inj_on (lh_block lh) {..<log_count l} = inj_on (lh_block (lg_lh l)) {..<log_count l}" using b by (intro inj_on_cong) simp
  show ?thesis using wf n by (simp add: log_wf_def c r i j)
qed

lemma recover_cut:
  assumes r: "commit_ready pid P k" and h0: "lh_n (disk_head (disk k) (klog k)) = 0"
    and K: "rebooted (apply_writes (take m (commit_writes k)) (disk k)) (klog k) K"
  shows "\<exists>K'. initlog j ROOTDEV K = Inr K' \<and> cache_ok (p_pid (procs K' j)) {} {} K' \<and> lh_n (disk_head (disk K') (klog k)) = 0 \<and>
    (\<forall>bn. bn \<notin> log_region (klog k) \<longrightarrow> disk K' bn = (if m \<le> log_count (klog k) then disk k bn else view k bn))"
proof -
  let ?l = "klog k" and ?n = "log_count (klog k)" and ?D = "apply_writes (take m (commit_writes k)) (disk k)"
  note wf = commit_readyD(2) [OF r]
  consider "m \<le> ?n" | t where "t \<le> ?n" "m = Suc (?n + t)" | "Suc (?n + ?n) < m"
  proof (cases "m \<le> ?n \<or> Suc (?n + ?n) < m")
    case False
    then show thesis using that(2) [of "m - Suc ?n"] by simp
  qed (use that in blast)
  then show ?thesis
  proof cases
    case 1
    have s: "?D (lg_start ?l) = disk k (lg_start ?l)"
      using cut_before_head [OF r 1] log_block_ne_start [of _ ?l] log_room_le [of ?l] by (meson less_le_trans)
    then have h: "lh_n (disk_head ?D ?l) = 0" using h0 by (simp add: disk_head_def)
    have "?D bn = disk k bn" if "bn \<notin> log_region ?l" for bn using cut_before_head [OF r 1 log_regionD(2) [OF that]] .
    then show ?thesis using initlog_ok [OF K log_wf_empty [OF wf h], of j] h 1 log_regionD(1) by fastforce
  next
    case 2
    note D = cut_after_head [OF r 2(1), folded 2(2)]
    have h: "disk_head ?D ?l = decode_head (head_block k) (lg_lh ?l)" by (simp add: disk_head_def D(1))
    have n: "lh_n (disk_head ?D ?l) = lh_n (lg_lh ?l)"
      unfolding h head_block_def by (rule decode_encode_head(1) [OF log_wfD(2,3) [OF wf]])
    have b: "lh_block (disk_head ?D ?l) t = lh_block (lg_lh ?l) t" if "t < ?n" for t
      unfolding h head_block_def using that by (intro decode_encode_head(2) [OF log_wfD(2,3) [OF wf]]) (simp add: log_count_def)
    have W: "map (\<lambda>t. (lh_block (disk_head ?D ?l) t, ?D (log_block ?l t))) [0..<nat (lh_n (disk_head ?D ?l))] =
      map (\<lambda>t. (lh_block (lg_lh ?l) t, view k (lh_block (lg_lh ?l) t))) [0..<?n]"
      unfolding n using b D(2) by (simp add: log_count_def)
    have v: "apply_writes (map (\<lambda>t. (lh_block (lg_lh ?l) t, view k (lh_block (lg_lh ?l) t))) [0..<?n]) ?D bn = view k bn"
      if "bn \<notin> log_region ?l" for bn
      using commit_homes [OF r, where bn = bn] D(3) [OF that] by (simp split: if_splits)
    obtain K' where K': "initlog j ROOTDEV K = Inr K'" "cache_ok (p_pid (procs K' j)) {} {} K'" "lh_n (disk_head (disk K') ?l) = 0"
      "\<forall>bn. bn \<noteq> lg_start ?l \<longrightarrow> disk K' bn =
        apply_writes (map (\<lambda>t. (lh_block (lg_lh ?l) t, view k (lh_block (lg_lh ?l) t))) [0..<?n]) ?D bn"
      using initlog_ok [OF K log_wf_same_blocks [OF wf n b], of j] unfolding W by blast
    have "disk K' bn = view k bn" if "bn \<notin> log_region ?l" for bn
      using K'(4) log_regionD(1) [OF that] v [OF that] by simp
    then show ?thesis using K'(1-3) 2(2) by (intro exI [of _ K']) simp
  next
    case 3
    have D: "?D = apply_writes (commit_writes k) (disk k)" using commit_writes_take(3) [of k m] 3 by simp
    have h: "lh_n (disk_head ?D ?l) = 0" by (simp add: D disk_head_def cut_done(1) [OF r] cleared_head_def lh_n_cleared)
    have "?D bn = view k bn" if "bn \<notin> log_region ?l" for bn unfolding D by (rule cut_done(2) [OF r that])
    then show ?thesis using initlog_ok [OF K log_wf_empty [OF wf h], of j] h 3 log_regionD(1) by fastforce
  qed
qed

subsection \<open>Logging a block\<close>

text \<open>Within a transaction the pinned buffers are those of the logged blocks.\<close>

definition logged_ok :: "cint \<Rightarrow> nat set \<Rightarrow> nat set \<Rightarrow> kernel \<Rightarrow> bool" where
  "logged_ok pid H P k \<longleftrightarrow> cache_ok pid H P k \<and> log_wf (klog k) \<and>
     (\<lambda>b. b_blockno (bufs k b)) ` P = lh_block (lg_lh (klog k)) ` {..<log_count (klog k)}"

lemma logged_okD:
  assumes "logged_ok pid H P k"
  shows "cache_ok pid H P k" "log_wf (klog k)" "(\<lambda>b. b_blockno (bufs k b)) ` P = lh_block (lg_lh (klog k)) ` {..<log_count (klog k)}"
  using assms by (simp_all add: logged_ok_def)

lemma commit_ready_eq:
  "commit_ready pid P k \<longleftrightarrow> logged_ok pid {} P k \<and> 0 < lh_n (lg_lh (klog k)) \<and> (\<exists>b<NBUF. b \<notin> P)"
  by (auto simp: commit_ready_def logged_ok_def)

lemma log_wf_append:
  assumes wf: "log_wf l" and new: "bn \<notin> lh_block (lg_lh l) ` {..<log_count l}" "bn \<notin> log_region l" and room: "log_count l < log_room l"
  defines "l' \<equiv> l\<lparr>lg_lh := (lg_lh l)\<lparr>lh_block := (lh_block (lg_lh l))(log_count l := bn), lh_n := lh_n (lg_lh l) + 1\<rparr>\<rparr>"
  shows "log_wf l'" "log_count l' = Suc (log_count l)" "lh_block (lg_lh l') ` {..<log_count l'} = insert bn (lh_block (lg_lh l) ` {..<log_count l})"
proof -
  show c: "log_count l' = Suc (log_count l)" using log_wfD(2) [OF wf] by (simp add: l'_def log_count_def nat_add_distrib)
  show i: "lh_block (lg_lh l') ` {..<log_count l'} = insert bn (lh_block (lg_lh l) ` {..<log_count l})"
    unfolding c lessThan_Suc by (auto simp: l'_def)
  have j: "inj_on (lh_block (lg_lh l')) {..<log_count l'}"
    unfolding c lessThan_Suc using log_wfD(5) [OF wf] new(1) by (auto simp: l'_def inj_on_def)
  have r: "log_room l' = log_room l" "log_region l' = log_region l"
    by (simp_all add: l'_def log_room_def log_region_def log_block_def cong: image_cong)
  have "lh_n (lg_lh l) + 1 \<le> int (log_room l)" using room log_wfD(2) [OF wf] by (simp add: log_count_def)
  moreover have "lg_dev l' = ROOTDEV" "lh_n (lg_lh l') = lh_n (lg_lh l) + 1" "0 \<le> lh_n (lg_lh l)"
    using log_wfD(1,2) [OF wf] by (simp_all add: l'_def)
  moreover have "lh_block (lg_lh l) ` {..<log_count l} \<inter> log_region l = {}" using log_wfD(6) [OF wf] by blast
  ultimately show "log_wf l'" using j new(2) by (simp add: log_wf_def r i)
qed

lemma log_write_ok:
  assumes t: "logged_ok pid H P k" and b: "b \<in> H" "b_blockno (bufs k b) \<notin> log_region (klog k)"
    and room: "log_count (klog k) < log_room (klog k)" and out: "1 \<le> lg_outstanding (klog k)"
  shows "\<exists>k'. log_write b k = Inr k' \<and> logged_ok pid H (insert b P) k' \<and> view k' = view k \<and>
    k' = k\<lparr>klog := (klog k)\<lparr>lg_lh := lg_lh (klog k')\<rparr>, bufs := bufs k'\<rparr> \<and> (\<forall>a. same_buf k k' a) \<and>
    log_count (klog k') = log_count (klog k) + (if b \<in> P then 0 else 1)"
proof -
  let ?l = "klog k" and ?lh = "lg_lh (klog k)" and ?bn = "b_blockno (bufs k b)" and ?n = "log_count (klog k)"
  note c = logged_okD(1) [OF t] and wf = logged_okD(2) [OF t] and P = logged_okD(3) [OF t]
  have n: "nat (lh_n ?lh) = ?n" by (simp add: log_count_def)
  have guard: "\<not> (lh_n ?lh \<ge> int LOGSIZE \<or> lh_n ?lh \<ge> lg_size ?l - 1)" "\<not> lg_outstanding ?l < 1"
    using room out by (auto simp: log_count_def log_room_def)
  show ?thesis
  proof (cases "List.find (\<lambda>j. lh_block ?lh j = ?bn) [0..<?n]")
    case None
    then have new: "?bn \<notin> lh_block ?lh ` {..<?n}" by (auto simp: find_upt_None_iff)
    then have bP: "b \<notin> P" using P by auto
    let ?lh1 = "?lh\<lparr>lh_block := (lh_block ?lh)(?n := ?bn), lh_n := lh_n ?lh + 1\<rparr>"
    let ?k1 = "k\<lparr>klog := ?l\<lparr>lg_lh := ?lh1\<rparr>\<rparr>"
    have w: "log_write b k = Inr (bpin b ?k1)"
      using guard None by (simp add: log_write_def Let_def n set_lh_def)
    have c1: "cache_ok pid H P ?k1" using c by simp
    have kl: "klog (bpin b ?k1) = ?l\<lparr>lg_lh := ?lh1\<rparr>" by (simp add: bpin_def)
    have bl: "b_blockno (bufs (bpin b ?k1) a) = b_blockno (bufs k a)" for a by (simp add: bpin_def)
    have "logged_ok pid H (insert b P) (bpin b ?k1)"
      unfolding logged_ok_def kl bl
      using bpin_ok(1) [OF c1 b(1) bP] log_wf_append [OF wf new b(2) room] P by simp
    moreover have "view (bpin b ?k1) = view k" using bpin_ok(2) [OF c1 b(1) bP] by simp
    moreover have "same_buf k (bpin b ?k1) a" for a by (simp add: bpin_def same_buf_def)
    moreover have "bpin b ?k1 = k\<lparr>klog := ?l\<lparr>lg_lh := lg_lh (klog (bpin b ?k1))\<rparr>, bufs := bufs (bpin b ?k1)\<rparr>"
      by (simp add: bpin_def upd_buf_def)
    moreover have "log_count (klog (bpin b ?k1)) = log_count (klog k) + (if b \<in> P then 0 else 1)"
      using log_wf_append(2) [OF wf new b(2) room] bP by (simp add: kl)
    ultimately show ?thesis using w by blast
  next
    case (Some j)
    then have j: "j < ?n" "lh_block ?lh j = ?bn" by (auto simp: find_upt_Some_iff)
    then have "?bn \<in> (\<lambda>b. b_blockno (bufs k b)) ` P" using P by (metis imageI lessThan_iff)
    then obtain a where a: "a \<in> P" "b_blockno (bufs k a) = ?bn" by auto
    have "a = b" using cache_uniq [OF c, of a b] cache_P [OF c a(1)] cache_H [OF c b(1)] cache_valid [OF c] cache_dev [OF c] a b(1) by simp
    then have bP: "b \<in> P" using a(1) by simp
    have e: "(lh_block ?lh)(j := ?bn) = lh_block ?lh" using j(2) by auto
    have "log_write b k = Inr k"
      using guard Some j by (simp add: log_write_def Let_def n set_lh_def e)
    then show ?thesis using t bP by (intro exI [of _ k]) (simp add: insert_absorb same_buf_def)
  qed
qed

subsection \<open>Properties\<close>

text \<open>
  C23. Crash safety of \<open>commit\<close>. It sends a list of writes to the disk; if the machine stops after
  any number m of them and boots again, \<open>initlog\<close> restores a file system in which the transaction has
  happened completely or not at all: every block outside the log has its old content on the disk if
  m did not reach the write of the header, and its new content otherwise. The log on the disk is
  empty again, so that a further crash changes nothing.
\<close>

theorem commit_crash_safe:
  assumes "commit_ready (p_pid (procs k i)) P k" and "lh_n (disk_head (disk k) (klog k)) = 0"
  shows "\<exists>k' W. commit i k = Inr k' \<and> disk_writes k' = disk_writes k @ W \<and> disk k' = apply_writes W (disk k) \<and>
    (\<forall>bn. bn \<notin> log_region (klog k) \<longrightarrow> disk k' bn = view k bn) \<and>
    (\<forall>m K j. rebooted (apply_writes (take m W) (disk k)) (klog k) K \<longrightarrow>
      (\<exists>K'. initlog j ROOTDEV K = Inr K' \<and> lh_n (disk_head (disk K') (klog k)) = 0 \<and>
        (\<forall>bn. bn \<notin> log_region (klog k) \<longrightarrow> disk K' bn = (if m \<le> log_count (klog k) then disk k bn else view k bn))))"
proof -
  obtain k' where k': "commit i k = Inr k'" "disk k' = apply_writes (commit_writes k) (disk k)"
    "disk_writes k' = disk_writes k @ commit_writes k" using commit_ok [OF assms(1) refl] by blast
  have "disk k' bn = view k bn" if "bn \<notin> log_region (klog k)" for bn unfolding k'(2) by (rule cut_done(2) [OF assms(1) that])
  then show ?thesis using k' recover_cut [OF assms] by (intro exI [of _ k'] exI [of _ "commit_writes k"]) blast
qed

text \<open>A transaction of one block on a fresh cache: read block 100, change it, log it, release it.\<close>

definition sample_log :: kernel where
  "sample_log = (binit blank_kernel)\<lparr>klog := \<lparr>lg_start = 2, lg_size = 30, lg_outstanding = 1, lg_committing = False, lg_dev = ROOTDEV,
     lg_lh = \<lparr>lh_n = 0, lh_block = (\<lambda>_. 0)\<rparr>\<rparr>\<rparr>"

lemma disk_binit: "disk (binit k) = disk k"
proof -
  have "disk (fold (\<lambda>b k. upd_buf b (\<lambda>x. x\<lparr>b_lock := initsleeplock\<rparr>) (push_buf b k)) bs k) = disk k" for bs k
    by (induction bs arbitrary: k) (simp_all add: push_buf_def Let_def)
  then show ?thesis unfolding binit_def by simp
qed

lemma blk_word_zero: "blk_word (\<lambda>_. 0) off n = 0"
proof -
  have "word_of_bytes (replicate m 0) = (0 :: 'a::len word)" for m by (induction m) simp_all
  then show ?thesis by (simp add: blk_word_def map_replicate_const)
qed

lemma sample_transaction:
  "\<exists>k P. commit_ready (p_pid (procs k 0)) P k \<and> lh_n (disk_head (disk k) (klog k)) = 0"
proof -
  have c: "cache_ok (p_pid (procs sample_log 0)) {} {} sample_log" using boot_cache by (simp add: sample_log_def)
  obtain b k1 where b: "bread_post (p_pid (procs sample_log 0)) {} {} 100 sample_log b k1"
    using bread_ok [OF c refl, of 100] some_buffer by auto
  let ?pid = "p_pid (procs sample_log 0)"
  have kl: "klog k1 = klog sample_log" by (rule bp_frame [OF b])
  have t: "logged_ok ?pid {b} {} k1"
    using bp_ok [OF b] by (simp add: logged_ok_def kl) (simp add: sample_log_def log_wf_def log_count_def log_room_def)
  have "b_blockno (bufs k1 b) \<notin> log_region (klog k1)"
  proof -
    have "(100::uint) \<noteq> 2 + of_nat t + 1" if "t < LOGSIZE" for t
    proof
      assume "(100::uint) = 2 + of_nat t + 1"
      moreover have "of_nat t = (2 + of_nat t + 1 :: uint) - 3" by simp
      ultimately have "unat (of_nat t :: uint) = unat (97 :: uint)" by simp
      then show False using that by (simp add: unat_of_nat)
    qed
    then show ?thesis unfolding bp_block [OF b] kl
      using log_room_le [of "klog sample_log"] by (auto simp: log_region_def log_block_def) (auto simp: sample_log_def)
  qed
  moreover have "log_count (klog k1) < log_room (klog k1)" "1 \<le> lg_outstanding (klog k1)"
    by (simp_all add: kl) (simp_all add: sample_log_def log_count_def log_room_def)
  ultimately obtain k2 where k2: "log_write b k1 = Inr k2" "logged_ok ?pid {b} {b} k2"
      "k2 = k1\<lparr>klog := (klog k1)\<lparr>lg_lh := lg_lh (klog k2)\<rparr>, bufs := bufs k2\<rparr>" "log_count (klog k2) = 1"
    using log_write_ok [OF t, of b] by (auto simp: kl) (simp_all add: sample_log_def log_count_def)
  have f2: "procs k2 = procs k1" "disk k2 = disk k1" "lg_start (klog k2) = 2" by (subst k2(3), simp add: kl sample_log_def)+
  have pid2: "?pid = p_pid (procs k2 0)" using bp_frame [OF b] f2 by simp
  obtain k3 where k3: "brelse 0 b k2 = Inr k3" "cache_ok ?pid ({b} - {b}) {b} k3" "buf_frame k2 k3"
    using brelse_ok [OF logged_okD(1) [OF k2(2)] singletonI pid2] by auto
  note f3 = buf_frameD [OF k3(3)]
  have "logged_ok ?pid {} {b} k3"
    using k3(2) logged_okD(2,3) [OF k2(2)] f3(5) [of b] by (simp add: logged_ok_def f3(2) same_buf_def)
  moreover have "0 < lh_n (lg_lh (klog k3))" using k2(4) by (simp add: f3(2) log_count_def)
  moreover have "\<exists>a<NBUF. a \<notin> {b}"
    by (rule exI [of _ "if b = 0 then 1 else 0"]) simp
  moreover have "disk k3 = disk blank_kernel" using f3(3) f2 bp_frame [OF b] by (simp add: sample_log_def disk_binit)
  then have "lh_n (disk_head (disk k3) (klog k3)) = 0"
    by (simp add: disk_head_def decode_head_def blank_kernel_def blk_word_zero)
  moreover have "p_pid (procs k3 0) = ?pid" using fs_frame_pid [OF f3(1)] pid2 by simp
  ultimately show ?thesis by (intro exI [of _ k3] exI [of _ "{b}"]) (simp add: commit_ready_eq)
qed

theorem commit_crash_safe_witness:
  "\<exists>k. \<exists>k' W. commit 0 k = Inr k' \<and> disk_writes k' = disk_writes k @ W \<and>
    (\<forall>m K j. rebooted (apply_writes (take m W) (disk k)) (klog k) K \<longrightarrow> (\<exists>K'. initlog j ROOTDEV K = Inr K' \<and>
        (\<forall>bn. bn \<notin> log_region (klog k) \<longrightarrow> disk K' bn = (if m \<le> log_count (klog k) then disk k bn else view k bn))))"
proof -
  obtain k P where "commit_ready (p_pid (procs k 0)) P k" "lh_n (disk_head (disk k) (klog k)) = 0" using sample_transaction by blast
  from commit_crash_safe [OF this] show ?thesis by blast
qed

end
