(* ===== verification/Logop.thy ===== *)
theory Logop
  imports Log
begin

section \<open>kernel/log.c: the reservation of log space\<close>

text \<open>
  The calls of \<open>begin_op\<close>, \<open>log_write\<close> and \<open>end_op\<close> of several processes, in any order. A ghost list
  counts, for each operation in progress, the log entries it has added.
\<close>

subsection \<open>The cache leaves the log alone\<close>

lemma lock_buf_klog: "lock_buf i b k = Inr (b', k') \<Longrightarrow> klog k' = klog k"
  by (auto simp: lock_buf_def)

lemma bget_klog: "bget i dev bn k = Inr (b, k') \<Longrightarrow> klog k' = klog k"
  by (auto simp: bget_def dest!: lock_buf_klog split: option.splits)

lemma bread_klog:
  assumes "bread i dev bn k = Inr (b, k')"
  shows "klog k' = klog k"
proof -
  obtain b1 k1 where 1: "bget i dev bn k = Inr (b1, k1)"
    "(if \<not> b_valid (bufs k1 b1) then Inr (b1, upd_buf b1 (\<lambda>x. x\<lparr>b_valid := True\<rparr>) (disk_rw b1 False k1)) else Inr (b1, k1)) =
      (Inr (b, k') :: (nat \<times> kernel) res)" using assms unfolding bread_def by auto
  then have "klog k' = klog k1" by (cases "b_valid (bufs k1 b1)") (auto simp: disk_rw_def)
  then show ?thesis using bget_klog [OF 1(1)] by simp
qed

lemma bwrite_klog: "bwrite i b k = Inr k' \<Longrightarrow> klog k' = klog k"
  by (auto simp: bwrite_def disk_rw_def split: if_splits)

lemma wakeup_klog [simp]: "klog (wakeup self ch k) = klog k"
  by (simp add: wakeup_eq)

lemma brelse_klog: "brelse i b k = Inr k' \<Longrightarrow> klog k' = klog k"
  by (auto simp: brelse_def releasesleep_def push_buf_def unlink_buf_def Let_def split: if_splits)

lemmas cache_klog = bread_klog bwrite_klog brelse_klog

lemma write_head_klog: "write_head i k = Inr k' \<Longrightarrow> klog k' = klog k"
  by (auto simp: write_head_def dest!: cache_klog)

lemma write_one_klog: "write_one i t k = Inr k' \<Longrightarrow> klog k' = klog k"
  by (auto simp: write_one_def dest!: cache_klog)

lemma install_one_klog: "install_one i r t k = Inr k' \<Longrightarrow> klog k' = klog k"
  by (cases r) (auto simp: install_one_def bunpin_def dest!: cache_klog)

lemma commit_klog:
  assumes "commit i k = Inr k'" and "0 \<le> lh_n (lg_lh (klog k))"
  shows "klog k' = (klog k)\<lparr>lg_lh := (lg_lh (klog k))\<lparr>lh_n := 0\<rparr>\<rparr>"
proof (cases "lh_n (lg_lh (klog k)) > 0")
  case True
  then obtain k1 k2 k3 where s: "write_log i k = Inr k1" "write_head i k1 = Inr k2" "install_trans i False k2 = Inr k3"
    "write_head i (clear_log k3) = Inr k'" using assms(1) by (auto simp: commit_def)
  have "klog k1 = klog k" using s(1) unfolding write_log_def by (rule foldR_invariant [where I = "\<lambda>x. klog x = klog k"]) (simp_all add: write_one_klog)
  moreover have "klog k3 = klog k2"
    using s(3) unfolding install_trans_def by (rule foldR_invariant [where I = "\<lambda>x. klog x = klog k2"]) (simp_all add: install_one_klog)
  ultimately show ?thesis using write_head_klog [OF s(2)] write_head_klog [OF s(4)] by simp
next
  case False
  then have "lh_n (lg_lh (klog k)) = 0" using assms(2) by simp
  then show ?thesis using assms(1) by (simp add: commit_def)
qed

lemma log_write_klog:
  assumes "log_write b k = Inr k'"
  shows "\<exists>lh. klog k' = (klog k)\<lparr>lg_lh := lh\<rparr> \<and> (lh_n lh = lh_n (lg_lh (klog k)) \<or> lh_n lh = lh_n (lg_lh (klog k)) + 1)"
proof -
  let ?l = "klog k" and ?lh = "lg_lh (klog k)"
  have g1: "\<not> (lh_n ?lh \<ge> int LOGSIZE \<or> lh_n ?lh \<ge> lg_size ?l - 1)"
    by (rule notI) (use assms in \<open>simp add: log_write_def Let_def\<close>)
  have g2: "\<not> lg_outstanding ?l < 1" by (rule notI) (use assms g1 in \<open>simp add: log_write_def Let_def\<close>)
  define bn where "bn = b_blockno (bufs k b)"
  define j where "j = (case List.find (\<lambda>j. lh_block ?lh j = bn) [0..<nat (lh_n ?lh)] of None \<Rightarrow> nat (lh_n ?lh) | Some j \<Rightarrow> j)"
  define lh1 where "lh1 = ?lh\<lparr>lh_block := (lh_block ?lh)(j := bn)\<rparr>"
  have e: "log_write b k = Inr (if j = nat (lh_n ?lh) then bpin b (set_lh (lh1\<lparr>lh_n := lh_n ?lh + 1\<rparr>) k) else set_lh lh1 k)"
    unfolding log_write_def Let_def if_not_P [OF g1] if_not_P [OF g2] lh1_def j_def bn_def ..
  have lh1: "lh_n lh1 = lh_n ?lh" by (simp add: lh1_def)
  show ?thesis
  proof (cases "j = nat (lh_n ?lh)")
    case True
    then have "k' = bpin b (set_lh (lh1\<lparr>lh_n := lh_n ?lh + 1\<rparr>) k)" using assms e by simp
    then show ?thesis by (intro exI [of _ "lh1\<lparr>lh_n := lh_n ?lh + 1\<rparr>"]) (simp add: bpin_def set_lh_def)
  next
    case False
    then have "k' = set_lh lh1 k" using assms e by simp
    then show ?thesis using lh1 by (intro exI [of _ lh1]) (simp add: set_lh_def)
  qed
qed

lemma log_write_cases:
  assumes "log_write b k = Inr k'"
  shows "lh_n (lg_lh (klog k')) = lh_n (lg_lh (klog k)) \<or> lh_n (lg_lh (klog k')) = lh_n (lg_lh (klog k)) + 1"
    "lg_outstanding (klog k') = lg_outstanding (klog k)" "lg_size (klog k') = lg_size (klog k)" "lg_committing (klog k') = lg_committing (klog k)"
proof -
  obtain lh where "klog k' = (klog k)\<lparr>lg_lh := lh\<rparr>" "lh_n lh = lh_n (lg_lh (klog k)) \<or> lh_n lh = lh_n (lg_lh (klog k)) + 1"
    using log_write_klog [OF assms] by blast
  then show "lh_n (lg_lh (klog k')) = lh_n (lg_lh (klog k)) \<or> lh_n (lg_lh (klog k')) = lh_n (lg_lh (klog k)) + 1"
    "lg_outstanding (klog k') = lg_outstanding (klog k)" "lg_size (klog k') = lg_size (klog k)" "lg_committing (klog k') = lg_committing (klog k)"
    by simp_all
qed

subsection \<open>Operations in progress\<close>

inductive log_step :: "kernel \<times> nat list \<Rightarrow> kernel \<times> nat list \<Rightarrow> bool" where
  step_begin: "begin_op k = Inr k' \<Longrightarrow> log_step (k, us) (k', us @ [0])"
| step_write: "log_write b k = Inr k' \<Longrightarrow> j < length us \<Longrightarrow> us ! j < MAXOPBLOCKS \<Longrightarrow>
    log_step (k, us) (k', us[j := us ! j + nat (lh_n (lg_lh (klog k')) - lh_n (lg_lh (klog k)))])"
| step_end: "end_op i k = Inr k' \<Longrightarrow> j < length us \<Longrightarrow> log_step (k, us) (k', take j us @ drop (Suc j) us)"

text \<open>After \<open>initlog\<close>: the log is empty and no operation is in progress.\<close>

definition log_start :: "int \<Rightarrow> kernel \<times> nat list \<Rightarrow> bool" where
  "log_start sz = (\<lambda>(k, us). us = [] \<and> lh_n (lg_lh (klog k)) = 0 \<and> lg_outstanding (klog k) = 0 \<and>
     \<not> lg_committing (klog k) \<and> lg_size (klog k) = sz)"

text \<open>What the operations in progress may still add fits into the log.\<close>

definition reserved :: "int \<Rightarrow> kernel \<times> nat list \<Rightarrow> bool" where
  "reserved sz = (\<lambda>(k, us). let l = klog k in 0 \<le> lh_n (lg_lh l) \<and> lg_outstanding l = int (length us) \<and> (\<forall>u\<in>set us. u \<le> MAXOPBLOCKS) \<and>
     lh_n (lg_lh l) + sum_list (map (\<lambda>u. int MAXOPBLOCKS - int u) us) \<le> int LOGSIZE \<and> \<not> lg_committing l \<and> lg_size l = sz)"

lemma sum_room_le: "sum_list (map (\<lambda>u. int m - int u) us) \<le> int m * int (length us)"
  by (induction us) (simp_all add: algebra_simps)

lemma sum_room_update:
  "j < length us \<Longrightarrow> sum_list (map (\<lambda>u. int m - int u) (us[j := us ! j + d])) = sum_list (map (\<lambda>u. int m - int u) us) - int d"
proof (induction us arbitrary: j)
  case (Cons u us)
  then show ?case by (cases j) simp_all
qed simp

lemma sum_room_split:
  "j < length us \<Longrightarrow> sum_list (map (\<lambda>u. int m - int u) us) = sum_list (map (\<lambda>u. int m - int u) (take j us)) +
    (int m - int (us ! j)) + sum_list (map (\<lambda>u. int m - int u) (drop (Suc j) us))"
  by (subst id_take_nth_drop [of j us]) simp_all

lemma sum_room_remove:
  assumes "\<forall>u\<in>set us. u \<le> m" and "j < length us"
  shows "sum_list (map (\<lambda>u. int m - int u) (take j us @ drop (Suc j) us)) \<le> sum_list (map (\<lambda>u. int m - int u) us)"
proof -
  have "us ! j \<le> m" using assms by simp
  then show ?thesis unfolding sum_room_split [OF assms(2)] by simp
qed

lemma sum_room_nonneg: "\<forall>u\<in>set us. u \<le> m \<Longrightarrow> 0 \<le> sum_list (map (\<lambda>u. int m - int u) us)"
  by (induction us) simp_all

lemma sum_room_nth:
  assumes "\<forall>u\<in>set us. u \<le> m" and "j < length us"
  shows "int m - int (us ! j) \<le> sum_list (map (\<lambda>u. int m - int u) us)"
proof -
  have "0 \<le> sum_list (map (\<lambda>u. int m - int u) (take j us))" "0 \<le> sum_list (map (\<lambda>u. int m - int u) (drop (Suc j) us))"
    by (rule sum_room_nonneg, use assms(1) in \<open>blast dest: in_set_takeD in_set_dropD\<close>)+
  then show ?thesis unfolding sum_room_split [OF assms(2)] by simp
qed

lemma end_op_cases:
  assumes "end_op i k = Inr k'" and "0 \<le> lh_n (lg_lh (klog k))"
  shows "lg_outstanding (klog k') = lg_outstanding (klog k) - 1 \<and> lg_size (klog k') = lg_size (klog k) \<and> \<not> lg_committing (klog k') \<and>
    lh_n (lg_lh (klog k')) = (if lg_outstanding (klog k) = 1 then 0 else lh_n (lg_lh (klog k)))"
proof -
  let ?k1 = "k\<lparr>klog := (klog k)\<lparr>lg_outstanding := lg_outstanding (klog k) - 1\<rparr>\<rparr>"
  have nc: "\<not> lg_committing (klog k)" using assms(1) by (auto simp: end_op_def)
  show ?thesis
  proof (cases "lg_outstanding (klog k) = 1")
    case True
    then obtain k2 where k2: "commit i (?k1\<lparr>klog := (klog ?k1)\<lparr>lg_committing := True\<rparr>\<rparr>) = Inr k2"
      "k' = wakeup (Some i) ChanLog (k2\<lparr>klog := (klog k2)\<lparr>lg_committing := False\<rparr>\<rparr>)"
      using assms(1) nc by (auto simp: end_op_def Let_def)
    show ?thesis using commit_klog [OF k2(1)] assms(2) True k2(2) by simp
  next
    case False
    then have "k' = wakeup (Some i) ChanLog ?k1" using assms(1) nc by (simp add: end_op_def Let_def)
    then show ?thesis using False nc by simp
  qed
qed

lemma reservedD:
  assumes "reserved sz (k, us)"
  shows "0 \<le> lh_n (lg_lh (klog k))" "lg_outstanding (klog k) = int (length us)" "\<forall>u\<in>set us. u \<le> MAXOPBLOCKS"
    "lh_n (lg_lh (klog k)) + sum_list (map (\<lambda>u. int MAXOPBLOCKS - int u) us) \<le> int LOGSIZE" "\<not> lg_committing (klog k)"
    "lg_size (klog k) = sz"
  using assms unfolding reserved_def Let_def prod.case by simp_all

lemma reservedI:
  assumes "0 \<le> lh_n (lg_lh (klog k))" and "lg_outstanding (klog k) = int (length us)" and "\<forall>u\<in>set us. u \<le> MAXOPBLOCKS"
    and "lh_n (lg_lh (klog k)) + sum_list (map (\<lambda>u. int MAXOPBLOCKS - int u) us) \<le> int LOGSIZE" and "\<not> lg_committing (klog k)"
    and "lg_size (klog k) = sz"
  shows "reserved sz (k, us)"
  unfolding reserved_def Let_def prod.case by (intro conjI assms)

lemma log_step_reserved: "log_step s s' \<Longrightarrow> reserved sz s \<Longrightarrow> reserved sz s'"
proof (induction rule: log_step.induct)
  case (step_begin k k' us)
  note r = reservedD [OF step_begin(2)]
  have k': "klog k' = (klog k)\<lparr>lg_outstanding := lg_outstanding (klog k) + 1\<rparr>"
    "lh_n (lg_lh (klog k)) + (lg_outstanding (klog k) + 1) * int MAXOPBLOCKS \<le> int LOGSIZE"
    using step_begin(1) by (auto simp: begin_op_def Let_def split: if_splits)
  show ?case by (rule reservedI) (use r k' sum_room_le [of MAXOPBLOCKS us] in \<open>simp_all add: algebra_simps\<close>)
next
  case (step_write b k k' j us)
  note r = reservedD [OF step_write(4)] and w = log_write_cases [OF step_write(1)]
  define d where "d = nat (lh_n (lg_lh (klog k')) - lh_n (lg_lh (klog k)))"
  have d: "lh_n (lg_lh (klog k')) = lh_n (lg_lh (klog k)) + int d" "d \<le> 1" using w(1) by (auto simp: d_def)
  have "u \<le> MAXOPBLOCKS" if "u \<in> set (us[j := us ! j + d])" for u
    using that r(3) step_write(2,3) d(2) set_update_subset_insert [of us j "us ! j + d"] by fastforce
  then show ?case unfolding d_def [symmetric]
    by (intro reservedI) (use r w d sum_room_update [OF step_write(2), of MAXOPBLOCKS d] in simp_all)
next
  case (step_end i k k' j us)
  note r = reservedD [OF step_end(3)] and e = end_op_cases [OF step_end(1) reservedD(1) [OF step_end(3)]]
  let ?us = "take j us @ drop (Suc j) us"
  have len: "lg_outstanding (klog k') = int (length ?us)" using e r(2) step_end(2) by simp
  have sub: "\<forall>u\<in>set ?us. u \<le> MAXOPBLOCKS" using r(3) by (auto dest: in_set_takeD in_set_dropD)
  have n: "lh_n (lg_lh (klog k')) \<le> lh_n (lg_lh (klog k))" "0 \<le> lh_n (lg_lh (klog k'))" using e r(1) by simp_all
  have room: "lh_n (lg_lh (klog k')) + sum_list (map (\<lambda>u. int MAXOPBLOCKS - int u) ?us) \<le> int LOGSIZE"
    using n(1) r(4) sum_room_remove [OF r(3) step_end(2)] by linarith
  show ?case by (rule reservedI [OF n(2) len sub room]) (use e r in simp_all)
qed

interpretation logres: transition_invariant "log_start sz" log_step "reserved sz" for sz
proof
  show "log_start sz s \<Longrightarrow> reserved sz s" for s by (auto simp: log_start_def intro!: reservedI)
  show "reserved sz s \<Longrightarrow> log_step s t \<Longrightarrow> reserved sz t" for s t by (rule log_step_reserved)
qed

subsection \<open>Properties\<close>

text \<open>
  C27. The reservation of \<open>begin_op\<close> is enough if the log on the disk has more than \<open>LOGSIZE\<close> blocks:
  whatever the operations in progress did and in whatever order, an operation that has logged fewer
  than \<open>MAXOPBLOCKS\<close> blocks can log another one.
\<close>

theorem log_write_within_reservation:
  assumes "reach (log_start sz) log_step (k, us)" and "int LOGSIZE < sz" and "j < length us" and "us ! j < MAXOPBLOCKS"
  shows "\<exists>k'. log_write b k = Inr k'"
proof -
  note r = reservedD [OF logres.reach_inv [OF assms(1)]]
  have "lh_n (lg_lh (klog k)) < int LOGSIZE" "1 \<le> lg_outstanding (klog k)" "lg_size (klog k) = sz"
    using r sum_room_nth [OF r(3) assms(3)] assms(3,4) by simp_all
  then show ?thesis using assms(2) by (auto simp: log_write_def Let_def)
qed

theorem log_write_within_reservation_witness:
  "\<exists>k k'. begin_op (blank_kernel\<lparr>klog := (klog blank_kernel)\<lparr>lg_size := 31\<rparr>\<rparr>) = Inr k \<and> log_write 3 k = Inr k'"
proof -
  let ?k0 = "blank_kernel\<lparr>klog := (klog blank_kernel)\<lparr>lg_size := 31\<rparr>\<rparr>"
  obtain k where k: "begin_op ?k0 = Inr k" by (simp add: begin_op_def blank_kernel_def)
  have "reach (log_start 31) log_step (?k0, [])" by (rule reach.intros) (simp add: log_start_def blank_kernel_def)
  from reach.intros(2) [OF this step_begin [OF k]] have "reach (log_start 31) log_step (k, [0])" by simp
  from log_write_within_reservation [OF this, of 0 3] show ?thesis using k by simp
qed

text \<open>Three operations that log the blocks 0, 1, 2 and so on, ten each.\<close>

definition usage :: "nat \<Rightarrow> nat list" where
  "usage m = [min m 10, min (m - 10) 10, m - 20]"

lemma usage_Suc:
  assumes "m < 29"
  shows "m div 10 < length (usage m)" "usage m ! (m div 10) < MAXOPBLOCKS" "(usage m)[m div 10 := usage m ! (m div 10) + 1] = usage (Suc m)"
proof -
  consider "m < 10" | "10 \<le> m" "m < 20" | "20 \<le> m" "m < 29" using assms by linarith
  then have "m div 10 < length (usage m) \<and> usage m ! (m div 10) < MAXOPBLOCKS \<and>
      (usage m)[m div 10 := usage m ! (m div 10) + 1] = usage (Suc m)"
  proof cases
    case 1
    then show ?thesis by (simp add: usage_def)
  next
    case 2
    then have "m div 10 = 1" by simp
    then show ?thesis using 2 by (simp add: usage_def) arith
  next
    case 3
    then have "m div 10 = 2" by simp
    then show ?thesis using 3 by (simp add: usage_def numeral_2_eq_2) arith
  qed
  then show "m div 10 < length (usage m)" "usage m ! (m div 10) < MAXOPBLOCKS"
    "(usage m)[m div 10 := usage m ! (m div 10) + 1] = usage (Suc m)" by blast+
qed

definition filled :: "nat \<Rightarrow> kernel \<Rightarrow> bool" where
  "filled m k \<longleftrightarrow> (let l = klog k in lh_n (lg_lh l) = int m \<and> (\<forall>t<m. lh_block (lg_lh l) t = of_nat t) \<and>
     (\<forall>b. b_blockno (bufs k b) = of_nat b) \<and> lg_outstanding l = 3 \<and> lg_size l = int LOGSIZE)"

lemma log_write_filled:
  assumes "filled m k" and m: "m < 29"
  shows "\<exists>k'. log_write m k = Inr k' \<and> filled (Suc m) k'"
proof -
  let ?lh = "lg_lh (klog k)"
  have f: "lh_n ?lh = int m" "\<forall>t<m. lh_block ?lh t = of_nat t" "\<forall>b. b_blockno (bufs k b) = of_nat b"
    "lg_outstanding (klog k) = 3" "lg_size (klog k) = int LOGSIZE" using assms(1) by (simp_all add: filled_def Let_def)
  have ne: "(of_nat t :: uint) \<noteq> of_nat m" if "t < m" for t using that m by (simp add: word_of_nat_eq_iff take_bit_nat_eq_self)
  have "List.find (\<lambda>j. lh_block ?lh j = of_nat m) [0..<m] = None" using f(2) ne by (simp add: find_upt_None_iff)
  then have "log_write m k = Inr (bpin m (set_lh (?lh\<lparr>lh_block := (lh_block ?lh)(m := of_nat m), lh_n := int m + 1\<rparr>) k))"
    using f m by (simp add: log_write_def Let_def)
  moreover have "filled (Suc m) (bpin m (set_lh (?lh\<lparr>lh_block := (lh_block ?lh)(m := of_nat m), lh_n := int m + 1\<rparr>) k))"
    using f by (auto simp: filled_def Let_def bpin_def set_lh_def less_Suc_eq)
  ultimately show ?thesis by blast
qed

lemma reach_filled:
  assumes "reach (log_start (int LOGSIZE)) log_step (k0, usage 0)" and "filled 0 k0" and "m \<le> 29"
  shows "\<exists>k. reach (log_start (int LOGSIZE)) log_step (k, usage m) \<and> filled m k"
  using assms(3)
proof (induction m)
  case (Suc m)
  then obtain k where k: "reach (log_start (int LOGSIZE)) log_step (k, usage m)" "filled m k" by auto
  have m: "m < 29" using Suc(2) by simp
  obtain k' where k': "log_write m k = Inr k'" "filled (Suc m) k'" using log_write_filled [OF k(2) m] by blast
  have "lh_n (lg_lh (klog k')) - lh_n (lg_lh (klog k)) = 1" using k(2) k'(2) by (simp add: filled_def Let_def)
  then have "log_step (k, usage m) (k', usage (Suc m))"
    using step_write [OF k'(1) usage_Suc(1,2) [OF m]] usage_Suc(3) [OF m] by simp
  then show ?case using reach.intros(2) [OF k(1)] k'(2) by blast
qed (use assms in blast)

text \<open>
  C28. With the log that mkfs lays out (\<open>nlog = LOGSIZE\<close> blocks, one of which holds the header) the
  reservation is one block short: three operations that \<open>begin_op\<close> admits together can reach a state
  in which one of them has logged nine of its \<open>MAXOPBLOCKS\<close> blocks and \<open>log_write\<close> panics on the tenth.
\<close>

theorem log_write_panics_within_reservation:
  "\<exists>k. reach (log_start (int LOGSIZE)) log_step (k, [10, 10, 9]) \<and> 9 < MAXOPBLOCKS \<and>
    log_write 29 k = panic ''too big a transaction''"
proof -
  let ?k0 = "blank_kernel\<lparr>klog := (klog blank_kernel)\<lparr>lg_size := int LOGSIZE\<rparr>, bufs := (\<lambda>b. blank_buf\<lparr>b_blockno := of_nat b\<rparr>)\<rparr>"
  have 0: "reach (log_start (int LOGSIZE)) log_step (?k0, [])" by (rule reach.intros) (simp add: log_start_def blank_kernel_def)
  obtain k1 where k1: "begin_op ?k0 = Inr k1" "k1 = ?k0\<lparr>klog := (klog ?k0)\<lparr>lg_outstanding := 1\<rparr>\<rparr>"
    by (simp add: begin_op_def blank_kernel_def)
  obtain k2 where k2: "begin_op k1 = Inr k2" "k2 = ?k0\<lparr>klog := (klog ?k0)\<lparr>lg_outstanding := 2\<rparr>\<rparr>"
    by (simp add: k1(2) begin_op_def blank_kernel_def)
  obtain k3 where k3: "begin_op k2 = Inr k3" "k3 = ?k0\<lparr>klog := (klog ?k0)\<lparr>lg_outstanding := 3\<rparr>\<rparr>"
    by (simp add: k2(2) begin_op_def blank_kernel_def)
  have "reach (log_start (int LOGSIZE)) log_step (k3, usage 0)"
    using reach.intros(2) [OF reach.intros(2) [OF reach.intros(2) [OF 0 step_begin [OF k1(1)]] step_begin [OF k2(1)]] step_begin [OF k3(1)]]
    by (simp add: usage_def)
  moreover have "filled 0 k3" by (simp add: k3(2) filled_def Let_def blank_kernel_def)
  ultimately obtain k where "reach (log_start (int LOGSIZE)) log_step (k, usage 29)" "filled 29 k" using reach_filled [of k3 29] by blast
  then show ?thesis by (intro exI [of _ k]) (simp add: usage_def filled_def Let_def log_write_def)
qed

end
