(* ===== verification/Fs.thy ===== *)
theory Fs
  imports Logop
begin

section \<open>kernel/fs.c: blocks, inodes, directories and paths\<close>

text \<open>
  The file system on top of the buffer cache and the log. Every function takes the number i of the
  calling process and the state of the kernel. An inode pointer is an index into \<open>itable\<close>. The
  messages that \<open>balloc\<close> and \<open>ialloc\<close> print are not modelled.
\<close>

subsection \<open>Bytes of blocks\<close>

definition blk_bytes :: "block \<Rightarrow> nat \<Rightarrow> nat \<Rightarrow> byte list" where
  "blk_bytes d off n = map (\<lambda>j. d (off + j)) [0..<n]"

definition set_data :: "nat \<Rightarrow> block \<Rightarrow> kernel \<Rightarrow> kernel" where
  "set_data b d = upd_buf b (\<lambda>x. x\<lparr>b_data := d\<rparr>)"

subsection \<open>The superblock\<close>

abbreviation (input) FSMAGIC :: uint where "FSMAGIC \<equiv> 0x10203040"

definition decode_sb :: "block \<Rightarrow> superblock" where
  "decode_sb d = \<lparr>sb_magic = blk_word d 0 4, sb_size = blk_word d 4 4, sb_nblocks = blk_word d 8 4, sb_ninodes = blk_word d 12 4,
     sb_nlog = blk_word d 16 4, sb_logstart = blk_word d 20 4, sb_inodestart = blk_word d 24 4, sb_bmapstart = blk_word d 28 4\<rparr>"

definition readsb :: "nat \<Rightarrow> uint \<Rightarrow> kernel \<Rightarrow> kernel res" where
  "readsb i dev k = bindR (bread i dev 1 k) (\<lambda>(bp, k1). brelse i bp (k1\<lparr>sb := decode_sb (b_data (bufs k1 bp))\<rparr>))"

definition fsinit :: "nat \<Rightarrow> uint \<Rightarrow> kernel \<Rightarrow> kernel res" where
  "fsinit i dev k =
     bindR (readsb i dev k) (\<lambda>k1. if sb_magic (sb k1) \<noteq> FSMAGIC then panic ''invalid file system'' else initlog i dev k1)"

subsection \<open>Blocks\<close>

abbreviation (input) BPB :: nat where "BPB \<equiv> 8192"

definition BBLOCK :: "nat \<Rightarrow> superblock \<Rightarrow> uint" where
  "BBLOCK b s = of_nat (b div BPB) + sb_bmapstart s"

definition bzero :: "nat \<Rightarrow> uint \<Rightarrow> uint \<Rightarrow> kernel \<Rightarrow> kernel res" where
  "bzero i dev bno k =
     bindR (bread i dev bno k) (\<lambda>(bp, k1).
       bindR (log_write bp (set_data bp (\<lambda>j. if j < BSIZE then 0 else b_data (bufs k1 bp) j) k1)) (brelse i bp))"

definition bit_mask :: "nat \<Rightarrow> byte" where
  "bit_mask bi = push_bit (bi mod 8) 1"

definition block_free :: "block \<Rightarrow> nat \<Rightarrow> bool" where
  "block_free d bi \<longleftrightarrow> d (bi div 8) AND bit_mask bi = 0"

text \<open>The loops of \<open>balloc\<close>; \<open>sz\<close> is \<open>sb.size\<close>, which does not change.\<close>

function balloc_loop :: "nat \<Rightarrow> uint \<Rightarrow> nat \<Rightarrow> nat \<Rightarrow> kernel \<Rightarrow> (uint \<times> kernel) res" where
  "balloc_loop i dev sz b k =
     (if b < sz then
        bindR (bread i dev (BBLOCK b (sb k)) k) (\<lambda>(bp, k1).
          case List.find (block_free (b_data (bufs k1 bp))) [0..<min BPB (sz - b)] of
            Some bi \<Rightarrow>
              let d = b_data (bufs k1 bp)
              in bindR (log_write bp (set_data bp (d(bi div 8 := d (bi div 8) OR bit_mask bi)) k1)) (\<lambda>k2.
                   bindR (brelse i bp k2) (\<lambda>k3.
                     bindR (bzero i dev (of_nat (b + bi)) k3) (\<lambda>k4. Inr (of_nat (b + bi), k4))))
          | None \<Rightarrow> bindR (brelse i bp k1) (balloc_loop i dev sz (b + BPB)))
      else Inr (0, k))"
  by pat_completeness auto
termination by (relation "measure (\<lambda>(i, dev, sz, b, k). sz - b)") auto

declare balloc_loop.simps [simp del]

definition balloc :: "nat \<Rightarrow> uint \<Rightarrow> kernel \<Rightarrow> (uint \<times> kernel) res" where
  "balloc i dev k = balloc_loop i dev (unat (sb_size (sb k))) 0 k"

definition bfree :: "nat \<Rightarrow> uint \<Rightarrow> uint \<Rightarrow> kernel \<Rightarrow> kernel res" where
  "bfree i dev b k =
     bindR (bread i dev (BBLOCK (unat b) (sb k)) k) (\<lambda>(bp, k1).
       let bi = unat b mod BPB; d = b_data (bufs k1 bp)
       in if block_free d bi then panic ''freeing free block''
          else bindR (log_write bp (set_data bp (d(bi div 8 := d (bi div 8) AND NOT (bit_mask bi))) k1)) (brelse i bp))"

subsection \<open>Inodes on disk\<close>

abbreviation (input) IPB :: nat where "IPB \<equiv> 16"

definition IBLOCK :: "uint \<Rightarrow> superblock \<Rightarrow> uint" where
  "IBLOCK inum s = inum div of_nat IPB + sb_inodestart s"

text \<open>\<open>inode_off inum\<close>: where the \<open>dinode\<close> begins in its block; it has 64 bytes.\<close>

definition inode_off :: "uint \<Rightarrow> nat" where
  "inode_off inum = 64 * (unat inum mod IPB)"

definition decode_dinode :: "block \<Rightarrow> nat \<Rightarrow> dinode" where
  "decode_dinode d off = \<lparr>di_type = blk_word d off 2, di_major = blk_word d (off + 2) 2, di_minor = blk_word d (off + 4) 2,
     di_nlink = blk_word d (off + 6) 2, di_size = blk_word d (off + 8) 4, di_addrs = (\<lambda>j. blk_word d (off + 12 + 4 * j) 4)\<rparr>"

definition encode_dinode :: "dinode \<Rightarrow> byte list" where
  "encode_dinode di = bytes_of_word 2 (di_type di) @ bytes_of_word 2 (di_major di) @ bytes_of_word 2 (di_minor di) @
     bytes_of_word 2 (di_nlink di) @ bytes_of_word 4 (di_size di) @ concat (map (\<lambda>j. bytes_of_word 4 (di_addrs di j)) [0..<NDIRECT + 1])"

definition zero_dinode :: dinode where
  "zero_dinode = \<lparr>di_type = 0, di_major = 0, di_minor = 0, di_nlink = 0, di_size = 0, di_addrs = (\<lambda>_. 0)\<rparr>"

definition iinit :: "kernel \<Rightarrow> kernel" where
  "iinit k = fold (\<lambda>ip. upd_inode ip (\<lambda>x. x\<lparr>i_lock := initsleeplock\<rparr>)) [0..<NINODE] k"

text \<open>The loop of \<open>ialloc\<close>; \<open>n\<close> is \<open>sb.ninodes\<close>.\<close>

function ialloc_loop :: "nat \<Rightarrow> uint \<Rightarrow> ushort \<Rightarrow> nat \<Rightarrow> nat \<Rightarrow> kernel \<Rightarrow> (ptr \<times> kernel) res" where
  "ialloc_loop i dev type n inum k =
     (if inum < n then
        bindR (bread i dev (IBLOCK (of_nat inum) (sb k)) k) (\<lambda>(bp, k1).
          let d = b_data (bufs k1 bp); off = inode_off (of_nat inum)
          in if di_type (decode_dinode d off) = 0 then
               bindR (log_write bp (set_data bp (blk_store d off (encode_dinode (zero_dinode\<lparr>di_type := type\<rparr>))) k1)) (\<lambda>k2.
                 bindR (brelse i bp k2) (\<lambda>k3. bindR (iget dev (of_nat inum) k3) (\<lambda>(ip, k4). Inr (Some ip, k4))))
             else bindR (brelse i bp k1) (ialloc_loop i dev type n (inum + 1)))
      else Inr (None, k))"
  by pat_completeness auto
termination by (relation "measure (\<lambda>(i, dev, type, n, inum, k). n - inum)") auto

declare ialloc_loop.simps [simp del]

definition ialloc :: "nat \<Rightarrow> uint \<Rightarrow> ushort \<Rightarrow> kernel \<Rightarrow> (ptr \<times> kernel) res" where
  "ialloc i dev type k = ialloc_loop i dev type (unat (sb_ninodes (sb k))) 1 k"

definition dinode_of :: "inode \<Rightarrow> dinode" where
  "dinode_of x = \<lparr>di_type = i_type x, di_major = i_major x, di_minor = i_minor x, di_nlink = i_nlink x, di_size = i_size x,
     di_addrs = i_addrs x\<rparr>"

definition iupdate :: "nat \<Rightarrow> nat \<Rightarrow> kernel \<Rightarrow> kernel res" where
  "iupdate i ip k =
     bindR (bread i (i_dev (itable k ip)) (IBLOCK (i_inum (itable k ip)) (sb k)) k) (\<lambda>(bp, k1).
       let d = b_data (bufs k1 bp)
       in bindR (log_write bp (set_data bp (blk_store d (inode_off (i_inum (itable k1 ip))) (encode_dinode (dinode_of (itable k1 ip)))) k1))
            (brelse i bp))"

subsection \<open>Inodes in memory\<close>

definition load_inode :: "dinode \<Rightarrow> inode \<Rightarrow> inode" where
  "load_inode di x = x\<lparr>i_type := di_type di, i_major := di_major di, i_minor := di_minor di, i_nlink := di_nlink di,
     i_size := di_size di, i_addrs := (\<lambda>j. if j \<le> NDIRECT then di_addrs di j else i_addrs x j)\<rparr>"

definition ilock :: "nat \<Rightarrow> nat \<Rightarrow> kernel \<Rightarrow> kernel res" where
  "ilock i ip k =
     (if i_ref (itable k ip) < 1 then panic ''ilock''
      else bindR (acquiresleep (p_pid (procs k i)) (i_lock (itable k ip))) (\<lambda>l.
        let k1 = upd_inode ip (\<lambda>x. x\<lparr>i_lock := l\<rparr>) k
        in if \<not> i_valid (itable k1 ip) then
             bindR (bread i (i_dev (itable k1 ip)) (IBLOCK (i_inum (itable k1 ip)) (sb k1)) k1) (\<lambda>(bp, k2).
               let di = decode_dinode (b_data (bufs k2 bp)) (inode_off (i_inum (itable k2 ip)))
               in bindR (brelse i bp (upd_inode ip (load_inode di) k2)) (\<lambda>k3.
                    let k4 = upd_inode ip (\<lambda>x. x\<lparr>i_valid := True\<rparr>) k3
                    in if i_type (itable k4 ip) = 0 then panic ''ilock: no type'' else Inr k4))
           else Inr k1))"

definition iunlock :: "nat \<Rightarrow> nat \<Rightarrow> kernel \<Rightarrow> kernel res" where
  "iunlock i ip k =
     (if \<not> holdingsleep (p_pid (procs k i)) (i_lock (itable k ip)) \<or> i_ref (itable k ip) < 1 then panic ''iunlock''
      else Inr (releasesleep i (ChanLock ip) (\<lambda>l. upd_inode ip (\<lambda>x. x\<lparr>i_lock := l\<rparr>)) k))"

subsection \<open>The content of inodes\<close>

definition set_addr :: "nat \<Rightarrow> nat \<Rightarrow> uint \<Rightarrow> kernel \<Rightarrow> kernel" where
  "set_addr ip n a = upd_inode ip (\<lambda>x. x\<lparr>i_addrs := (i_addrs x)(n := a)\<rparr>)"

text \<open>\<open>bmap_slot\<close>: the entry n of \<open>ip->addrs\<close>, allocated if it is 0.\<close>

definition bmap_slot :: "nat \<Rightarrow> nat \<Rightarrow> nat \<Rightarrow> kernel \<Rightarrow> (uint \<times> kernel) res" where
  "bmap_slot i ip n k =
     (if i_addrs (itable k ip) n = 0 then
        bindR (balloc i (i_dev (itable k ip)) k) (\<lambda>(addr, k1).
          if addr = 0 then Inr (0, k1) else Inr (addr, set_addr ip n addr k1))
      else Inr (i_addrs (itable k ip) n, k))"

definition bmap :: "nat \<Rightarrow> nat \<Rightarrow> nat \<Rightarrow> kernel \<Rightarrow> (uint \<times> kernel) res" where
  "bmap i ip bn k =
     (if bn < NDIRECT then bmap_slot i ip bn k
      else if bn - NDIRECT < NINDIRECT then
        bindR (bmap_slot i ip NDIRECT k) (\<lambda>(addr, k1).
          if addr = 0 then Inr (0, k1)
          else bindR (bread i (i_dev (itable k1 ip)) addr k1) (\<lambda>(bp, k2).
            let off = 4 * (bn - NDIRECT); a = blk_word (b_data (bufs k2 bp)) off 4
            in if a = 0 then
                 bindR (balloc i (i_dev (itable k2 ip)) k2) (\<lambda>(a, k3).
                   if a = 0 then bindR (brelse i bp k3) (\<lambda>k4. Inr (a, k4))
                   else bindR (log_write bp (set_data bp (blk_store (b_data (bufs k3 bp)) off (bytes_of_word 4 a)) k3)) (\<lambda>k4.
                     bindR (brelse i bp k4) (\<lambda>k5. Inr (a, k5))))
               else bindR (brelse i bp k2) (\<lambda>k3. Inr (a, k3))))
      else panic ''bmap: out of range'')"

definition itrunc_direct :: "nat \<Rightarrow> nat \<Rightarrow> nat \<Rightarrow> kernel \<Rightarrow> kernel res" where
  "itrunc_direct i ip n k =
     (if i_addrs (itable k ip) n \<noteq> 0 then
        bindR (bfree i (i_dev (itable k ip)) (i_addrs (itable k ip) n) k) (\<lambda>k1. Inr (set_addr ip n 0 k1))
      else Inr k)"

definition itrunc_indirect :: "nat \<Rightarrow> nat \<Rightarrow> nat \<Rightarrow> nat \<Rightarrow> kernel \<Rightarrow> kernel res" where
  "itrunc_indirect i ip bp j k =
     (let a = blk_word (b_data (bufs k bp)) (4 * j) 4
      in if a \<noteq> 0 then bfree i (i_dev (itable k ip)) a k else Inr k)"

definition itrunc :: "nat \<Rightarrow> nat \<Rightarrow> kernel \<Rightarrow> kernel res" where
  "itrunc i ip k =
     bindR (foldR (itrunc_direct i ip) [0..<NDIRECT] k) (\<lambda>k1.
       bindR
         (if i_addrs (itable k1 ip) NDIRECT \<noteq> 0 then
            bindR (bread i (i_dev (itable k1 ip)) (i_addrs (itable k1 ip) NDIRECT) k1) (\<lambda>(bp, k2).
              bindR (foldR (itrunc_indirect i ip bp) [0..<NINDIRECT] k2) (\<lambda>k3.
                bindR (brelse i bp k3) (\<lambda>k4.
                  bindR (bfree i (i_dev (itable k4 ip)) (i_addrs (itable k4 ip) NDIRECT) k4) (\<lambda>k5. Inr (set_addr ip NDIRECT 0 k5)))))
          else Inr k1) (\<lambda>k6.
         iupdate i ip (upd_inode ip (\<lambda>x. x\<lparr>i_size := 0\<rparr>) k6)))"

definition iput :: "nat \<Rightarrow> nat \<Rightarrow> kernel \<Rightarrow> kernel res" where
  "iput i ip k =
     bindR
       (if i_ref (itable k ip) = 1 \<and> i_valid (itable k ip) \<and> i_nlink (itable k ip) = 0 then
          bindR (acquiresleep (p_pid (procs k i)) (i_lock (itable k ip))) (\<lambda>l.
            bindR (itrunc i ip (upd_inode ip (\<lambda>x. x\<lparr>i_lock := l\<rparr>) k)) (\<lambda>k1.
              bindR (iupdate i ip (upd_inode ip (\<lambda>x. x\<lparr>i_type := 0\<rparr>) k1)) (\<lambda>k2.
                Inr (releasesleep i (ChanLock ip) (\<lambda>l. upd_inode ip (\<lambda>x. x\<lparr>i_lock := l\<rparr>))
                  (upd_inode ip (\<lambda>x. x\<lparr>i_valid := False\<rparr>) k2)))))
        else Inr k) (\<lambda>k3.
       Inr (upd_inode ip (\<lambda>x. x\<lparr>i_ref := i_ref x - 1\<rparr>) k3))"

definition iunlockput :: "nat \<Rightarrow> nat \<Rightarrow> kernel \<Rightarrow> kernel res" where
  "iunlockput i ip k = bindR (iunlock i ip k) (iput i ip)"

record stat =
  st_dev :: uint
  st_ino :: uint
  st_type :: ushort
  st_nlink :: ushort
  st_size :: uint64

definition stati :: "inode \<Rightarrow> stat" where
  "stati x = \<lparr>st_dev = i_dev x, st_ino = i_inum x, st_type = i_type x, st_nlink = i_nlink x, st_size = ucast (i_size x)\<rparr>"

subsection \<open>Reading and writing\<close>

text \<open>
  The memory that \<open>readi\<close> copies to and \<open>writei\<close> from: a user address (\<open>user_dst\<close>, \<open>user_src\<close> = 1), a
  kernel address, or a local variable of the caller. Of a local variable, \<open>Local\<close> holds the bytes
  copied to it so far, or those still to be copied from it.
\<close>

datatype io = User uint64 | Kernel uint64 | Local "byte list"

definition copy_out :: "nat \<Rightarrow> io \<Rightarrow> byte list \<Rightarrow> kernel \<Rightarrow> int \<times> io \<times> kernel" where
  "copy_out i dst bs k =
     (case dst of
        User a \<Rightarrow> (let (r, k1) = either_copyout i True a bs (of_nat (length bs)) k in (r, User (a + of_nat (length bs)), k1))
      | Kernel a \<Rightarrow> (let (r, k1) = either_copyout i False a bs (of_nat (length bs)) k in (r, Kernel (a + of_nat (length bs)), k1))
      | Local xs \<Rightarrow> (0, Local (xs @ bs), k))"

definition copy_in :: "nat \<Rightarrow> io \<Rightarrow> nat \<Rightarrow> kernel \<Rightarrow> int \<times> byte list \<times> io" where
  "copy_in i src n k =
     (case src of
        User a \<Rightarrow> (let (bs, r) = either_copyin i True a (of_nat n) k in (r, bs, User (a + of_nat n)))
      | Kernel a \<Rightarrow> (let (bs, r) = either_copyin i False a (of_nat n) k in (r, bs, Kernel (a + of_nat n)))
      | Local xs \<Rightarrow> (0, take n xs, Local (drop n xs)))"

text \<open>
  The loops, with the number of bytes done (\<open>tot\<close>) and to be done (n). A uint result of \<open>-1\<close> is
  the value that the code returns as an int.
\<close>

function readi_loop :: "nat \<Rightarrow> nat \<Rightarrow> io \<Rightarrow> nat \<Rightarrow> nat \<Rightarrow> nat \<Rightarrow> kernel \<Rightarrow> (uint \<times> io \<times> kernel) res" where
  "readi_loop i ip dst off n tot k =
     (if tot < n then
        bindR (bmap i ip (off div BSIZE) k) (\<lambda>(addr, k1).
          if addr = 0 then Inr (of_nat tot, dst, k1)
          else bindR (bread i (i_dev (itable k1 ip)) addr k1) (\<lambda>(bp, k2).
            let m = min (n - tot) (BSIZE - off mod BSIZE);
                (r, dst1, k3) = copy_out i dst (blk_bytes (b_data (bufs k2 bp)) (off mod BSIZE) m) k2
            in bindR (brelse i bp k3) (\<lambda>k4. if r = -1 then Inr (-1, dst1, k4) else readi_loop i ip dst1 (off + m) n (tot + m) k4)))
      else Inr (of_nat tot, dst, k))"
  by pat_completeness auto
termination by (relation "measure (\<lambda>(i, ip, dst, off, n, tot, k). n - tot)") (auto intro: diff_less_mono2)

declare readi_loop.simps [simp del]

definition readi :: "nat \<Rightarrow> nat \<Rightarrow> io \<Rightarrow> uint \<Rightarrow> uint \<Rightarrow> kernel \<Rightarrow> (uint \<times> io \<times> kernel) res" where
  "readi i ip dst off n k =
     (let size = i_size (itable k ip)
      in if off > size \<or> off + n < off then Inr (0, dst, k)
         else
           let n1 = (if off + n > size then size - off else n)
           in readi_loop i ip dst (unat off) (unat n1) 0 k)"

function writei_loop :: "nat \<Rightarrow> nat \<Rightarrow> io \<Rightarrow> nat \<Rightarrow> nat \<Rightarrow> nat \<Rightarrow> kernel \<Rightarrow> (nat \<times> nat \<times> kernel) res" where
  "writei_loop i ip src off n tot k =
     (if tot < n then
        bindR (bmap i ip (off div BSIZE) k) (\<lambda>(addr, k1).
          if addr = 0 then Inr (tot, off, k1)
          else bindR (bread i (i_dev (itable k1 ip)) addr k1) (\<lambda>(bp, k2).
            let m = min (n - tot) (BSIZE - off mod BSIZE);
                (r, bs, src1) = copy_in i src m k2;
                k3 = set_data bp (blk_store (b_data (bufs k2 bp)) (off mod BSIZE) bs) k2
            in if r = -1 then bindR (brelse i bp k3) (\<lambda>k4. Inr (tot, off, k4))
               else bindR (log_write bp k3) (\<lambda>k4.
                 bindR (brelse i bp k4) (\<lambda>k5. writei_loop i ip src1 (off + m) n (tot + m) k5))))
      else Inr (tot, off, k))"
  by pat_completeness auto
termination by (relation "measure (\<lambda>(i, ip, src, off, n, tot, k). n - tot)") (auto intro: diff_less_mono2)

declare writei_loop.simps [simp del]

definition writei :: "nat \<Rightarrow> nat \<Rightarrow> io \<Rightarrow> uint \<Rightarrow> uint \<Rightarrow> kernel \<Rightarrow> (uint \<times> kernel) res" where
  "writei i ip src off n k =
     (let size = i_size (itable k ip)
      in if off > size \<or> off + n < off then Inr (-1, k)
         else if off + n > of_nat (MAXFILE * BSIZE) then Inr (-1, k)
         else bindR (writei_loop i ip src (unat off) (unat n) 0 k) (\<lambda>(tot, off1, k1).
           let k2 = (if of_nat off1 > i_size (itable k1 ip) then upd_inode ip (\<lambda>x. x\<lparr>i_size := of_nat off1\<rparr>) k1 else k1)
           in bindR (iupdate i ip k2) (\<lambda>k3. Inr (of_nat tot, k3))))"

subsection \<open>Directories\<close>

text \<open>
  A name is the list of its bytes up to the NUL, or all \<open>DIRSIZ\<close> of them; reading past the end of
  the list gives the NUL.
\<close>

definition nth_byte :: "byte list \<Rightarrow> nat \<Rightarrow> byte" where
  "nth_byte xs j = (if j < length xs then xs ! j else 0)"

fun namecmp_loop :: "byte list \<Rightarrow> byte list \<Rightarrow> nat \<Rightarrow> nat \<Rightarrow> int" where
  "namecmp_loop s t j 0 = 0"
| "namecmp_loop s t j (Suc n) =
     (if nth_byte s j \<noteq> 0 \<and> nth_byte s j = nth_byte t j then namecmp_loop s t (j + 1) n
      else uint (nth_byte s j) - uint (nth_byte t j))"

definition namecmp :: "byte list \<Rightarrow> byte list \<Rightarrow> int" where
  "namecmp s t = namecmp_loop s t 0 DIRSIZ"

definition decode_dirent :: "byte list \<Rightarrow> dirent" where
  "decode_dirent bs = \<lparr>de_inum = word_of_bytes (take 2 bs), de_name = take DIRSIZ (drop 2 bs)\<rparr>"

definition encode_dirent :: "dirent \<Rightarrow> byte list" where
  "encode_dirent de = bytes_of_word 2 (de_inum de) @ de_name de"

text \<open>\<open>read_dirent\<close>: \<open>readi(dp, 0, &de, off, sizeof(de)) != sizeof(de)\<close> is a panic with message msg.\<close>

definition read_dirent :: "string \<Rightarrow> nat \<Rightarrow> nat \<Rightarrow> nat \<Rightarrow> kernel \<Rightarrow> (dirent \<times> kernel) res" where
  "read_dirent msg i dp off k =
     bindR (readi i dp (Local []) (of_nat off) 16 k) (\<lambda>(r, dst, k1).
       if r \<noteq> 16 then panic msg
       else case dst of Local bs \<Rightarrow> Inr (decode_dirent bs, k1) | _ \<Rightarrow> panic msg)"

text \<open>
  The loops over the entries; \<open>sz\<close> is \<open>dp->size\<close>. The result of \<open>dirlookup\<close> is the inode and the
  offset of its entry.
\<close>

function dirlookup_loop :: "nat \<Rightarrow> nat \<Rightarrow> byte list \<Rightarrow> nat \<Rightarrow> nat \<Rightarrow> kernel \<Rightarrow> ((nat \<times> nat) option \<times> kernel) res" where
  "dirlookup_loop i dp name sz off k =
     (if off < sz then
        bindR (read_dirent ''dirlookup read'' i dp off k) (\<lambda>(de, k1).
          if de_inum de = 0 then dirlookup_loop i dp name sz (off + 16) k1
          else if namecmp name (de_name de) = 0 then
            bindR (iget (i_dev (itable k1 dp)) (ucast (de_inum de)) k1) (\<lambda>(ip, k2). Inr (Some (ip, off), k2))
          else dirlookup_loop i dp name sz (off + 16) k1)
      else Inr (None, k))"
  by pat_completeness auto
termination by (relation "measure (\<lambda>(i, dp, name, sz, off, k). sz - off)") auto

declare dirlookup_loop.simps [simp del]

definition dirlookup :: "nat \<Rightarrow> nat \<Rightarrow> byte list \<Rightarrow> kernel \<Rightarrow> ((nat \<times> nat) option \<times> kernel) res" where
  "dirlookup i dp name k =
     (if i_type (itable k dp) \<noteq> T_DIR then panic ''dirlookup not DIR''
      else dirlookup_loop i dp name (unat (i_size (itable k dp))) 0 k)"

function empty_slot :: "nat \<Rightarrow> nat \<Rightarrow> nat \<Rightarrow> nat \<Rightarrow> kernel \<Rightarrow> (nat \<times> kernel) res" where
  "empty_slot i dp sz off k =
     (if off < sz then
        bindR (read_dirent ''dirlink read'' i dp off k) (\<lambda>(de, k1).
          if de_inum de = 0 then Inr (off, k1) else empty_slot i dp sz (off + 16) k1)
      else Inr (off, k))"
  by pat_completeness auto
termination by (relation "measure (\<lambda>(i, dp, sz, off, k). sz - off)") auto

declare empty_slot.simps [simp del]

definition dirlink :: "nat \<Rightarrow> nat \<Rightarrow> byte list \<Rightarrow> uint \<Rightarrow> kernel \<Rightarrow> (int \<times> kernel) res" where
  "dirlink i dp name inum k =
     bindR (dirlookup i dp name k) (\<lambda>(r, k1).
       case r of
         Some (ip, _) \<Rightarrow> bindR (iput i ip k1) (\<lambda>k2. Inr (-1, k2))
       | None \<Rightarrow>
           bindR (empty_slot i dp (unat (i_size (itable k1 dp))) 0 k1) (\<lambda>(off, k2).
             let de = \<lparr>de_inum = ucast inum, de_name = strncpy_bytes DIRSIZ name\<rparr>
             in bindR (writei i dp (Local (encode_dirent de)) (of_nat off) 16 k2) (\<lambda>(r, k3).
                  if r \<noteq> 16 then Inr (-1, k3) else Inr (0, k3))))"

subsection \<open>Paths\<close>

abbreviation (input) slash :: byte where "slash \<equiv> 47"

text \<open>A path is the list of its bytes before the NUL. \<open>skipelem\<close> returns the name and the rest.\<close>

definition skipelem :: "byte list \<Rightarrow> (byte list \<times> byte list) option" where
  "skipelem path =
     (let s = dropWhile (\<lambda>c. c = slash) path
      in if s = [] then None
         else
           let elem = takeWhile (\<lambda>c. c \<noteq> slash) s; rest = dropWhile (\<lambda>c. c \<noteq> slash) s
           in Some (take DIRSIZ elem, dropWhile (\<lambda>c. c = slash) rest))"

lemma skipelem_shorter: "skipelem path = Some (name, rest) \<Longrightarrow> length rest < length path"
proof -
  assume a: "skipelem path = Some (name, rest)"
  define s where "s = dropWhile (\<lambda>c. c = slash) path"
  have ne: "s \<noteq> []" and r: "rest = dropWhile (\<lambda>c. c = slash) (dropWhile (\<lambda>c. c \<noteq> slash) s)"
    using a by (auto simp: skipelem_def Let_def s_def split: if_splits)
  obtain c t where s: "s = c # t" using ne by (cases s) auto
  have "c \<noteq> slash" using s s_def hd_dropWhile [of "\<lambda>c. c = slash" path] ne by auto
  then have "length rest \<le> length t"
    unfolding r s by (simp add: order_trans [OF length_dropWhile_le length_dropWhile_le])
  also have "\<dots> < length path" using s s_def length_dropWhile_le [of "\<lambda>c. c = slash" path] by simp
  finally show ?thesis .
qed

text \<open>The result is the inode, and the name of the last element when the parent is asked for.\<close>

function namex_loop :: "nat \<Rightarrow> bool \<Rightarrow> byte list \<Rightarrow> byte list \<Rightarrow> nat \<Rightarrow> kernel \<Rightarrow> ((nat \<times> byte list) option \<times> kernel) res" where
  "namex_loop i nameiparent path name0 ip k =
     (case skipelem path of
        None \<Rightarrow>
          if nameiparent then bindR (iput i ip k) (\<lambda>k1. Inr (None, k1)) else Inr (Some (ip, name0), k)
      | Some (name, rest) \<Rightarrow>
          bindR (ilock i ip k) (\<lambda>k1.
            if i_type (itable k1 ip) \<noteq> T_DIR then bindR (iunlockput i ip k1) (\<lambda>k2. Inr (None, k2))
            else if nameiparent \<and> rest = [] then bindR (iunlock i ip k1) (\<lambda>k2. Inr (Some (ip, name), k2))
            else bindR (dirlookup i ip name k1) (\<lambda>(r, k2).
              case r of
                None \<Rightarrow> bindR (iunlockput i ip k2) (\<lambda>k3. Inr (None, k3))
              | Some (next, _) \<Rightarrow> bindR (iunlockput i ip k2) (\<lambda>k3. namex_loop i nameiparent rest name next k3))))"
  by pat_completeness auto
termination by (relation "measure (\<lambda>(i, np, path, name, ip, k). length path)") (auto dest: skipelem_shorter)

declare namex_loop.simps [simp del]

definition namex :: "nat \<Rightarrow> byte list \<Rightarrow> bool \<Rightarrow> kernel \<Rightarrow> ((nat \<times> byte list) option \<times> kernel) res" where
  "namex i path nameiparent k =
     bindR
       (if path \<noteq> [] \<and> hd path = slash then iget ROOTDEV ROOTINO k
        else case p_cwd (procs k i) of
               None \<Rightarrow> panic ''null dereference''
             | Some ip \<Rightarrow> Inr (ip, idup ip k)) (\<lambda>(ip, k1).
       namex_loop i nameiparent path [] ip k1)"

definition namei :: "nat \<Rightarrow> byte list \<Rightarrow> kernel \<Rightarrow> (ptr \<times> kernel) res" where
  "namei i path k = bindR (namex i path False k) (\<lambda>(r, k1). Inr (map_option fst r, k1))"

definition nameiparent :: "nat \<Rightarrow> byte list \<Rightarrow> kernel \<Rightarrow> ((nat \<times> byte list) option \<times> kernel) res" where
  "nameiparent i path k = namex i path True k"

end
