(* ===== verification/Ringbuf.thy ===== *)
theory Ringbuf
  imports Prelude
begin

section \<open>Ring buffers with wrapping counters\<close>

text \<open>
  The buffers of pipe.c, uart.c and console.c count the elements written and read in machine words
  that wrap around, and index an array of N elements by the counters modulo N. N divides the range of
  the counters, so the elements between the two counters are a window of the ring. No definition of
  this theory translates code.
\<close>

definition word_ring :: "nat \<Rightarrow> (nat \<Rightarrow> 'b) \<Rightarrow> 'a::len word \<Rightarrow> 'a word \<Rightarrow> 'b list" where
  "word_ring N d r w = ring_window N d (unat r) (unat (w - r))"

lemma length_word_ring [simp]: "length (word_ring N d r w) = unat (w - r)"
  by (simp add: word_ring_def)

lemma word_ring_empty: "word_ring N d r w = [] \<longleftrightarrow> r = w"
proof -
  have "word_ring N d r w = [] \<longleftrightarrow> unat (w - r) = 0" using length_word_ring [of N d r w] by (metis length_0_conv)
  also have "\<dots> \<longleftrightarrow> r = w" by (auto simp: unat_eq_zero)
  finally show ?thesis .
qed

lemma unat_window_dec:
  assumes "w \<noteq> (r :: 'a::len word)"
  shows "unat (w - r) = Suc (unat (w - (r + 1)))"
proof -
  have "w - r \<noteq> 0" using assms by simp
  then have d: "unat (w - r - 1) = unat (w - r) - 1" "0 < unat (w - r)" by (simp_all add: unat_minus_one unat_gt_0)
  have e: "w - (r + 1) = w - r - 1" by simp
  show ?thesis unfolding e using d by simp
qed

lemma unat_window_inc:
  assumes "Suc (unat (w - r)) < 2 ^ LENGTH('a)"
  shows "unat (w + 1 - r :: 'a::len word) = Suc (unat (w - r))"
proof -
  have e: "w + 1 - r = (w - r) + 1" by simp
  show ?thesis unfolding e using assms by (simp add: unat_word_ariths(1))
qed

lemma unat_Suc_mod: "N dvd 2 ^ LENGTH('a) \<Longrightarrow> unat (w + 1 :: 'a::len word) mod N = Suc (unat w) mod N"
  by (simp add: unat_word_ariths mod_mod_cancel)

lemma ring_index_add:
  assumes "N dvd 2 ^ LENGTH('a)"
  shows "unat (a :: 'a::len word) mod N = (unat b + unat (a - b)) mod N"
proof -
  have "unat a = unat (b + (a - b))" by simp
  also have "\<dots> = (unat b + unat (a - b)) mod 2 ^ LENGTH('a)" by (rule unat_word_ariths(1))
  finally show ?thesis using assms by (simp add: mod_mod_cancel)
qed

lemma word_ring_put:
  fixes w :: "'a::len word"
  assumes "N dvd 2 ^ LENGTH('a)" and "unat (w - r) < N" and "N < 2 ^ LENGTH('a)"
  shows "word_ring N (d(unat w mod N := x)) r (w + 1) = word_ring N d r w @ [x]"
proof -
  have n: "unat (w + 1 - r) = Suc (unat (w - r))" by (rule unat_window_inc) (use assms in linarith)
  show ?thesis unfolding word_ring_def n ring_index_add [OF assms(1), of w r] by (rule ring_window_push [OF assms(2)])
qed

lemma word_ring_get:
  fixes w :: "'a::len word"
  assumes "N dvd 2 ^ LENGTH('a)" and "w \<noteq> r"
  shows "word_ring N d r w = d (unat r mod N) # word_ring N d (r + 1) w"
proof -
  have "ring_window N d (unat (r + 1)) m = ring_window N d (Suc (unat r)) m" for m
    using ring_window_mod [of N d "unat (r + 1)" m] ring_window_mod [of N d "Suc (unat r)" m] unat_Suc_mod [OF assms(1), of r] by simp
  then show ?thesis unfolding word_ring_def unat_window_dec [OF assms(2)] by (simp add: ring_window_Suc_left)
qed

text \<open>Storing at the write counter of a part of the ring that is not full leaves the earlier part.\<close>

lemma word_ring_upd_beyond:
  fixes w :: "'a::len word"
  assumes "N dvd 2 ^ LENGTH('a)" and "unat (w - r) \<le> unat (e - r)" and "unat (e - r) < N"
  shows "word_ring N (d(unat e mod N := x)) r w = word_ring N d r w"
  unfolding word_ring_def ring_index_add [OF assms(1), of e r] by (rule ring_window_upd_outside [OF assms(2,3)])

end
