(* ===== verification/Pipe.thy ===== *)
theory Pipe
  imports Fs Ringbuf
begin

section \<open>kernel/pipe.c\<close>

text \<open>
  A pipe is a ring of \<open>PIPESIZE\<close> bytes in a page of its own. A call that has to wait is the outcome
  \<open>Sleep\<close> with the number of bytes done so far; when it is woken it goes on with its loop from there.
  \<open>pipealloc\<close> is in the theory of file.c, whose \<open>fileclose\<close> it calls.
\<close>

abbreviation (input) PIPESIZE :: nat where "PIPESIZE \<equiv> 512"

definition pipe_put :: "byte \<Rightarrow> pipe \<Rightarrow> pipe" where
  "pipe_put ch p = p\<lparr>pi_data := (pi_data p)(unat (pi_nwrite p) mod PIPESIZE := ch), pi_nwrite := pi_nwrite p + 1\<rparr>"

definition pipe_get :: "pipe \<Rightarrow> byte \<times> pipe" where
  "pipe_get p = (pi_data p (unat (pi_nread p) mod PIPESIZE), p\<lparr>pi_nread := pi_nread p + 1\<rparr>)"

definition upd_pipe :: "uint64 \<Rightarrow> (pipe \<Rightarrow> pipe) \<Rightarrow> kernel \<Rightarrow> kernel" where
  "upd_pipe pi f k = k\<lparr>pipes := (pipes k)(pi := f (pipes k pi))\<rparr>"

definition pipeclose :: "nat \<Rightarrow> uint64 \<Rightarrow> bool \<Rightarrow> kernel \<Rightarrow> kernel res" where
  "pipeclose i pi writable k =
     (let k1 = (if writable then wakeup (Some i) (ChanPipeRead pi) (upd_pipe pi (\<lambda>p. p\<lparr>pi_writeopen := False\<rparr>) k)
                else wakeup (Some i) (ChanPipeWrite pi) (upd_pipe pi (\<lambda>p. p\<lparr>pi_readopen := False\<rparr>) k))
      in if \<not> pi_readopen (pipes k1 pi) \<and> \<not> pi_writeopen (pipes k1 pi) then
           bindR (kfree pi (pm k1)) (\<lambda>s. Inr (k1\<lparr>pm := s\<rparr>))
         else Inr k1)"

function pipewrite_loop :: "nat \<Rightarrow> uint64 \<Rightarrow> uint64 \<Rightarrow> int \<Rightarrow> nat \<Rightarrow> kernel \<Rightarrow> (int, nat) outcome \<times> kernel" where
  "pipewrite_loop i pi addr n c k =
     (if int c < n then
        if \<not> pi_readopen (pipes k pi) \<or> killed i k then (Return (-1), k)
        else if pi_nwrite (pipes k pi) = pi_nread (pipes k pi) + of_nat PIPESIZE then
          (Sleep (ChanPipeWrite pi) c, wakeup (Some i) (ChanPipeRead pi) k)
        else
          let (bs, r) = copyin (p_pagetable (procs k i)) (addr + of_nat c) 1 (pm k)
          in if r = -1 then (Return (int c), wakeup (Some i) (ChanPipeRead pi) k)
             else pipewrite_loop i pi addr n (c + 1) (upd_pipe pi (pipe_put (hd bs)) k)
      else (Return (int c), wakeup (Some i) (ChanPipeRead pi) k))"
  by pat_completeness auto
termination by (relation "measure (\<lambda>(i, pi, addr, n, c, k). nat (n - int c))") auto

declare pipewrite_loop.simps [simp del]

definition pipewrite :: "nat \<Rightarrow> uint64 \<Rightarrow> uint64 \<Rightarrow> int \<Rightarrow> kernel \<Rightarrow> (int, nat) outcome \<times> kernel" where
  "pipewrite i pi addr n k = pipewrite_loop i pi addr n 0 k"

function piperead_loop :: "nat \<Rightarrow> uint64 \<Rightarrow> uint64 \<Rightarrow> int \<Rightarrow> nat \<Rightarrow> kernel \<Rightarrow> int \<times> kernel" where
  "piperead_loop i pi addr n c k =
     (if int c < n then
        if pi_nread (pipes k pi) = pi_nwrite (pipes k pi) then (int c, k)
        else
          let (ch, p) = pipe_get (pipes k pi);
              k1 = upd_pipe pi (\<lambda>_. p) k;
              (r, s) = copyout (p_pagetable (procs k1 i)) (addr + of_nat c) [ch] 1 (pm k1)
          in if r = -1 then (int c, k1\<lparr>pm := s\<rparr>) else piperead_loop i pi addr n (c + 1) (k1\<lparr>pm := s\<rparr>)
      else (int c, k))"
  by pat_completeness auto
termination by (relation "measure (\<lambda>(i, pi, addr, n, c, k). nat (n - int c))") auto

declare piperead_loop.simps [simp del]

definition piperead :: "nat \<Rightarrow> uint64 \<Rightarrow> uint64 \<Rightarrow> int \<Rightarrow> kernel \<Rightarrow> (int, nat) outcome \<times> kernel" where
  "piperead i pi addr n k =
     (if pi_nread (pipes k pi) = pi_nwrite (pipes k pi) \<and> pi_writeopen (pipes k pi) then
        if killed i k then (Return (-1), k) else (Sleep (ChanPipeRead pi) 0, k)
      else
        let (c, k1) = piperead_loop i pi addr n 0 k
        in (Return c, wakeup (Some i) (ChanPipeWrite pi) k1))"

subsection \<open>The ring is a bounded queue\<close>

definition pipe_ok :: "pipe \<Rightarrow> bool" where
  "pipe_ok p \<longleftrightarrow> pi_nwrite p - pi_nread p \<le> of_nat PIPESIZE"

definition pipe_items :: "pipe \<Rightarrow> byte list" where
  "pipe_items p = word_ring PIPESIZE (pi_data p) (pi_nread p) (pi_nwrite p)"

lemma pipe_length: "length (pipe_items p) = unat (pi_nwrite p - pi_nread p)"
  by (simp add: pipe_items_def)

interpretation pq: bounded_queue pipe_ok pipe_items PIPESIZE pipe_put pipe_get
proof
  fix p x
  show "pipe_ok p \<Longrightarrow> length (pipe_items p) \<le> PIPESIZE"
    by (simp add: pipe_ok_def pipe_length word_le_nat_alt)
  show "pipe_ok (pipe_put x p)" if "length (pipe_items p) < PIPESIZE"
    using that unat_window_inc [of "pi_nwrite p" "pi_nread p"] by (simp add: pipe_ok_def pipe_put_def pipe_length word_le_nat_alt)
  show "pipe_items (pipe_put x p) = pipe_items p @ [x]" if "length (pipe_items p) < PIPESIZE"
    using that word_ring_put [of PIPESIZE "pi_nwrite p" "pi_nread p"] by (simp add: pipe_items_def pipe_put_def)
  assume "pipe_items p \<noteq> []"
  then have ne: "pi_nwrite p \<noteq> pi_nread p" by (auto simp: pipe_items_def word_ring_empty)
  show "pipe_ok (snd (pipe_get p))" if "pipe_ok p"
    using that unat_window_dec [OF ne] by (simp add: pipe_ok_def pipe_get_def word_le_nat_alt)
  show "pipe_items p = fst (pipe_get p) # pipe_items (snd (pipe_get p))"
    using word_ring_get [of PIPESIZE, OF _ ne] by (simp add: pipe_items_def pipe_get_def)
qed

subsection \<open>What a call does to the queue\<close>

lemma pipes_upd_pipe [simp]: "pipes (upd_pipe pi f k) = (pipes k)(pi := f (pipes k pi))" "pm (upd_pipe pi f k) = pm k"
  "procs (upd_pipe pi f k) = procs k"
  by (simp_all add: upd_pipe_def)

lemma wakeup_pipes [simp]: "pipes (wakeup self ch k) = pipes k" "pm (wakeup self ch k) = pm k"
  by (simp_all add: wakeup_eq)

lemma pipe_full_iff: "pipe_ok p \<Longrightarrow> pi_nwrite p = pi_nread p + of_nat PIPESIZE \<longleftrightarrow> length (pipe_items p) = PIPESIZE"
proof
  assume "length (pipe_items p) = PIPESIZE"
  then have "pi_nwrite p - pi_nread p = 512" by (simp add: pipe_length word_unat_eq_iff)
  then show "pi_nwrite p = pi_nread p + of_nat PIPESIZE" by (simp add: algebra_simps)
qed (simp add: pipe_length)

lemma pipe_empty_iff: "pi_nread p = pi_nwrite p \<longleftrightarrow> pipe_items p = []"
  by (simp add: pipe_items_def word_ring_empty)

text \<open>The bytes that \<open>copyin\<close> finds one by one at a user address.\<close>

definition user_byte :: "kernel \<Rightarrow> nat \<Rightarrow> uint64 \<Rightarrow> nat \<Rightarrow> byte" where
  "user_byte k i addr j = hd (fst (copyin (p_pagetable (procs k i)) (addr + of_nat j) 1 (pm k)))"

lemma pipewrite_loop_spec:
  assumes "pipewrite_loop i pi addr n c k = (out, k')" and "pipe_ok (pipes k pi)"
  shows "\<exists>m. pipe_ok (pipes k' pi) \<and> pipe_items (pipes k' pi) = pipe_items (pipes k pi) @ map (user_byte k i addr) [c..<c + m] \<and>
    pm k' = pm k \<and> (\<forall>pi'. pi' \<noteq> pi \<longrightarrow> pipes k' pi' = pipes k pi') \<and>
    (case out of Return r \<Rightarrow> r = -1 \<or> r = int (c + m)
     | Sleep ch d \<Rightarrow> ch = ChanPipeWrite pi \<and> d = c + m \<and> length (pipe_items (pipes k' pi)) = PIPESIZE)"
  using assms
proof (induction "nat (n - int c)" arbitrary: c k rule: less_induct)
  case less
  let ?go = "int c < n \<and> pi_readopen (pipes k pi) \<and> \<not> killed i k \<and> pi_nwrite (pipes k pi) \<noteq> pi_nread (pipes k pi) + of_nat PIPESIZE \<and>
      snd (copyin (p_pagetable (procs k i)) (addr + of_nat c) 1 (pm k)) \<noteq> -1"
  obtain bs r where b: "copyin (p_pagetable (procs k i)) (addr + of_nat c) 1 (pm k) = (bs, r)" by fastforce
  show ?case
  proof (cases ?go)
    case False
    have "pipes k' = pipes k \<and> pm k' = pm k \<and> (out = Return (-1) \<or> out = Return (int c) \<or>
        (out = Sleep (ChanPipeWrite pi) c \<and> length (pipe_items (pipes k pi)) = PIPESIZE))"
      using less(2) False pipe_full_iff [OF less(3)] unfolding pipewrite_loop.simps [of i pi addr n c k] b
      by (auto split: if_splits)
    then show ?thesis using less(3) by (intro exI [of _ 0]) auto
  next
    case True
    let ?k1 = "upd_pipe pi (pipe_put (user_byte k i addr c)) k"
    have go: "int c < n" "pi_readopen (pipes k pi)" "\<not> killed i k" "pi_nwrite (pipes k pi) \<noteq> pi_nread (pipes k pi) + of_nat PIPESIZE" "r \<noteq> -1"
      using True b by auto
    have hd: "hd bs = user_byte k i addr c" by (simp add: user_byte_def b)
    have run: "pipewrite_loop i pi addr n (c + 1) ?k1 = (out, k')"
      using less(2) go unfolding pipewrite_loop.simps [of i pi addr n c k] b by (simp add: hd)
    have room: "length (pipe_items (pipes k pi)) < PIPESIZE"
      using pq.items_cap [OF less(3)] pipe_full_iff [OF less(3)] go(4) by linarith
    have ub: "user_byte ?k1 i addr = user_byte k i addr" by (simp add: user_byte_def fun_eq_iff)
    have ok1: "pipe_ok (pipes ?k1 pi)" using pq.put_ok [OF less(3) room] by simp
    have dec: "nat (n - int (c + 1)) < nat (n - int c)" using go(1) by simp
    obtain m where m: "pipe_ok (pipes k' pi)"
      "pipe_items (pipes k' pi) = pipe_items (pipes ?k1 pi) @ map (user_byte ?k1 i addr) [c + 1..<c + 1 + m]"
      "pm k' = pm ?k1" "\<forall>pi'. pi' \<noteq> pi \<longrightarrow> pipes k' pi' = pipes ?k1 pi'"
      "case out of Return r \<Rightarrow> r = -1 \<or> r = int (c + 1 + m)
       | Sleep ch d \<Rightarrow> ch = ChanPipeWrite pi \<and> d = c + 1 + m \<and> length (pipe_items (pipes k' pi)) = PIPESIZE"
      using less(1) [OF dec run ok1] by blast
    have "pipe_items (pipes k' pi) = pipe_items (pipes k pi) @ map (user_byte k i addr) [c..<c + Suc m]"
      using m(2) pq.put_items [OF less(3) room] by (simp add: ub upt_conv_Cons del: upt_Suc)
    then show ?thesis using m(1,3,4,5) by (intro exI [of _ "Suc m"]) (simp split: outcome.splits)
  qed
qed

text \<open>Storing bytes one by one at a user address.\<close>

primrec deliver :: "uint64 \<Rightarrow> uint64 \<Rightarrow> byte list \<Rightarrow> pmem \<Rightarrow> pmem" where
  "deliver pt addr [] s = s"
| "deliver pt addr (b # bs) s = deliver pt (addr + 1) bs (snd (copyout pt addr [b] 1 s))"

lemma piperead_loop_spec:
  assumes "piperead_loop i pi addr n c k = (r, k')" and "pipe_ok (pipes k pi)"
  shows "\<exists>bs. pipe_ok (pipes k' pi) \<and> pipe_items (pipes k pi) = bs @ pipe_items (pipes k' pi) \<and>
    pm k' = deliver (p_pagetable (procs k i)) (addr + of_nat c) bs (pm k) \<and> (\<forall>pi'. pi' \<noteq> pi \<longrightarrow> pipes k' pi' = pipes k pi') \<and>
    procs k' = procs k \<and> (r = int (c + length bs) \<and> (pipe_items (pipes k' pi) = [] \<or> n \<le> r) \<or> bs \<noteq> [] \<and> r + 1 = int (c + length bs))"
  using assms
proof (induction "nat (n - int c)" arbitrary: c k rule: less_induct)
  case less
  obtain ch p where g: "pipe_get (pipes k pi) = (ch, p)" by fastforce
  let ?k1 = "upd_pipe pi (\<lambda>_. p) k" and ?pt = "p_pagetable (procs k i)"
  obtain q s where q: "copyout ?pt (addr + of_nat c) [ch] 1 (pm k) = (q, s)" by fastforce
  show ?case
  proof (cases "int c < n \<and> pi_nread (pipes k pi) \<noteq> pi_nwrite (pipes k pi)")
    case False
    then have "r = int c \<and> k' = k \<and> (pipe_items (pipes k pi) = [] \<or> n \<le> int c)"
      using less(2) unfolding piperead_loop.simps [of i pi addr n c k] by (auto simp: pipe_empty_iff split: if_splits)
    then show ?thesis using less(3) by (intro exI [of _ "[]"]) auto
  next
    case True
    then have ne: "pipe_items (pipes k pi) \<noteq> []" by (simp add: pipe_empty_iff)
    have items: "pipe_items (pipes k pi) = ch # pipe_items p" and ok1: "pipe_ok p"
      using pq.get_items [OF less(3) ne] pq.get_ok [OF less(3) ne] g by simp_all
    show ?thesis
    proof (cases "q = -1")
      case q1: True
      have "r = int c \<and> k' = ?k1\<lparr>pm := s\<rparr>"
        using less(2) True q1 unfolding piperead_loop.simps [of i pi addr n c k] by (simp add: g q)
      then show ?thesis using items ok1 q by (intro exI [of _ "[ch]"]) auto
    next
      case q1: False
      have run: "piperead_loop i pi addr n (c + 1) (?k1\<lparr>pm := s\<rparr>) = (r, k')"
        using less(2) True q1 unfolding piperead_loop.simps [of i pi addr n c k] by (simp add: g q)
      have dec: "nat (n - int (c + 1)) < nat (n - int c)" using True by simp
      obtain bs where bs: "pipe_ok (pipes k' pi)" "pipe_items p = bs @ pipe_items (pipes k' pi)"
        "pm k' = deliver ?pt (addr + of_nat (c + 1)) bs s" "\<forall>pi'. pi' \<noteq> pi \<longrightarrow> pipes k' pi' = pipes k pi'" "procs k' = procs k"
        "r = int (c + 1 + length bs) \<and> (pipe_items (pipes k' pi) = [] \<or> n \<le> r) \<or> bs \<noteq> [] \<and> r + 1 = int (c + 1 + length bs)"
        using less(1) [OF dec run] ok1 by auto
      have "pm k' = deliver ?pt (addr + of_nat c) (ch # bs) (pm k)" using bs(3) q by (simp add: algebra_simps)
      then show ?thesis using bs items by (intro exI [of _ "ch # bs"]) auto
    qed
  qed
qed

subsection \<open>Properties\<close>

text \<open>
  C29. A pipe is a first-in first-out queue of at most \<open>PIPESIZE\<close> bytes, across the wrap-around of its
  counters. A stretch of \<open>pipewrite\<close> appends bytes of the user's buffer, in order and from where the
  call had got to; it sleeps only when the queue is full, and a result other than \<open>-1\<close> is the number
  of bytes written. \<open>piperead\<close> removes bytes from the front and stores them in order at the user's
  address; its result is their number, or one less when the user's memory could not take the last.
\<close>

theorem pipe_refines_queue:
  assumes "pipe_ok (pipes k pi)"
  shows "(\<forall>out k'. pipewrite_loop i pi addr n c k = (out, k') \<longrightarrow>
      (\<exists>m. pipe_ok (pipes k' pi) \<and> pipe_items (pipes k' pi) = pipe_items (pipes k pi) @ map (user_byte k i addr) [c..<c + m] \<and>
        (case out of Return r \<Rightarrow> r = -1 \<or> r = int (c + m)
         | Sleep ch d \<Rightarrow> ch = ChanPipeWrite pi \<and> d = c + m \<and> length (pipe_items (pipes k' pi)) = PIPESIZE))) \<and>
    (\<forall>r k'. piperead i pi addr n k = (Return r, k') \<and> r \<noteq> -1 \<longrightarrow>
      (\<exists>bs. pipe_ok (pipes k' pi) \<and> pipe_items (pipes k pi) = bs @ pipe_items (pipes k' pi) \<and>
        pm k' = deliver (p_pagetable (procs k i)) addr bs (pm k) \<and>
        (r = int (length bs) \<and> (pipe_items (pipes k' pi) = [] \<or> n \<le> r) \<or> bs \<noteq> [] \<and> r + 1 = int (length bs))))"
proof (intro conjI allI impI)
  fix out k'
  assume "pipewrite_loop i pi addr n c k = (out, k')"
  from pipewrite_loop_spec [OF this assms] show "\<exists>m. pipe_ok (pipes k' pi) \<and>
      pipe_items (pipes k' pi) = pipe_items (pipes k pi) @ map (user_byte k i addr) [c..<c + m] \<and>
      (case out of Return r \<Rightarrow> r = -1 \<or> r = int (c + m)
       | Sleep ch d \<Rightarrow> ch = ChanPipeWrite pi \<and> d = c + m \<and> length (pipe_items (pipes k' pi)) = PIPESIZE)" by blast
next
  fix r k'
  assume a: "piperead i pi addr n k = (Return r, k') \<and> r \<noteq> -1"
  then have "\<not> (pi_nread (pipes k pi) = pi_nwrite (pipes k pi) \<and> pi_writeopen (pipes k pi))"
    by (auto simp: piperead_def split: if_splits)
  then obtain k1 where k1: "piperead_loop i pi addr n 0 k = (r, k1)" "k' = wakeup (Some i) (ChanPipeWrite pi) k1"
    using a by (auto simp: piperead_def split: prod.splits)
  from piperead_loop_spec [OF k1(1) assms] obtain bs where "pipe_ok (pipes k1 pi)" "pipe_items (pipes k pi) = bs @ pipe_items (pipes k1 pi)"
    "pm k1 = deliver (p_pagetable (procs k i)) addr bs (pm k)"
    "r = int (length bs) \<and> (pipe_items (pipes k1 pi) = [] \<or> n \<le> r) \<or> bs \<noteq> [] \<and> r + 1 = int (length bs)" by auto
  then show "\<exists>bs. pipe_ok (pipes k' pi) \<and> pipe_items (pipes k pi) = bs @ pipe_items (pipes k' pi) \<and>
        pm k' = deliver (p_pagetable (procs k i)) addr bs (pm k) \<and>
        (r = int (length bs) \<and> (pipe_items (pipes k' pi) = [] \<or> n \<le> r) \<or> bs \<noteq> [] \<and> r + 1 = int (length bs))"
    unfolding k1(2) by (intro exI [of _ bs]) simp
qed

text \<open>A pipe whose counters are about to wrap around, with two bytes in it.\<close>

definition sample_pipe :: kernel where
  "sample_pipe = blank_kernel\<lparr>pipes := (\<lambda>_. \<lparr>pi_data = (\<lambda>j. if j = 511 then 7 else 9), pi_nread = -1, pi_nwrite = 1,
     pi_readopen = True, pi_writeopen = True\<rparr>)\<rparr>"

lemma sample_pipe_items: "pipe_ok (pipes sample_pipe 0)" "pipe_items (pipes sample_pipe 0) = [7, 9]"
proof -
  show "pipe_ok (pipes sample_pipe 0)" by (simp add: pipe_ok_def sample_pipe_def)
  have n: "unat (1 - (-1) :: uint) = Suc (Suc 0)" "unat (-1 :: uint) mod 512 = 511" "Suc (unat (-1 :: uint)) mod 512 = 0"
    by (simp_all add: unsigned_minus_1_eq_mask mask_eq_exp_minus_1)
  have "pipe_items (pipes sample_pipe 0) = ring_window 512 (\<lambda>j. if j = 511 then 7 else 9) (unat (-1 :: uint)) (unat (1 - (-1) :: uint))"
    by (simp add: pipe_items_def sample_pipe_def word_ring_def)
  then show "pipe_items (pipes sample_pipe 0) = [7, 9]" unfolding n(1) ring_window_Suc_left n(2,3) by simp
qed

theorem pipe_refines_queue_witness:
  "\<exists>r k' bs. piperead 0 0 0 2 sample_pipe = (Return r, k') \<and> [7, 9] = bs @ pipe_items (pipes k' 0) \<and>
    pm k' = deliver 0 0 bs (pm sample_pipe)"
proof -
  have ne: "pi_nread (pipes sample_pipe 0) \<noteq> pi_nwrite (pipes sample_pipe 0)" by (simp add: pipe_empty_iff sample_pipe_items)
  obtain r k1 where k1: "piperead_loop 0 0 0 2 0 sample_pipe = (r, k1)" by fastforce
  from piperead_loop_spec [OF k1 sample_pipe_items(1)] have "r \<noteq> -1" by auto
  moreover have run: "piperead 0 0 0 2 sample_pipe = (Return r, wakeup (Some 0) (ChanPipeWrite 0) k1)" using ne by (simp add: piperead_def k1)
  moreover have "p_pagetable (procs sample_pipe 0) = 0" by (simp add: sample_pipe_def blank_kernel_def blank_proc_def)
  ultimately show ?thesis
    using conjunct2 [OF pipe_refines_queue [OF sample_pipe_items(1), of 0 0 2 0], rule_format, OF conjI [OF run]] run
    by (auto simp: sample_pipe_items)
qed

end
