(* ===== verification/Console.thy ===== *)
theory Console
  imports Pipe
begin

section \<open>kernel/uart.c and kernel/console.c\<close>

text \<open>
  The uart driver and the console. Waiting for the transmitter in \<open>uartputc_sync\<close> is a loop that ends
  only if the device becomes idle, so this function and those that echo through it return an option.
  The spinning of a CPU after another one has panicked is not modelled, nor is the programming of the
  device registers in \<open>uartinit\<close>, nor the printing of \<open>procdump\<close> on control-P. \<open>self\<close> is the process
  that the CPU runs, if any.
\<close>

abbreviation (input) UART_TX_BUF_SIZE :: nat where "UART_TX_BUF_SIZE \<equiv> 32"
abbreviation (input) LSR_RX_READY :: byte where "LSR_RX_READY \<equiv> 1"
abbreviation (input) LSR_TX_IDLE :: byte where "LSR_TX_IDLE \<equiv> 32"

definition read_lsr :: "uart \<Rightarrow> byte \<times> uart" where
  "read_lsr u = ((u_lsr u (u_reads u) AND NOT LSR_RX_READY) OR (if u_in u \<noteq> [] then LSR_RX_READY else 0), u\<lparr>u_reads := u_reads u + 1\<rparr>)"

definition write_thr :: "byte \<Rightarrow> uart \<Rightarrow> uart" where
  "write_thr c u = u\<lparr>u_out := u_out u @ [c]\<rparr>"

definition uart_put :: "byte \<Rightarrow> uart \<Rightarrow> uart" where
  "uart_put c u = u\<lparr>uart_tx_buf := (uart_tx_buf u)(unat (uart_tx_w u) mod UART_TX_BUF_SIZE := c), uart_tx_w := uart_tx_w u + 1\<rparr>"

definition uart_get :: "uart \<Rightarrow> byte \<times> uart" where
  "uart_get u = (uart_tx_buf u (unat (uart_tx_r u) mod UART_TX_BUF_SIZE), u\<lparr>uart_tx_r := uart_tx_r u + 1\<rparr>)"

lemma wakeup_uart [simp]: "uart (wakeup self ch k) = uart k" "cons (wakeup self ch k) = cons k"
  by (simp_all add: wakeup_eq)

function uartstart :: "ptr \<Rightarrow> kernel \<Rightarrow> kernel" where
  "uartstart self k =
     (if uart_tx_w (uart k) = uart_tx_r (uart k) then k
      else
        let (lsr, u1) = read_lsr (uart k)
        in if lsr AND LSR_TX_IDLE = 0 then k\<lparr>uart := u1\<rparr>
           else
             let (c, u2) = uart_get u1;
                 k1 = wakeup self ChanUart (k\<lparr>uart := u2\<rparr>)
             in uartstart self (k1\<lparr>uart := write_thr c (uart k1)\<rparr>))"
  by pat_completeness auto
termination
proof (relation "measure (\<lambda>(self, k). unat (uart_tx_w (uart k) - uart_tx_r (uart k)))", goal_cases)
  case (2 self k x lsr u1 y c u2 k1)
  then show ?case using unat_window_dec [of "uart_tx_w (uart k)" "uart_tx_r (uart k)"]
    by (auto simp: read_lsr_def uart_get_def write_thr_def)
qed simp

declare uartstart.simps [simp del]

definition uartputc :: "nat \<Rightarrow> byte \<Rightarrow> kernel \<Rightarrow> (unit, unit) outcome \<times> kernel" where
  "uartputc i c k =
     (if uart_tx_w (uart k) = uart_tx_r (uart k) + of_nat UART_TX_BUF_SIZE then (Sleep ChanUart (), k)
      else (Return (), uartstart (Some i) (k\<lparr>uart := uart_put c (uart k)\<rparr>)))"

partial_function (option) wait_tx :: "uart \<Rightarrow> uart option" where
  "wait_tx u = (let (lsr, u1) = read_lsr u in if lsr AND LSR_TX_IDLE = 0 then wait_tx u1 else Some u1)"

definition uartputc_sync :: "byte \<Rightarrow> kernel \<Rightarrow> kernel option" where
  "uartputc_sync c k = map_option (\<lambda>u. k\<lparr>uart := write_thr c u\<rparr>) (wait_tx (uart k))"

subsection \<open>The console\<close>

abbreviation (input) BACKSPACE :: nat where "BACKSPACE \<equiv> 0x100"
abbreviation (input) INPUT_BUF_SIZE :: nat where "INPUT_BUF_SIZE \<equiv> 128"
abbreviation (input) CONSOLE :: nat where "CONSOLE \<equiv> 1"
abbreviation (input) Ctrl_P :: nat where "Ctrl_P \<equiv> 16"
abbreviation (input) Ctrl_U :: nat where "Ctrl_U \<equiv> 21"
abbreviation (input) Ctrl_H :: nat where "Ctrl_H \<equiv> 8"
abbreviation (input) Ctrl_D :: nat where "Ctrl_D \<equiv> 4"
abbreviation (input) Newline :: nat where "Newline \<equiv> 10"

definition consputc :: "nat \<Rightarrow> kernel \<Rightarrow> kernel option" where
  "consputc c k =
     (if c = BACKSPACE then Option.bind (uartputc_sync 8 k) (\<lambda>k1. Option.bind (uartputc_sync 32 k1) (uartputc_sync 8))
      else uartputc_sync (of_nat c) k)"

lemma consputc_cons: "consputc c k = Some k' \<Longrightarrow> cons k' = cons k"
  by (auto simp: consputc_def uartputc_sync_def bind_eq_Some_conv split: if_splits)

text \<open>
  \<open>consolewrite\<close> goes on, after it slept in \<open>uartputc\<close>, with the count and the character it had read.
\<close>

function consolewrite_loop :: "nat \<Rightarrow> bool \<Rightarrow> uint64 \<Rightarrow> int \<Rightarrow> nat \<Rightarrow> byte option \<Rightarrow> kernel \<Rightarrow> (int, nat \<times> byte option) outcome \<times> kernel" where
  "consolewrite_loop i user_src src n c pending k =
     (if int c < n then
        let (bs, r) = (case pending of Some ch \<Rightarrow> ([ch], 0) | None \<Rightarrow> either_copyin i user_src (src + of_nat c) 1 k)
        in if r = -1 then (Return (int c), k)
           else case uartputc i (hd bs) k of
                  (Sleep ch _, k1) \<Rightarrow> (Sleep ch (c, Some (hd bs)), k1)
                | (Return _, k1) \<Rightarrow> consolewrite_loop i user_src src n (c + 1) None k1
      else (Return (int c), k))"
  by pat_completeness auto
termination by (relation "measure (\<lambda>(i, u, src, n, c, p, k). nat (n - int c))") auto

declare consolewrite_loop.simps [simp del]

definition consolewrite :: "nat \<Rightarrow> bool \<Rightarrow> uint64 \<Rightarrow> int \<Rightarrow> kernel \<Rightarrow> (int, nat \<times> byte option) outcome \<times> kernel" where
  "consolewrite i user_src src n k = consolewrite_loop i user_src src n 0 None k"

definition cons_get :: "console \<Rightarrow> byte \<times> console" where
  "cons_get c = (cons_buf c (unat (cons_r c) mod INPUT_BUF_SIZE), c\<lparr>cons_r := cons_r c + 1\<rparr>)"

text \<open>\<open>target\<close> is the n of the call, n what is left of it; a sleeping call goes on with these.\<close>

function consoleread_loop :: "nat \<Rightarrow> bool \<Rightarrow> uint64 \<Rightarrow> int \<Rightarrow> int \<Rightarrow> kernel \<Rightarrow> (int, int) outcome \<times> kernel" where
  "consoleread_loop i user_dst dst target n k =
     (if 0 < n then
        if cons_r (cons k) = cons_w (cons k) then
          if killed i k then (Return (-1), k) else (Sleep ChanCons n, k)
        else
          let (c, cn) = cons_get (cons k); k1 = k\<lparr>cons := cn\<rparr>
          in if c = of_nat Ctrl_D then
               (Return (target - n), if n < target then k1\<lparr>cons := (cons k1)\<lparr>cons_r := cons_r (cons k1) - 1\<rparr>\<rparr> else k1)
             else
               let (r, k2) = either_copyout i user_dst (dst + of_int (target - n)) [c] 1 k1
               in if r = -1 then (Return (target - n), k2)
                  else if c = of_nat Newline then (Return (target - (n - 1)), k2)
                  else consoleread_loop i user_dst dst target (n - 1) k2
      else (Return (target - n), k))"
  by pat_completeness auto
termination by (relation "measure (\<lambda>(i, u, dst, target, n, k). nat n)") auto

declare consoleread_loop.simps [simp del]

definition consoleread :: "nat \<Rightarrow> bool \<Rightarrow> uint64 \<Rightarrow> int \<Rightarrow> kernel \<Rightarrow> (int, int) outcome \<times> kernel" where
  "consoleread i user_dst dst n k = consoleread_loop i user_dst dst n n k"

function kill_line :: "kernel \<Rightarrow> kernel option" where
  "kill_line k =
     (let c = cons k
      in if cons_e c \<noteq> cons_w c \<and> cons_buf c (unat (cons_e c - 1) mod INPUT_BUF_SIZE) \<noteq> of_nat Newline then
           Option.bind (consputc BACKSPACE (k\<lparr>cons := c\<lparr>cons_e := cons_e c - 1\<rparr>\<rparr>)) kill_line
         else Some k)"
  by pat_completeness auto
termination
proof (relation "measure (\<lambda>k. unat (cons_e (cons k) - cons_w (cons k)))", goal_cases)
  case (2 k c k1)
  then have k1: "cons_e (cons k1) = cons_e (cons k) - 1" "cons_w (cons k1) = cons_w (cons k)" using consputc_cons by fastforce+
  have e: "cons_e (cons k) - 1 - cons_w (cons k) = cons_e (cons k) - (cons_w (cons k) + 1)" by simp
  show ?case unfolding in_measure k1 e using 2 unat_window_dec [of "cons_e (cons k)" "cons_w (cons k)"] by simp
qed simp

declare kill_line.simps [simp del]

definition cons_store :: "byte \<Rightarrow> console \<Rightarrow> console" where
  "cons_store c cn = cn\<lparr>cons_buf := (cons_buf cn)(unat (cons_e cn) mod INPUT_BUF_SIZE := c), cons_e := cons_e cn + 1\<rparr>"

definition consoleintr :: "ptr \<Rightarrow> nat \<Rightarrow> kernel \<Rightarrow> kernel option" where
  "consoleintr self c k =
     (if c = Ctrl_P then Some k
      else if c = Ctrl_U then kill_line k
      else if c = Ctrl_H \<or> c = 0x7f then
        if cons_e (cons k) \<noteq> cons_w (cons k) then
          consputc BACKSPACE (k\<lparr>cons := (cons k)\<lparr>cons_e := cons_e (cons k) - 1\<rparr>\<rparr>)
        else Some k
      else if c \<noteq> 0 \<and> cons_e (cons k) - cons_r (cons k) < of_nat INPUT_BUF_SIZE then
        let c1 = (if c = 13 then Newline else c)
        in Option.bind (consputc c1 k) (\<lambda>k1.
             let cn = cons_store (of_nat c1) (cons k1)
             in Some (if c1 = Newline \<or> c1 = Ctrl_D \<or> cons_e cn - cons_r cn = of_nat INPUT_BUF_SIZE then
                        wakeup self ChanCons (k1\<lparr>cons := cn\<lparr>cons_w := cons_e cn\<rparr>\<rparr>)
                      else k1\<lparr>cons := cn\<rparr>))
      else Some k)"

definition consoleinit :: "kernel \<Rightarrow> kernel" where
  "consoleinit k = k\<lparr>devsw := (devsw k)(CONSOLE := Some Console_device)\<rparr>"

definition uartgetc :: "kernel \<Rightarrow> nat option \<times> kernel" where
  "uartgetc k =
     (let (lsr, u1) = read_lsr (uart k)
      in if lsr AND LSR_RX_READY \<noteq> 0 then
           (case u_in u1 of c # cs \<Rightarrow> (Some (unat c), k\<lparr>uart := u1\<lparr>u_in := cs\<rparr>\<rparr>) | [] \<Rightarrow> (None, k\<lparr>uart := u1\<rparr>))
         else (None, k\<lparr>uart := u1\<rparr>))"

partial_function (option) uartintr_loop :: "ptr \<Rightarrow> kernel \<Rightarrow> kernel option" where
  "uartintr_loop self k =
     (let (c, k1) = uartgetc k
      in if c = None then Some k1 else Option.bind (consoleintr self (the c) k1) (uartintr_loop self))"

definition uartintr :: "ptr \<Rightarrow> kernel \<Rightarrow> kernel option" where
  "uartintr self k = map_option (uartstart self) (uartintr_loop self k)"

subsection \<open>The transmit buffer is a bounded queue\<close>

definition uart_ok :: "uart \<Rightarrow> bool" where
  "uart_ok u \<longleftrightarrow> uart_tx_w u - uart_tx_r u \<le> of_nat UART_TX_BUF_SIZE"

definition uart_items :: "uart \<Rightarrow> byte list" where
  "uart_items u = word_ring UART_TX_BUF_SIZE (uart_tx_buf u) (uart_tx_r u) (uart_tx_w u)"

lemma uart_length: "length (uart_items u) = unat (uart_tx_w u - uart_tx_r u)"
  by (simp add: uart_items_def)

lemma uart_empty_iff: "uart_tx_w u = uart_tx_r u \<longleftrightarrow> uart_items u = []"
  by (auto simp: uart_items_def word_ring_empty)

interpretation uq: bounded_queue uart_ok uart_items UART_TX_BUF_SIZE uart_put uart_get
proof
  fix u x
  show "uart_ok u \<Longrightarrow> length (uart_items u) \<le> UART_TX_BUF_SIZE"
    by (simp add: uart_ok_def uart_length word_le_nat_alt)
  show "uart_ok (uart_put x u)" if "length (uart_items u) < UART_TX_BUF_SIZE"
    using that unat_window_inc [of "uart_tx_w u" "uart_tx_r u"] by (simp add: uart_ok_def uart_put_def uart_length word_le_nat_alt)
  show "uart_items (uart_put x u) = uart_items u @ [x]" if "length (uart_items u) < UART_TX_BUF_SIZE"
    using that word_ring_put [of UART_TX_BUF_SIZE "uart_tx_w u" "uart_tx_r u"] by (simp add: uart_items_def uart_put_def)
  assume "uart_items u \<noteq> []"
  then have ne: "uart_tx_w u \<noteq> uart_tx_r u" by (simp add: uart_empty_iff)
  show "uart_ok (snd (uart_get u))" if "uart_ok u"
    using that unat_window_dec [OF ne] by (simp add: uart_ok_def uart_get_def word_le_nat_alt)
  show "uart_items u = fst (uart_get u) # uart_items (snd (uart_get u))"
    using word_ring_get [of UART_TX_BUF_SIZE, OF _ ne] by (simp add: uart_items_def uart_get_def)
qed

text \<open>What was sent and what is still queued, in this order: every byte accepted so far.\<close>

definition uart_stream :: "uart \<Rightarrow> byte list" where
  "uart_stream u = u_out u @ uart_items u"

lemma uart_frame:
  "uart_items (u\<lparr>u_reads := n\<rparr>) = uart_items u" "uart_ok (u\<lparr>u_reads := n\<rparr>) = uart_ok u"
  "uart_items (u\<lparr>u_out := xs\<rparr>) = uart_items u" "uart_ok (u\<lparr>u_out := xs\<rparr>) = uart_ok u"
  by (simp_all add: uart_items_def uart_ok_def)

lemma uartstart_stream:
  assumes "uart_ok (uart k)"
  shows "uart_ok (uart (uartstart self k)) \<and> uart_stream (uart (uartstart self k)) = uart_stream (uart k)"
  using assms
proof (induction "length (uart_items (uart k))" arbitrary: k rule: less_induct)
  case less
  let ?u = "uart k"
  obtain lsr u1 where l: "read_lsr ?u = (lsr, u1)" by fastforce
  have u1: "uart_items u1 = uart_items ?u" "uart_ok u1" "u_out u1 = u_out ?u"
    using l less(2) by (auto simp: read_lsr_def uart_frame)
  obtain c u2 where g: "uart_get u1 = (c, u2)" by fastforce
  consider "uart_items ?u = []" | "uart_items ?u \<noteq> []" "lsr AND LSR_TX_IDLE = 0" | "uart_items ?u \<noteq> []" "lsr AND LSR_TX_IDLE \<noteq> 0" by blast
  then show ?case
  proof cases
    case 1
    then have "uartstart self k = k" unfolding uartstart.simps [of self k] by (simp add: uart_empty_iff)
    then show ?thesis using less(2) by simp
  next
    case 2
    then have "uartstart self k = k\<lparr>uart := u1\<rparr>" unfolding uartstart.simps [of self k] by (simp add: uart_empty_iff l)
    then show ?thesis using u1 by (simp add: uart_stream_def)
  next
    case 3
    let ?k1 = "wakeup self ChanUart (k\<lparr>uart := u2\<rparr>)"
    let ?k2 = "?k1\<lparr>uart := write_thr c (uart ?k1)\<rparr>"
    have run: "uartstart self k = uartstart self ?k2"
      unfolding uartstart.simps [of self k] using 3 by (simp add: uart_empty_iff l g Let_def)
    have it: "uart_items u1 = c # uart_items u2" "uart_ok u2"
      using uq.get_items [of u1] uq.get_ok [of u1] u1 3 g by simp_all
    have o2: "u_out u2 = u_out u1" using g by (auto simp: uart_get_def)
    have "length (uart_items (uart ?k2)) < length (uart_items ?u)" "uart_ok (uart ?k2)" "uart_stream (uart ?k2) = uart_stream ?u"
      using it u1 o2 by (simp_all add: write_thr_def uart_frame uart_stream_def)
    from less(1) [OF this(1,2)] this(3) show ?thesis unfolding run by simp
  qed
qed

subsection \<open>The input buffer\<close>

text \<open>Typed characters up to w belong to complete lines, those from w to e can still be edited.\<close>

definition cons_ok :: "console \<Rightarrow> bool" where
  "cons_ok c \<longleftrightarrow> cons_e c - cons_r c \<le> of_nat INPUT_BUF_SIZE \<and> cons_w c - cons_r c \<le> cons_e c - cons_r c"

definition cons_lines :: "console \<Rightarrow> byte list" where
  "cons_lines c = word_ring INPUT_BUF_SIZE (cons_buf c) (cons_r c) (cons_w c)"

definition cons_edit :: "console \<Rightarrow> byte list" where
  "cons_edit c = word_ring INPUT_BUF_SIZE (cons_buf c) (cons_r c) (cons_e c)"

lemma cons_okD:
  assumes "cons_ok c"
  shows "unat (cons_e c - cons_r c) \<le> INPUT_BUF_SIZE" "unat (cons_w c - cons_r c) \<le> unat (cons_e c - cons_r c)"
  using assms by (simp_all add: cons_ok_def word_le_nat_alt)

lemma cons_erase_ok:
  assumes ok: "cons_ok c" and ne: "cons_e c \<noteq> cons_w c"
  shows "cons_ok (c\<lparr>cons_e := cons_e c - 1\<rparr>)"
proof -
  let ?d = "cons_e c - cons_r c"
  have w: "unat (cons_w c - cons_r c) < unat ?d"
  proof -
    have "cons_w c - cons_r c \<noteq> ?d" using ne by simp
    then have "unat (cons_w c - cons_r c) \<noteq> unat ?d" by (simp add: word_unat_eq_iff)
    then show ?thesis using cons_okD(2) [OF ok] by linarith
  qed
  have "?d \<noteq> 0" using w by auto
  then have "unat (?d - 1) = unat ?d - 1" by (rule unat_minus_one)
  moreover have e: "cons_e c - 1 - cons_r c = ?d - 1" by simp
  ultimately have "unat (cons_e c - 1 - cons_r c) = unat ?d - 1" by (simp only: e)
  then show ?thesis using w cons_okD(1) [OF ok] by (simp add: cons_ok_def word_le_nat_alt) linarith
qed

lemma kill_line_cons:
  assumes "kill_line k = Some k'" and "cons_ok (cons k)"
  shows "cons_ok (cons k') \<and> (\<exists>e. cons k' = (cons k)\<lparr>cons_e := e\<rparr>)"
  using assms
proof (induction "unat (cons_e (cons k) - cons_w (cons k))" arbitrary: k rule: less_induct)
  case less
  let ?c = "cons k" and ?k1 = "k\<lparr>cons := (cons k)\<lparr>cons_e := cons_e (cons k) - 1\<rparr>\<rparr>"
  show ?case
  proof (cases "cons_e ?c \<noteq> cons_w ?c \<and> cons_buf ?c (unat (cons_e ?c - 1) mod INPUT_BUF_SIZE) \<noteq> of_nat Newline")
    case False
    then have "k' = k" using less(2) unfolding kill_line.simps [of k] by auto
    then show ?thesis using less(3) by (auto intro!: exI [of _ "cons_e ?c"])
  next
    case True
    obtain k2 where k2: "consputc BACKSPACE ?k1 = Some k2" "kill_line k2 = Some k'"
      using less(2) True unfolding kill_line.simps [of k] by (auto simp: Let_def bind_eq_Some_conv)
    have c2: "cons k2 = ?c\<lparr>cons_e := cons_e ?c - 1\<rparr>" using consputc_cons [OF k2(1)] by simp
    have e: "cons_e ?c - 1 - cons_w ?c = cons_e ?c - (cons_w ?c + 1)" by simp
    have "unat (cons_e (cons k2) - cons_w (cons k2)) < unat (cons_e ?c - cons_w ?c)"
      using unat_window_dec [of "cons_e ?c" "cons_w ?c"] True by (simp add: c2 e)
    from less(1) [OF this k2(2)] cons_erase_ok [OF less(3)] True show ?thesis by (auto simp: c2)
  qed
qed

lemma cons_lines_e [simp]: "cons_lines (c\<lparr>cons_e := e\<rparr>) = cons_lines c"
  by (simp add: cons_lines_def)

lemma cons_store_spec:
  assumes ok: "cons_ok c" and room: "cons_e c - cons_r c < of_nat INPUT_BUF_SIZE"
  shows "cons_ok (cons_store ch c)" "cons_lines (cons_store ch c) = cons_lines c" "cons_edit (cons_store ch c) = cons_edit c @ [ch]"
    "cons_ok ((cons_store ch c)\<lparr>cons_w := cons_e (cons_store ch c)\<rparr>)"
proof -
  have n: "unat (cons_e c - cons_r c) < INPUT_BUF_SIZE" using room by (simp add: word_less_nat_alt)
  have inc: "unat (cons_e c + 1 - cons_r c) = Suc (unat (cons_e c - cons_r c))" by (rule unat_window_inc) (use n in simp)
  show "cons_ok (cons_store ch c)" "cons_ok ((cons_store ch c)\<lparr>cons_w := cons_e (cons_store ch c)\<rparr>)"
    using cons_okD [OF ok] n inc by (simp_all add: cons_ok_def cons_store_def word_le_nat_alt)
  show "cons_lines (cons_store ch c) = cons_lines c"
    using word_ring_upd_beyond [of INPUT_BUF_SIZE "cons_w c" "cons_r c" "cons_e c"] cons_okD(2) [OF ok] n
    by (simp add: cons_lines_def cons_store_def)
  show "cons_edit (cons_store ch c) = cons_edit c @ [ch]"
    using word_ring_put [of INPUT_BUF_SIZE "cons_e c" "cons_r c"] n by (simp add: cons_edit_def cons_store_def)
qed

lemma consoleintr_spec:
  assumes "consoleintr self c k = Some k'" and ok: "cons_ok (cons k)"
  shows "cons_ok (cons k') \<and> cons_r (cons k') = cons_r (cons k) \<and>
    (cons_lines (cons k') = cons_lines (cons k) \<or> (\<exists>ch. cons_lines (cons k') = cons_edit (cons k) @ [ch]))"
proof -
  consider "c = Ctrl_P" | "c = Ctrl_U" | "c = Ctrl_H \<or> c = 0x7f" | "c \<noteq> Ctrl_P" "c \<noteq> Ctrl_U" "\<not> (c = Ctrl_H \<or> c = 0x7f)" by blast
  then show ?thesis
  proof cases
    case 1
    then show ?thesis using assms by (simp add: consoleintr_def)
  next
    case 2
    then show ?thesis using assms kill_line_cons [of k k'] by (auto simp: consoleintr_def)
  next
    case 3
    then show ?thesis
    proof (cases "cons_e (cons k) = cons_w (cons k)")
      case False
      then have "consputc BACKSPACE (k\<lparr>cons := (cons k)\<lparr>cons_e := cons_e (cons k) - 1\<rparr>\<rparr>) = Some k'"
        using assms(1) 3 by (auto simp: consoleintr_def)
      from consputc_cons [OF this] show ?thesis using cons_erase_ok [OF ok False] by simp
    qed (use 3 assms in \<open>auto simp: consoleintr_def\<close>)
  next
    case 4
    show ?thesis
    proof (cases "c \<noteq> 0 \<and> cons_e (cons k) - cons_r (cons k) < of_nat INPUT_BUF_SIZE")
      case False
      then have "k' = k" using 4 assms(1) by (auto simp: consoleintr_def)
      then show ?thesis using ok by simp
    next
      case True
      define c1 where "c1 = (if c = 13 then Newline else c)"
      obtain k1 where k1: "consputc c1 k = Some k1" using assms(1) 4 True by (auto simp: consoleintr_def Let_def c1_def bind_eq_Some_conv)
      let ?cn = "cons_store (of_nat c1) (cons k)"
      note sp = cons_store_spec [OF ok conjunct2 [OF True], of "of_nat c1"]
      have "cons k' = ?cn\<lparr>cons_w := cons_e ?cn\<rparr> \<or> cons k' = ?cn"
        using assms(1) 4 True k1 consputc_cons [OF k1] by (auto simp: consoleintr_def Let_def c1_def [symmetric])
      moreover have "cons_lines (?cn\<lparr>cons_w := cons_e ?cn\<rparr>) = cons_edit ?cn" by (simp add: cons_lines_def cons_edit_def)
      moreover have "cons_r ?cn = cons_r (cons k)" by (simp add: cons_store_def)
      ultimately show ?thesis using sp by auto
    qed
  qed
qed

lemma cons_get_spec:
  assumes ok: "cons_ok c" and ne: "cons_r c \<noteq> cons_w c" and g: "cons_get c = (ch, c')"
  shows "cons_ok c'" "cons_lines c = ch # cons_lines c'"
proof -
  have "cons_w c \<noteq> cons_r c" using ne by simp
  note d = unat_window_dec [OF this]
  have "cons_e c \<noteq> cons_r c" using d cons_okD(2) [OF ok] by auto
  note e = unat_window_dec [OF this]
  show "cons_ok c'" using g d e cons_okD [OF ok] by (auto simp: cons_get_def cons_ok_def word_le_nat_alt)
  show "cons_lines c = ch # cons_lines c'"
    using g word_ring_get [of INPUT_BUF_SIZE "cons_w c" "cons_r c"] ne by (auto simp: cons_get_def cons_lines_def)
qed

lemma either_copyout_cons [simp]: "either_copyout i u d bs n k = (r, k') \<Longrightarrow> cons k' = cons k"
  by (auto simp: either_copyout_def split: prod.splits if_splits)

lemma consoleread_loop_spec:
  assumes "consoleread_loop i u dst target n k = (out, k')" and "cons_ok (cons k)"
  shows "cons_ok (cons k') \<and> (\<exists>bs. cons_lines (cons k) = bs @ cons_lines (cons k') \<and> length bs \<le> nat n)"
  using assms
proof (induction "nat n" arbitrary: n k rule: less_induct)
  case less
  show ?case
  proof (cases "0 < n \<and> cons_r (cons k) \<noteq> cons_w (cons k)")
    case False
    then have "k' = k" using less(2) unfolding consoleread_loop.simps [of i u dst target n k] by (auto split: if_splits)
    then show ?thesis using less(3) by simp
  next
    case True
    obtain c cn where g: "cons_get (cons k) = (c, cn)" by fastforce
    note gs = cons_get_spec [OF less(3) conjunct2 [OF True] g]
    let ?k1 = "k\<lparr>cons := cn\<rparr>"
    obtain r k2 where e: "either_copyout i u (dst + of_int (target - n)) [c] 1 ?k1 = (r, k2)" by fastforce
    have c2: "cons k2 = cn" using either_copyout_cons [OF e] by simp
    have undo: "cn\<lparr>cons_r := cons_r cn - 1\<rparr> = cons k" using g by (auto simp: cons_get_def)
    have step: "consoleread_loop i u dst target n k =
      (if c = of_nat Ctrl_D then (Return (target - n), if n < target then ?k1\<lparr>cons := cons k\<rparr> else ?k1)
       else if r = -1 then (Return (target - n), k2) else if c = of_nat Newline then (Return (target - (n - 1)), k2)
       else consoleread_loop i u dst target (n - 1) k2)"
      using True undo unfolding consoleread_loop.simps [of i u dst target n k] by (simp add: g e Let_def del: of_int_diff)
    show ?thesis
    proof (cases "c \<noteq> of_nat Ctrl_D \<and> r \<noteq> -1 \<and> c \<noteq> of_nat Newline")
      case False
      then have "cons k' = cn \<or> cons k' = cons k"
        using less(2) c2 unfolding step by (auto split: if_splits)
      then show ?thesis
      proof
        assume "cons k' = cn"
        then show ?thesis using gs True by (intro conjI exI [of _ "[c]"]) auto
      next
        assume "cons k' = cons k"
        then show ?thesis using less(3) by (intro conjI exI [of _ "[]"]) auto
      qed
    next
      case go: True
      have run: "consoleread_loop i u dst target (n - 1) k2 = (out, k')"
        using less(2) go unfolding step by simp
      have dec: "nat (n - 1) < nat n" using True by simp
      obtain bs where "cons_ok (cons k')" "cons_lines cn = bs @ cons_lines (cons k')" "length bs \<le> nat (n - 1)"
        using less(1) [OF dec run] gs(1) c2 by auto
      then show ?thesis using gs True by (intro conjI exI [of _ "c # bs"]) auto
    qed
  qed
qed

subsection \<open>Properties\<close>

text \<open>
  C30. No byte written to the console is lost, repeated or reordered: \<open>uartputc\<close> sleeps only when the
  transmit buffer is full and otherwise appends its byte to the stream of bytes sent and queued, and
  \<open>uartstart\<close>, which ends whatever the device answers, only moves bytes from the queue to the device.
\<close>

theorem uart_output_in_order:
  assumes "uart_ok (uart k)"
  shows "(\<forall>out k'. uartputc i c k = (out, k') \<longrightarrow> uart_ok (uart k') \<and>
      (case out of Return _ \<Rightarrow> uart_stream (uart k') = uart_stream (uart k) @ [c]
       | Sleep ch _ \<Rightarrow> k' = k \<and> length (uart_items (uart k)) = UART_TX_BUF_SIZE)) \<and>
    uart_ok (uart (uartstart self k)) \<and> uart_stream (uart (uartstart self k)) = uart_stream (uart k)"
proof (rule conjI [OF allI [OF allI [OF impI]]])
  fix out k'
  assume a: "uartputc i c k = (out, k')"
  show "uart_ok (uart k') \<and> (case out of Return _ \<Rightarrow> uart_stream (uart k') = uart_stream (uart k) @ [c]
       | Sleep ch _ \<Rightarrow> k' = k \<and> length (uart_items (uart k)) = UART_TX_BUF_SIZE)"
  proof (cases "uart_tx_w (uart k) = uart_tx_r (uart k) + of_nat UART_TX_BUF_SIZE")
    case True
    then show ?thesis using a assms by (auto simp: uartputc_def uart_length)
  next
    case False
    have "length (uart_items (uart k)) \<noteq> UART_TX_BUF_SIZE"
    proof
      assume "length (uart_items (uart k)) = UART_TX_BUF_SIZE"
      then have "uart_tx_w (uart k) - uart_tx_r (uart k) = 32" by (simp add: uart_length word_unat_eq_iff)
      then show False using False by (simp add: algebra_simps)
    qed
    then have room: "length (uart_items (uart k)) < UART_TX_BUF_SIZE" using uq.items_cap [OF assms] by linarith
    let ?k1 = "k\<lparr>uart := uart_put c (uart k)\<rparr>"
    have "uart_ok (uart ?k1)" "uart_stream (uart ?k1) = uart_stream (uart k) @ [c]"
      using uq.put_ok [OF assms room] uq.put_items [OF assms room] by (simp_all add: uart_stream_def uart_put_def)
    then show ?thesis using a False uartstart_stream [of ?k1 "Some i"] by (auto simp: uartputc_def)
  qed
qed (use uartstart_stream [OF assms] in blast)

theorem uart_output_in_order_witness:
  "uart_stream (uart (uartstart None blank_kernel)) = []"
proof -
  have "uart_ok (uart blank_kernel)" by (simp add: uart_ok_def blank_kernel_def)
  from uart_output_in_order [OF this, of 0 0 None] show ?thesis by (simp add: uart_stream_def uart_items_def word_ring_def blank_kernel_def)
qed

text \<open>
  C31. The console's line discipline: the input buffer never overflows, typing, erasing and killing a
  line change complete lines only by appending the edited one, and \<open>consoleread\<close> takes bytes from the
  front of the complete lines.
\<close>

theorem console_line_discipline:
  assumes "cons_ok (cons k)"
  shows "(\<forall>k'. consoleintr self c k = Some k' \<longrightarrow> cons_ok (cons k') \<and> cons_r (cons k') = cons_r (cons k) \<and>
      (cons_lines (cons k') = cons_lines (cons k) \<or> (\<exists>ch. cons_lines (cons k') = cons_edit (cons k) @ [ch]))) \<and>
    (\<forall>out k'. consoleread i u dst n k = (out, k') \<longrightarrow> cons_ok (cons k') \<and>
      (\<exists>bs. cons_lines (cons k) = bs @ cons_lines (cons k') \<and> length bs \<le> nat n))"
  using consoleintr_spec [of self c k, OF _ assms] consoleread_loop_spec [of i u dst n n k, OF _ assms]
  unfolding consoleread_def by blast

theorem console_line_discipline_witness:
  "\<exists>out k'. consoleread 0 True 0 5 blank_kernel = (out, k') \<and> cons_ok (cons k')"
proof -
  have ok: "cons_ok (cons blank_kernel)" by (simp add: cons_ok_def blank_kernel_def)
  obtain out k' where r: "consoleread 0 True 0 5 blank_kernel = (out, k')" by fastforce
  from conjunct2 [OF console_line_discipline [OF ok], rule_format, OF r] show ?thesis using r by blast
qed

end
