(* ===== verification/File.thy ===== *)
theory File
  imports Console
begin

section \<open>kernel/file.c, and pipealloc of pipe.c\<close>

text \<open>
  Open files. \<open>filealloc\<close> and \<open>filedup\<close> are with the processes. A read or write may go to a pipe or
  to the console, where it may have to sleep: then its outcome carries what the call there goes on
  with. The padding bytes of a \<open>struct stat\<close>, which the code does not set, are an argument.
\<close>

abbreviation (input) SEEK_SET :: cint where "SEEK_SET \<equiv> 0"
abbreviation (input) SEEK_CUR :: cint where "SEEK_CUR \<equiv> 1"
abbreviation (input) SEEK_END :: cint where "SEEK_END \<equiv> 2"

text \<open>What a sleeping call goes on with, in \<open>piperead\<close> or \<open>consoleread\<close>, in \<open>pipewrite\<close> or \<open>consolewrite\<close>.\<close>

datatype waiting = InPipe nat | InConsole int | InOutput "nat \<times> byte option"

text \<open>A pointer that is followed; null ends in a panic, in \<open>ilock\<close> one of its own.\<close>

definition deref :: "string \<Rightarrow> ptr \<Rightarrow> (nat \<Rightarrow> 'a res) \<Rightarrow> 'a res" where
  "deref msg p f = (case p of None \<Rightarrow> panic msg | Some x \<Rightarrow> f x)"

definition put_ip :: "nat \<Rightarrow> ptr \<Rightarrow> kernel \<Rightarrow> kernel res" where
  "put_ip i ip k = bindR (begin_op k) (\<lambda>k1. bindR (deref ''null dereference'' ip (\<lambda>p. iput i p k1)) (end_op i))"

definition fileclose :: "nat \<Rightarrow> nat \<Rightarrow> kernel \<Rightarrow> kernel res" where
  "fileclose i f k =
     (if f_ref (ftable k f) < 1 then panic ''fileclose''
      else
        let k1 = upd_file f (\<lambda>x. x\<lparr>f_ref := f_ref x - 1\<rparr>) k
        in if f_ref (ftable k1 f) > 0 then Inr k1
           else
             let ff = ftable k1 f; k2 = upd_file f (\<lambda>x. x\<lparr>f_ref := 0, f_type := FD_NONE\<rparr>) k1
             in if f_type ff = FD_PIPE then pipeclose i (f_pipe ff) (f_writable ff) k2
                else if f_type ff = FD_INODE \<or> f_type ff = FD_DEVICE then put_ip i (f_ip ff) k2
                else Inr k2)"

definition encode_stat :: "byte list \<Rightarrow> stat \<Rightarrow> byte list" where
  "encode_stat pad st = bytes_of_word 4 (st_dev st) @ bytes_of_word 4 (st_ino st) @ bytes_of_word 2 (st_type st) @
     bytes_of_word 2 (st_nlink st) @ take 4 pad @ bytes_of_word 8 (st_size st)"

definition filestat :: "byte list \<Rightarrow> nat \<Rightarrow> nat \<Rightarrow> uint64 \<Rightarrow> kernel \<Rightarrow> (int \<times> kernel) res" where
  "filestat pad i f addr k =
     (if f_type (ftable k f) = FD_INODE \<or> f_type (ftable k f) = FD_DEVICE then
        deref ''ilock'' (f_ip (ftable k f)) (\<lambda>ip.
          bindR (ilock i ip k) (\<lambda>k1.
            let st = stati (itable k1 ip)
            in bindR (iunlock i ip k1) (\<lambda>k2.
                 let (r, s) = copyout (p_pagetable (procs k2 i)) addr (encode_stat pad st) 24 (pm k2)
                 in if r < 0 then Inr (-1, k2\<lparr>pm := s\<rparr>) else Inr (0, k2\<lparr>pm := s\<rparr>))))
      else Inr (-1, k))"

text \<open>
  \<open>new_offset\<close> is an int: it is tested against 0 as signed, and against the size, a uint, as
  unsigned. The error returns leave the inode locked.
\<close>

definition seek_target :: "kfile \<Rightarrow> inode \<Rightarrow> cint \<Rightarrow> cint \<Rightarrow> cint option" where
  "seek_target f ip offset whence =
     (if whence = SEEK_SET then Some offset
      else if whence = SEEK_CUR then Some (f_off f + offset)
      else if whence = SEEK_END then Some (i_size ip + offset)
      else None)"

definition fileseek :: "nat \<Rightarrow> nat \<Rightarrow> cint \<Rightarrow> cint \<Rightarrow> kernel \<Rightarrow> (cint \<times> kernel) res" where
  "fileseek i f offset whence k =
     (if f_type (ftable k f) \<noteq> FD_INODE then Inr (-1, k)
      else bindR (begin_op k) (\<lambda>k1.
        deref ''ilock'' (f_ip (ftable k1 f)) (\<lambda>ip.
          bindR (ilock i ip k1) (\<lambda>k2.
            case seek_target (ftable k2 f) (itable k2 ip) offset whence of
              None \<Rightarrow> bindR (end_op i k2) (\<lambda>k3. Inr (-1, k3))
            | Some new_offset \<Rightarrow>
                if sint new_offset < 0 \<or> new_offset > i_size (itable k2 ip) then bindR (end_op i k2) (\<lambda>k3. Inr (-1, k3))
                else bindR (iunlock i ip (upd_file f (\<lambda>x. x\<lparr>f_off := new_offset\<rparr>) k2)) (\<lambda>k3.
                  bindR (end_op i k3) (\<lambda>k4. Inr (new_offset, k4)))))))"

text \<open>\<open>advance\<close>: \<open>f->off += r\<close> when the int r is positive.\<close>

definition advance :: "nat \<Rightarrow> uint \<Rightarrow> kernel \<Rightarrow> kernel" where
  "advance f r k = (if sint r > 0 then upd_file f (\<lambda>x. x\<lparr>f_off := f_off x + r\<rparr>) k else k)"

definition device_of :: "(nat \<Rightarrow> device option) \<Rightarrow> kfile \<Rightarrow> device option" where
  "device_of dsw f = (if sint (f_major f) < 0 \<or> sint (f_major f) \<ge> int NDEV then None else dsw (unat (f_major f)))"

definition fileread :: "nat \<Rightarrow> nat \<Rightarrow> uint64 \<Rightarrow> cint \<Rightarrow> kernel \<Rightarrow> ((int, waiting) outcome \<times> kernel) res" where
  "fileread i f addr n k =
     (let x = ftable k f
      in if \<not> f_readable x then Inr (Return (-1), k)
         else case f_type x of
           FD_PIPE \<Rightarrow> Inr (apfst (map_outcome id InPipe) (piperead i (f_pipe x) addr (sint n) k))
         | FD_DEVICE \<Rightarrow>
             (case device_of (devsw k) x of
                None \<Rightarrow> Inr (Return (-1), k)
              | Some Console_device \<Rightarrow> Inr (apfst (map_outcome id InConsole) (consoleread i True addr (sint n) k)))
         | FD_INODE \<Rightarrow>
             deref ''ilock'' (f_ip x) (\<lambda>ip.
               bindR (ilock i ip k) (\<lambda>k1.
                 bindR (readi i ip (User addr) (f_off x) n k1) (\<lambda>(r, _, k2).
                   bindR (iunlock i ip (advance f r k2)) (\<lambda>k3. Inr (Return (sint r), k3)))))
         | FD_NONE \<Rightarrow> panic ''fileread'')"

abbreviation (input) max_chunk :: int where
  "max_chunk \<equiv> int (((MAXOPBLOCKS - 1 - 1 - 2) div 2) * BSIZE)"

text \<open>The loop of \<open>filewrite\<close>, each turn a transaction: the number of bytes written before the first error.\<close>

function filewrite_loop :: "nat \<Rightarrow> nat \<Rightarrow> nat \<Rightarrow> uint64 \<Rightarrow> int \<Rightarrow> int \<Rightarrow> kernel \<Rightarrow> (int \<times> kernel) res" where
  "filewrite_loop i f ip addr n c k =
     (if c < n then
        let n1 = min (n - c) max_chunk
        in bindR (begin_op k) (\<lambda>k1.
             bindR (ilock i ip k1) (\<lambda>k2.
               bindR (writei i ip (User (addr + of_int c)) (f_off (ftable k2 f)) (of_int n1) k2) (\<lambda>(r, k3).
                 bindR (iunlock i ip (advance f r k3)) (\<lambda>k4.
                   bindR (end_op i k4) (\<lambda>k5.
                     if sint r \<noteq> n1 then Inr (c, k5) else filewrite_loop i f ip addr n (c + n1) k5)))))
      else Inr (c, k))"
  by pat_completeness auto
termination by (relation "measure (\<lambda>(i, f, ip, addr, n, c, k). nat (n - c))") auto

declare filewrite_loop.simps [simp del]

definition filewrite :: "nat \<Rightarrow> nat \<Rightarrow> uint64 \<Rightarrow> cint \<Rightarrow> kernel \<Rightarrow> ((int, waiting) outcome \<times> kernel) res" where
  "filewrite i f addr n k =
     (let x = ftable k f
      in if \<not> f_writable x then Inr (Return (-1), k)
         else case f_type x of
           FD_PIPE \<Rightarrow> Inr (apfst (map_outcome id InPipe) (pipewrite i (f_pipe x) addr (sint n) k))
         | FD_DEVICE \<Rightarrow>
             (case device_of (devsw k) x of
                None \<Rightarrow> Inr (Return (-1), k)
              | Some Console_device \<Rightarrow> Inr (apfst (map_outcome id InOutput) (consolewrite i True addr (sint n) k)))
         | FD_INODE \<Rightarrow>
             bindR (if sint n \<le> 0 then Inr (0, k)
                    else deref ''ilock'' (f_ip x) (\<lambda>ip. filewrite_loop i f ip addr (sint n) 0 k)) (\<lambda>(c, k1).
               Inr (Return (if c = sint n then sint n else -1), k1))
         | FD_NONE \<Rightarrow> panic ''filewrite'')"

subsection \<open>pipealloc\<close>

definition open_pipe :: "uint64 \<Rightarrow> bool \<Rightarrow> nat \<Rightarrow> kernel \<Rightarrow> kernel" where
  "open_pipe pi writable f =
     upd_file f (\<lambda>x. x\<lparr>f_type := FD_PIPE, f_readable := \<not> writable, f_writable := writable, f_pipe := pi\<rparr>)"

text \<open>The page of a new pipe is filled with the byte 5 by \<open>kalloc\<close>.\<close>

definition pipealloc :: "nat \<Rightarrow> kernel \<Rightarrow> ((nat \<times> nat) option \<times> kernel) res" where
  "pipealloc i k =
     (case filealloc k of
        (None, k1) \<Rightarrow> Inr (None, k1)
      | (Some f0, k1) \<Rightarrow>
          (case filealloc k1 of
             (None, k2) \<Rightarrow> bindR (fileclose i f0 k2) (\<lambda>k3. Inr (None, k3))
           | (Some f1, k2) \<Rightarrow>
               let (pi, s) = kalloc (pm k2); k3 = k2\<lparr>pm := s\<rparr>
               in if pi = 0 then
                    bindR (fileclose i f0 k3) (\<lambda>k4. bindR (fileclose i f1 k4) (\<lambda>k5. Inr (None, k5)))
                  else
                    let k4 = upd_pipe pi (\<lambda>_. \<lparr>pi_data = (\<lambda>_. 5), pi_nread = 0, pi_nwrite = 0,
                      pi_readopen = True, pi_writeopen = True\<rparr>) k3
                    in Inr (Some (f0, f1), open_pipe pi True f1 (open_pipe pi False f0 k4))))"

end
