(* ===== verification/Kfile.thy ===== *)
theory Kfile
  imports File
begin

section \<open>kernel/kfile.c: files of the kernel\<close>

text \<open>
  The kernel's own files, with which it stores the reports of traps, in a table of their own. The
  routines are those of file.c on kernel addresses and without the locking of the inode. \<open>kdevsw\<close>
  is never assigned, so no file of the kernel is a usable device.
\<close>

definition kdevsw :: "nat \<Rightarrow> device option" where
  "kdevsw = (\<lambda>_. None)"

definition upd_kfile :: "nat \<Rightarrow> (kfile \<Rightarrow> kfile) \<Rightarrow> kernel \<Rightarrow> kernel" where
  "upd_kfile f g k = k\<lparr>kftable := (kftable k)(f := g (kftable k f))\<rparr>"

definition kfilealloc :: "kernel \<Rightarrow> ptr \<times> kernel" where
  "kfilealloc k =
     (case List.find (\<lambda>f. f_ref (kftable k f) = 0) [0..<NFILE] of
        None \<Rightarrow> (None, k)
      | Some f \<Rightarrow> (Some f, upd_kfile f (\<lambda>x. x\<lparr>f_ref := 1\<rparr>) k))"

text \<open>
  The tail of \<open>kfilecreate\<close> from the new inode on: \<open>link_new\<close> makes the entries, \<open>Inr (False, _)\<close>
  standing for the jump to \<open>fail\<close>.
\<close>

definition link_new :: "nat \<Rightarrow> ushort \<Rightarrow> byte list \<Rightarrow> nat \<Rightarrow> nat \<Rightarrow> kernel \<Rightarrow> (bool \<times> kernel) res" where
  "link_new i type name dp ip k =
     bindR
       (if type = T_DIR then
          bindR (dirlink i ip [0x2e] (i_inum (itable k ip)) k) (\<lambda>(r, k1).
            if r < 0 then Inr (False, k1)
            else bindR (dirlink i ip [0x2e, 0x2e] (i_inum (itable k1 dp)) k1) (\<lambda>(r, k2). Inr (\<not> r < 0, k2)))
        else Inr (True, k)) (\<lambda>(ok, k3).
       if \<not> ok then Inr (False, k3)
       else bindR (dirlink i dp name (i_inum (itable k3 ip)) k3) (\<lambda>(r, k4). Inr (\<not> r < 0, k4)))"

definition kfilecreate :: "nat \<Rightarrow> byte list \<Rightarrow> ushort \<Rightarrow> ushort \<Rightarrow> ushort \<Rightarrow> kernel \<Rightarrow> (ptr \<times> kernel) res" where
  "kfilecreate i path type major minor k =
     bindR (nameiparent i path k) (\<lambda>(r, k1).
       case r of
         None \<Rightarrow> Inr (None, k1)
       | Some (dp, name) \<Rightarrow>
           bindR (ilock i dp k1) (\<lambda>k2.
             bindR (dirlookup i dp name k2) (\<lambda>(r, k3).
               case r of
                 Some (ip, _) \<Rightarrow>
                   bindR (iunlockput i dp k3) (\<lambda>k4.
                     bindR (ilock i ip k4) (\<lambda>k5.
                       if type = T_FILE \<and> (i_type (itable k5 ip) = T_FILE \<or> i_type (itable k5 ip) = T_DEVICE) then Inr (Some ip, k5)
                       else bindR (iunlockput i ip k5) (\<lambda>k6. Inr (None, k6))))
               | None \<Rightarrow>
                   bindR (ialloc i (i_dev (itable k3 dp)) type k3) (\<lambda>(r, k4).
                     case r of
                       None \<Rightarrow> bindR (iunlockput i dp k4) (\<lambda>k5. Inr (None, k5))
                     | Some ip \<Rightarrow>
                         bindR (ilock i ip k4) (\<lambda>k5.
                           bindR (iupdate i ip (upd_inode ip (\<lambda>x. x\<lparr>i_major := major, i_minor := minor, i_nlink := 1\<rparr>) k5)) (\<lambda>k6.
                             bindR (link_new i type name dp ip k6) (\<lambda>(ok, k7).
                               if ok then
                                 bindR (if type = T_DIR then iupdate i dp (upd_inode dp (\<lambda>x. x\<lparr>i_nlink := i_nlink x + 1\<rparr>) k7) else Inr k7) (\<lambda>k8.
                                   bindR (iunlockput i dp k8) (\<lambda>k9. Inr (Some ip, k9)))
                               else
                                 bindR (iupdate i ip (upd_inode ip (\<lambda>x. x\<lparr>i_nlink := 0\<rparr>) k7)) (\<lambda>k8.
                                   bindR (iunlockput i ip k8) (\<lambda>k9.
                                     bindR (iunlockput i dp k9) (\<lambda>k10. Inr (None, k10)))))))))))"

text \<open>The error returns of \<open>kfileseek\<close> leave the transaction open.\<close>

definition kfileseek :: "nat \<Rightarrow> nat \<Rightarrow> cint \<Rightarrow> cint \<Rightarrow> kernel \<Rightarrow> (cint \<times> kernel) res" where
  "kfileseek i f offset whence k =
     (if f_type (kftable k f) \<noteq> FD_INODE then Inr (-1, k)
      else bindR (begin_op k) (\<lambda>k1.
        deref ''null dereference'' (f_ip (kftable k1 f)) (\<lambda>ip.
          case seek_target (kftable k1 f) (itable k1 ip) offset whence of
            None \<Rightarrow> Inr (-1, k1)
          | Some new_offset \<Rightarrow>
              if sint new_offset < 0 \<or> new_offset > i_size (itable k1 ip) then Inr (-1, k1)
              else bindR (end_op i (upd_kfile f (\<lambda>x. x\<lparr>f_off := new_offset\<rparr>) k1)) (\<lambda>k2. Inr (new_offset, k2)))))"

definition kadvance :: "nat \<Rightarrow> uint \<Rightarrow> kernel \<Rightarrow> kernel" where
  "kadvance f r k = (if sint r > 0 then upd_kfile f (\<lambda>x. x\<lparr>f_off := f_off x + r\<rparr>) k else k)"

text \<open>The result carries the bytes that reached a destination \<open>Local\<close>, a variable of the kernel.\<close>

definition kfileread :: "nat \<Rightarrow> nat \<Rightarrow> io \<Rightarrow> uint64 \<Rightarrow> cint \<Rightarrow> kernel \<Rightarrow> ((int, waiting) outcome \<times> io \<times> kernel) res" where
  "kfileread i f dst addr n k =
     (let x = kftable k f
      in if \<not> f_readable x then Inr (Return (-1), dst, k)
         else case f_type x of
           FD_PIPE \<Rightarrow> (let (r, k1) = piperead i (f_pipe x) addr (sint n) k in Inr (map_outcome id InPipe r, dst, k1))
         | FD_DEVICE \<Rightarrow>
             (case device_of kdevsw x of
                None \<Rightarrow> Inr (Return (-1), dst, k)
              | Some Console_device \<Rightarrow> (let (r, k1) = consoleread i True addr (sint n) k in Inr (map_outcome id InConsole r, dst, k1)))
         | FD_INODE \<Rightarrow>
             deref ''null dereference'' (f_ip x) (\<lambda>ip.
               bindR (readi i ip dst (f_off x) n k) (\<lambda>(r, dst1, k1). Inr (Return (sint r), dst1, kadvance f r k1)))
         | FD_NONE \<Rightarrow> panic ''fileread'')"

text \<open>The part of a source from byte c on: \<open>addr + i\<close>.\<close>

definition io_from :: "io \<Rightarrow> int \<Rightarrow> io" where
  "io_from src c =
     (case src of User a \<Rightarrow> User (a + of_int c) | Kernel a \<Rightarrow> Kernel (a + of_int c) | Local bs \<Rightarrow> Local (drop (nat c) bs))"

function kfilewrite_loop :: "nat \<Rightarrow> nat \<Rightarrow> nat \<Rightarrow> io \<Rightarrow> int \<Rightarrow> int \<Rightarrow> kernel \<Rightarrow> (int \<times> kernel) res" where
  "kfilewrite_loop i f ip src n c k =
     (if c < n then
        let n1 = min (n - c) max_chunk
        in bindR (begin_op k) (\<lambda>k1.
             bindR (writei i ip (io_from src c) (f_off (kftable k1 f)) (of_int n1) k1) (\<lambda>(r, k2).
               bindR (end_op i (kadvance f r k2)) (\<lambda>k3.
                 if sint r \<noteq> n1 then Inr (c, k3) else kfilewrite_loop i f ip src n (c + n1) k3)))
      else Inr (c, k))"
  by pat_completeness auto
termination by (relation "measure (\<lambda>(i, f, ip, src, n, c, k). nat (n - c))") auto

declare kfilewrite_loop.simps [simp del]

definition kfilewrite :: "nat \<Rightarrow> nat \<Rightarrow> io \<Rightarrow> uint64 \<Rightarrow> cint \<Rightarrow> kernel \<Rightarrow> ((int, waiting) outcome \<times> kernel) res" where
  "kfilewrite i f src addr n k =
     (let x = kftable k f
      in if \<not> f_writable x then Inr (Return (-1), k)
         else case f_type x of
           FD_PIPE \<Rightarrow> Inr (apfst (map_outcome id InPipe) (pipewrite i (f_pipe x) addr (sint n) k))
         | FD_DEVICE \<Rightarrow>
             (case device_of kdevsw x of
                None \<Rightarrow> Inr (Return (-1), k)
              | Some Console_device \<Rightarrow> Inr (apfst (map_outcome id InOutput) (consolewrite i True addr (sint n) k)))
         | FD_INODE \<Rightarrow>
             bindR (if sint n \<le> 0 then Inr (0, k)
                    else deref ''null dereference'' (f_ip x) (\<lambda>ip. kfilewrite_loop i f ip src (sint n) 0 k)) (\<lambda>(c, k1).
               Inr (Return (if c = sint n then sint n else -1), k1))
         | FD_NONE \<Rightarrow> panic ''filewrite'')"

definition kfileclose :: "nat \<Rightarrow> nat \<Rightarrow> kernel \<Rightarrow> kernel res" where
  "kfileclose i f k =
     (if f_ref (kftable k f) < 1 then panic ''fileclose''
      else
        let k1 = upd_kfile f (\<lambda>x. x\<lparr>f_ref := f_ref x - 1\<rparr>) k
        in if f_ref (kftable k1 f) > 0 then Inr k1
           else
             let ff = kftable k1 f; k2 = upd_kfile f (\<lambda>x. x\<lparr>f_ref := 0, f_type := FD_NONE\<rparr>) k1
             in if f_type ff = FD_PIPE then pipeclose i (f_pipe ff) (f_writable ff) k2
                else if f_type ff = FD_INODE \<or> f_type ff = FD_DEVICE then put_ip i (f_ip ff) k2
                else Inr k2)"

end
