(* ===== verification/Syscall.thy ===== *)
theory Syscall
  imports Kfile
begin

section \<open>kernel/syscall.c: arguments of system calls\<close>

text \<open>
  How a system call gets its arguments: from the registers saved in the trapframe of the process, or
  through them from the memory of the process. A string is the list of its bytes before the NUL. The
  dispatch of the calls is in the theory \<open>Sysproc\<close>.
\<close>

definition fetchaddr :: "nat \<Rightarrow> uint64 \<Rightarrow> kernel \<Rightarrow> uint64 option" where
  "fetchaddr i addr k =
     (let p = procs k i
      in if addr \<ge> p_sz p \<or> addr + 8 > p_sz p then None
         else
           let (bs, r) = copyin (p_pagetable p) addr 8 (pm k)
           in if r \<noteq> 0 then None else Some (word_of_bytes bs))"

definition fetchstr :: "nat \<Rightarrow> uint64 \<Rightarrow> uint64 \<Rightarrow> kernel \<Rightarrow> byte list option" where
  "fetchstr i addr mx k =
     (let (bs, r) = copyinstr (p_pagetable (procs k i)) addr mx (pm k)
      in if r < 0 then None else Some (takeWhile (\<lambda>c. c \<noteq> 0) bs))"

definition argraw :: "nat \<Rightarrow> nat \<Rightarrow> kernel \<Rightarrow> uint64 res" where
  "argraw i n k =
     (if n \<le> 5 then Inr (load64 (mem (pm k)) (p_trapframe (procs k i) + TF_A0 + of_nat (8 * n)))
      else panic ''argraw'')"

definition argint :: "nat \<Rightarrow> nat \<Rightarrow> kernel \<Rightarrow> cint res" where
  "argint i n k = bindR (argraw i n k) (\<lambda>w. Inr (ucast w))"

definition argaddr :: "nat \<Rightarrow> nat \<Rightarrow> kernel \<Rightarrow> uint64 res" where
  "argaddr i n k = argraw i n k"

definition argstr :: "nat \<Rightarrow> nat \<Rightarrow> uint64 \<Rightarrow> kernel \<Rightarrow> byte list option res" where
  "argstr i n mx k = bindR (argaddr i n k) (\<lambda>addr. Inr (fetchstr i addr mx k))"

end
