(* ===== verification/Sysfile.thy ===== *)
theory Sysfile
  imports Syscall
begin

section \<open>kernel/sysfile.c: system calls on files\<close>

text \<open>
  The system calls that work on files. They are functions of the calling process and the state, and
  return what the code returns in a0. A read or write may sleep in a pipe or at the console.
\<close>

abbreviation (input) O_RDONLY :: cint where "O_RDONLY \<equiv> 0"
abbreviation (input) O_WRONLY :: cint where "O_WRONLY \<equiv> 1"
abbreviation (input) O_RDWR :: cint where "O_RDWR \<equiv> 2"
abbreviation (input) O_CREATE :: cint where "O_CREATE \<equiv> 0x200"
abbreviation (input) O_TRUNC :: cint where "O_TRUNC \<equiv> 0x400"
abbreviation (input) dot :: byte where "dot \<equiv> 0x2e"

subsection \<open>Descriptors\<close>

definition argfd :: "nat \<Rightarrow> nat \<Rightarrow> kernel \<Rightarrow> (nat \<times> nat) option res" where
  "argfd i n k =
     bindR (argint i n k) (\<lambda>fd.
       Inr (if sint fd < 0 \<or> sint fd \<ge> int NOFILE then None
            else map_option (Pair (unat fd)) (p_ofile (procs k i) (unat fd))))"

definition set_ofile :: "nat \<Rightarrow> nat \<Rightarrow> ptr \<Rightarrow> kernel \<Rightarrow> kernel" where
  "set_ofile i fd f = upd_proc i (\<lambda>p. p\<lparr>p_ofile := (p_ofile p)(fd := f)\<rparr>)"

definition fdalloc :: "nat \<Rightarrow> nat \<Rightarrow> kernel \<Rightarrow> nat option \<times> kernel" where
  "fdalloc i f k =
     (case List.find (\<lambda>fd. p_ofile (procs k i) fd = None) [0..<NOFILE] of
        None \<Rightarrow> (None, k)
      | Some fd \<Rightarrow> (Some fd, set_ofile i fd (Some f) k))"

definition sys_dup :: "nat \<Rightarrow> kernel \<Rightarrow> (int \<times> kernel) res" where
  "sys_dup i k =
     bindR (argfd i 0 k) (\<lambda>r.
       case r of
         None \<Rightarrow> Inr (-1, k)
       | Some (_, f) \<Rightarrow>
           (case fdalloc i f k of
              (None, k1) \<Rightarrow> Inr (-1, k1)
            | (Some fd, k1) \<Rightarrow> bindR (filedup f k1) (\<lambda>k2. Inr (int fd, k2))))"

text \<open>\<open>sys_seek\<close> does not test the descriptor; one outside the array is a read out of bounds.\<close>

definition sys_seek :: "nat \<Rightarrow> kernel \<Rightarrow> (int \<times> kernel) res" where
  "sys_seek i k =
     bindR (argint i 0 k) (\<lambda>fd. bindR (argint i 1 k) (\<lambda>off. bindR (argint i 2 k) (\<lambda>whence.
       if sint fd < 0 \<or> sint fd \<ge> int NOFILE then panic ''out of bounds''
       else case p_ofile (procs k i) (unat fd) of
              None \<Rightarrow> Inr (-1, k)
            | Some f \<Rightarrow> bindR (fileseek i f off whence k) (\<lambda>(r, k1). Inr (sint r, k1)))))"

definition sys_read :: "nat \<Rightarrow> kernel \<Rightarrow> ((int, waiting) outcome \<times> kernel) res" where
  "sys_read i k =
     bindR (argaddr i 1 k) (\<lambda>p. bindR (argint i 2 k) (\<lambda>n. bindR (argfd i 0 k) (\<lambda>r.
       case r of None \<Rightarrow> Inr (Return (-1), k) | Some (_, f) \<Rightarrow> fileread i f p n k)))"

definition sys_write :: "nat \<Rightarrow> kernel \<Rightarrow> ((int, waiting) outcome \<times> kernel) res" where
  "sys_write i k =
     bindR (argaddr i 1 k) (\<lambda>p. bindR (argint i 2 k) (\<lambda>n. bindR (argfd i 0 k) (\<lambda>r.
       case r of None \<Rightarrow> Inr (Return (-1), k) | Some (_, f) \<Rightarrow> filewrite i f p n k)))"

definition sys_close :: "nat \<Rightarrow> kernel \<Rightarrow> (int \<times> kernel) res" where
  "sys_close i k =
     bindR (argfd i 0 k) (\<lambda>r.
       case r of
         None \<Rightarrow> Inr (-1, k)
       | Some (fd, f) \<Rightarrow> bindR (fileclose i f (set_ofile i fd None k)) (\<lambda>k1. Inr (0, k1)))"

definition sys_fstat :: "byte list \<Rightarrow> nat \<Rightarrow> kernel \<Rightarrow> (int \<times> kernel) res" where
  "sys_fstat pad i k =
     bindR (argaddr i 1 k) (\<lambda>st. bindR (argfd i 0 k) (\<lambda>r.
       case r of None \<Rightarrow> Inr (-1, k) | Some (_, f) \<Rightarrow> filestat pad i f st k))"

subsection \<open>Links\<close>

text \<open>A path out of a transaction: \<open>end_op\<close> and the result r.\<close>

definition finish :: "nat \<Rightarrow> int \<Rightarrow> kernel \<Rightarrow> (int \<times> kernel) res" where
  "finish i r k = bindR (end_op i k) (\<lambda>k1. Inr (r, k1))"

definition set_nlink :: "nat \<Rightarrow> (ushort \<Rightarrow> ushort) \<Rightarrow> kernel \<Rightarrow> kernel" where
  "set_nlink ip f = upd_inode ip (\<lambda>x. x\<lparr>i_nlink := f (i_nlink x)\<rparr>)"

text \<open>\<open>bad\<close> of \<open>sys_link\<close>.\<close>

definition link_bad :: "nat \<Rightarrow> nat \<Rightarrow> kernel \<Rightarrow> (int \<times> kernel) res" where
  "link_bad i ip k =
     bindR (ilock i ip k) (\<lambda>k1.
       bindR (iupdate i ip (set_nlink ip (\<lambda>n. n - 1) k1)) (\<lambda>k2.
         bindR (iunlockput i ip k2) (finish i (-1))))"

definition link_paths :: "nat \<Rightarrow> byte list \<Rightarrow> byte list \<Rightarrow> kernel \<Rightarrow> (int \<times> kernel) res" where
  "link_paths i old new k =
     bindR (begin_op k) (\<lambda>k1. bindR (namei i old k1) (\<lambda>(r, k2).
       case r of
         None \<Rightarrow> finish i (-1) k2
       | Some ip \<Rightarrow>
           bindR (ilock i ip k2) (\<lambda>k3.
             if i_type (itable k3 ip) = T_DIR then bindR (iunlockput i ip k3) (finish i (-1))
             else bindR (iupdate i ip (set_nlink ip (\<lambda>n. n + 1) k3)) (\<lambda>k4. bindR (iunlock i ip k4) (\<lambda>k5.
               bindR (nameiparent i new k5) (\<lambda>(r, k6).
                 case r of
                   None \<Rightarrow> link_bad i ip k6
                 | Some (dp, name) \<Rightarrow>
                     bindR (ilock i dp k6) (\<lambda>k7.
                       bindR (if i_dev (itable k7 dp) \<noteq> i_dev (itable k7 ip) then Inr (-1, k7)
                              else dirlink i dp name (i_inum (itable k7 ip)) k7) (\<lambda>(r, k8).
                         if r < 0 then bindR (iunlockput i dp k8) (link_bad i ip)
                         else bindR (iunlockput i dp k8) (\<lambda>k9. bindR (iput i ip k9) (finish i 0))))))))))"

definition sys_link :: "nat \<Rightarrow> kernel \<Rightarrow> (int \<times> kernel) res" where
  "sys_link i k =
     bindR (argstr i 0 (of_nat MAXPATH) k) (\<lambda>r. case r of None \<Rightarrow> Inr (-1, k) | Some old \<Rightarrow>
       bindR (argstr i 1 (of_nat MAXPATH) k) (\<lambda>r. case r of None \<Rightarrow> Inr (-1, k) | Some new \<Rightarrow>
         link_paths i old new k))"

function isdirempty_loop :: "nat \<Rightarrow> nat \<Rightarrow> nat \<Rightarrow> nat \<Rightarrow> kernel \<Rightarrow> (bool \<times> kernel) res" where
  "isdirempty_loop i dp sz off k =
     (if off < sz then
        bindR (read_dirent ''isdirempty: readi'' i dp off k) (\<lambda>(de, k1).
          if de_inum de \<noteq> 0 then Inr (False, k1) else isdirempty_loop i dp sz (off + 16) k1)
      else Inr (True, k))"
  by pat_completeness auto
termination by (relation "measure (\<lambda>(i, dp, sz, off, k). sz - off)") auto

declare isdirempty_loop.simps [simp del]

definition isdirempty :: "nat \<Rightarrow> nat \<Rightarrow> kernel \<Rightarrow> (bool \<times> kernel) res" where
  "isdirempty i dp k = isdirempty_loop i dp (unat (i_size (itable k dp))) (2 * 16) k"

text \<open>\<open>unlink_entry\<close>: the rest of \<open>sys_unlink\<close> once both inodes are locked and ip may go.\<close>

definition unlink_entry :: "nat \<Rightarrow> nat \<Rightarrow> nat \<Rightarrow> nat \<Rightarrow> kernel \<Rightarrow> (int \<times> kernel) res" where
  "unlink_entry i dp ip off k =
     bindR (writei i dp (Local (replicate 16 0)) (of_nat off) 16 k) (\<lambda>(r, k1).
       if r \<noteq> 16 then panic ''unlink: writei''
       else
         bindR (if i_type (itable k1 ip) = T_DIR then iupdate i dp (set_nlink dp (\<lambda>n. n - 1) k1) else Inr k1) (\<lambda>k2.
           bindR (iunlockput i dp k2) (\<lambda>k3.
             bindR (iupdate i ip (set_nlink ip (\<lambda>n. n - 1) k3)) (\<lambda>k4.
               bindR (iunlockput i ip k4) (finish i 0)))))"

definition unlink_path :: "nat \<Rightarrow> byte list \<Rightarrow> kernel \<Rightarrow> (int \<times> kernel) res" where
  "unlink_path i path k =
     bindR (begin_op k) (\<lambda>k1. bindR (nameiparent i path k1) (\<lambda>(r, k2).
       case r of
         None \<Rightarrow> finish i (-1) k2
       | Some (dp, name) \<Rightarrow>
           bindR (ilock i dp k2) (\<lambda>k3.
             if namecmp name [dot] = 0 \<or> namecmp name [dot, dot] = 0 then bindR (iunlockput i dp k3) (finish i (-1))
             else bindR (dirlookup i dp name k3) (\<lambda>(r, k4).
               case r of
                 None \<Rightarrow> bindR (iunlockput i dp k4) (finish i (-1))
               | Some (ip, off) \<Rightarrow>
                   bindR (ilock i ip k4) (\<lambda>k5.
                     if sint (i_nlink (itable k5 ip)) < 1 then panic ''unlink: nlink < 1''
                     else bindR (if i_type (itable k5 ip) = T_DIR then isdirempty i ip k5 else Inr (True, k5)) (\<lambda>(e, k6).
                       if \<not> e then bindR (iunlockput i ip k6) (\<lambda>k7. bindR (iunlockput i dp k7) (finish i (-1)))
                       else unlink_entry i dp ip off k6))))))"

definition sys_unlink :: "nat \<Rightarrow> kernel \<Rightarrow> (int \<times> kernel) res" where
  "sys_unlink i k =
     bindR (argstr i 0 (of_nat MAXPATH) k) (\<lambda>r. case r of None \<Rightarrow> Inr (-1, k) | Some path \<Rightarrow> unlink_path i path k)"

subsection \<open>Creating and opening\<close>

text \<open>The part of \<open>create\<close> that makes a new inode ip of the given type in the directory dp; both are locked.\<close>

definition create_fail :: "nat \<Rightarrow> nat \<Rightarrow> nat \<Rightarrow> kernel \<Rightarrow> (ptr \<times> kernel) res" where
  "create_fail i dp ip k =
     bindR (iupdate i ip (set_nlink ip (\<lambda>_. 0) k)) (\<lambda>k1.
       bindR (iunlockput i ip k1) (\<lambda>k2. bindR (iunlockput i dp k2) (\<lambda>k3. Inr (None, k3))))"

definition create_new :: "nat \<Rightarrow> nat \<Rightarrow> byte list \<Rightarrow> ushort \<Rightarrow> ushort \<Rightarrow> ushort \<Rightarrow> nat \<Rightarrow> kernel \<Rightarrow> (ptr \<times> kernel) res" where
  "create_new i dp name type major minor ip k =
     bindR (iupdate i ip (upd_inode ip (\<lambda>x. x\<lparr>i_major := major, i_minor := minor, i_nlink := 1\<rparr>) k)) (\<lambda>k1.
       bindR (if type = T_DIR then dirlink i ip [dot] (i_inum (itable k1 ip)) k1 else Inr (0, k1)) (\<lambda>(r, k2).
         if r < 0 then create_fail i dp ip k2
         else bindR (if type = T_DIR then dirlink i ip [dot, dot] (i_inum (itable k2 dp)) k2 else Inr (0, k2)) (\<lambda>(r, k3).
           if r < 0 then create_fail i dp ip k3
           else bindR (dirlink i dp name (i_inum (itable k3 ip)) k3) (\<lambda>(r, k4).
             if r < 0 then create_fail i dp ip k4
             else bindR (if type = T_DIR then iupdate i dp (set_nlink dp (\<lambda>n. n + 1) k4) else Inr k4) (\<lambda>k5.
               bindR (iunlockput i dp k5) (\<lambda>k6. Inr (Some ip, k6)))))))"

definition create :: "nat \<Rightarrow> byte list \<Rightarrow> ushort \<Rightarrow> ushort \<Rightarrow> ushort \<Rightarrow> kernel \<Rightarrow> (ptr \<times> kernel) res" where
  "create i path type major minor k =
     bindR (nameiparent i path k) (\<lambda>(r, k1).
       case r of
         None \<Rightarrow> Inr (None, k1)
       | Some (dp, name) \<Rightarrow>
           bindR (ilock i dp k1) (\<lambda>k2. bindR (dirlookup i dp name k2) (\<lambda>(r, k3).
             case r of
               Some (ip, _) \<Rightarrow>
                 bindR (iunlockput i dp k3) (\<lambda>k4. bindR (ilock i ip k4) (\<lambda>k5.
                   if type = T_FILE \<and> (i_type (itable k5 ip) = T_FILE \<or> i_type (itable k5 ip) = T_DEVICE) then Inr (Some ip, k5)
                   else bindR (iunlockput i ip k5) (\<lambda>k6. Inr (None, k6))))
             | None \<Rightarrow>
                 bindR (ialloc i (i_dev (itable k3 dp)) type k3) (\<lambda>(r, k4).
                   case r of
                     None \<Rightarrow> bindR (iunlockput i dp k4) (\<lambda>k5. Inr (None, k5))
                   | Some ip \<Rightarrow> bindR (ilock i ip k4) (create_new i dp name type major minor ip)))))"

text \<open>
  The first part of \<open>sys_open\<close>: the locked inode of the path, or None after an error; and the part
  that sets up the file once it has a descriptor.
\<close>

definition open_inode :: "nat \<Rightarrow> byte list \<Rightarrow> cint \<Rightarrow> kernel \<Rightarrow> (ptr \<times> kernel) res" where
  "open_inode i path omode k =
     (if omode AND O_CREATE \<noteq> 0 then create i path T_FILE 0 0 k
      else bindR (namei i path k) (\<lambda>(r, k1).
        case r of
          None \<Rightarrow> Inr (None, k1)
        | Some ip \<Rightarrow>
            bindR (ilock i ip k1) (\<lambda>k2.
              if i_type (itable k2 ip) = T_DIR \<and> omode \<noteq> O_RDONLY then bindR (iunlockput i ip k2) (\<lambda>k3. Inr (None, k3))
              else Inr (Some ip, k2))))"

definition setup_file :: "cint \<Rightarrow> nat \<Rightarrow> inode \<Rightarrow> kfile \<Rightarrow> kfile" where
  "setup_file omode ip x f =
     (if i_type x = T_DEVICE then f\<lparr>f_type := FD_DEVICE, f_major := i_major x\<rparr> else f\<lparr>f_type := FD_INODE, f_off := 0\<rparr>)
     \<lparr>f_ip := Some ip, f_readable := (omode AND O_WRONLY = 0),
      f_writable := (omode AND O_WRONLY \<noteq> 0 \<or> omode AND O_RDWR \<noteq> 0)\<rparr>"

definition open_path :: "nat \<Rightarrow> byte list \<Rightarrow> cint \<Rightarrow> kernel \<Rightarrow> (int \<times> kernel) res" where
  "open_path i path omode k =
     bindR (begin_op k) (\<lambda>k1. bindR (open_inode i path omode k1) (\<lambda>(r, k2).
       case r of
         None \<Rightarrow> finish i (-1) k2
       | Some ip \<Rightarrow>
           let x = itable k2 ip
           in if i_type x = T_DEVICE \<and> (sint (i_major x) < 0 \<or> sint (i_major x) \<ge> int NDEV) then
                bindR (iunlockput i ip k2) (finish i (-1))
              else case filealloc k2 of
                (None, k3) \<Rightarrow> bindR (iunlockput i ip k3) (finish i (-1))
              | (Some f, k3) \<Rightarrow>
                  (case fdalloc i f k3 of
                     (None, k4) \<Rightarrow> bindR (fileclose i f k4) (\<lambda>k5. bindR (iunlockput i ip k5) (finish i (-1)))
                   | (Some fd, k4) \<Rightarrow>
                       bindR (if omode AND O_TRUNC \<noteq> 0 \<and> i_type (itable k4 ip) = T_FILE
                              then itrunc i ip (upd_file f (setup_file omode ip (itable k4 ip)) k4)
                              else Inr (upd_file f (setup_file omode ip (itable k4 ip)) k4)) (\<lambda>k5.
                         bindR (iunlock i ip k5) (finish i (int fd))))))"

definition sys_open :: "nat \<Rightarrow> kernel \<Rightarrow> (int \<times> kernel) res" where
  "sys_open i k =
     bindR (argint i 1 k) (\<lambda>omode. bindR (argstr i 0 (of_nat MAXPATH) k) (\<lambda>r.
       case r of None \<Rightarrow> Inr (-1, k) | Some path \<Rightarrow> open_path i path omode k))"

definition sys_mkdir :: "nat \<Rightarrow> kernel \<Rightarrow> (int \<times> kernel) res" where
  "sys_mkdir i k =
     bindR (begin_op k) (\<lambda>k1. bindR (argstr i 0 (of_nat MAXPATH) k1) (\<lambda>r.
       case r of
         None \<Rightarrow> finish i (-1) k1
       | Some path \<Rightarrow>
           bindR (create i path T_DIR 0 0 k1) (\<lambda>(r, k2).
             case r of None \<Rightarrow> finish i (-1) k2 | Some ip \<Rightarrow> bindR (iunlockput i ip k2) (finish i 0))))"

definition sys_mknod :: "nat \<Rightarrow> kernel \<Rightarrow> (int \<times> kernel) res" where
  "sys_mknod i k =
     bindR (begin_op k) (\<lambda>k1. bindR (argint i 1 k1) (\<lambda>major. bindR (argint i 2 k1) (\<lambda>minor. bindR (argstr i 0 (of_nat MAXPATH) k1) (\<lambda>r.
       case r of
         None \<Rightarrow> finish i (-1) k1
       | Some path \<Rightarrow>
           bindR (create i path T_DEVICE (ucast major) (ucast minor) k1) (\<lambda>(r, k2).
             case r of None \<Rightarrow> finish i (-1) k2 | Some ip \<Rightarrow> bindR (iunlockput i ip k2) (finish i 0))))))"

definition sys_chdir :: "nat \<Rightarrow> kernel \<Rightarrow> (int \<times> kernel) res" where
  "sys_chdir i k =
     bindR (begin_op k) (\<lambda>k1. bindR (argstr i 0 (of_nat MAXPATH) k1) (\<lambda>r.
       case r of
         None \<Rightarrow> finish i (-1) k1
       | Some path \<Rightarrow>
           bindR (namei i path k1) (\<lambda>(r, k2).
             case r of
               None \<Rightarrow> finish i (-1) k2
             | Some ip \<Rightarrow>
                 bindR (ilock i ip k2) (\<lambda>k3.
                   if i_type (itable k3 ip) \<noteq> T_DIR then bindR (iunlockput i ip k3) (finish i (-1))
                   else bindR (iunlock i ip k3) (\<lambda>k4.
                     bindR (deref ''null dereference'' (p_cwd (procs k4 i)) (\<lambda>cwd. iput i cwd k4)) (\<lambda>k5.
                       bindR (end_op i k5) (\<lambda>k6. Inr (0, upd_proc i (\<lambda>p. p\<lparr>p_cwd := Some ip\<rparr>) k6))))))))"

subsection \<open>pipe\<close>

definition sys_pipe :: "nat \<Rightarrow> kernel \<Rightarrow> (int \<times> kernel) res" where
  "sys_pipe i k =
     bindR (argaddr i 0 k) (\<lambda>fdarray. bindR (pipealloc i k) (\<lambda>(r, k1).
       case r of
         None \<Rightarrow> Inr (-1, k1)
       | Some (rf, wrf) \<Rightarrow>
           let close_both = (\<lambda>k. bindR (fileclose i rf k) (\<lambda>k. bindR (fileclose i wrf k) (\<lambda>k. Inr (-1, k))))
           in case fdalloc i rf k1 of
                (None, k2) \<Rightarrow> close_both k2
              | (Some fd0, k2) \<Rightarrow>
                  (case fdalloc i wrf k2 of
                     (None, k3) \<Rightarrow> close_both (set_ofile i fd0 None k3)
                   | (Some fd1, k3) \<Rightarrow>
                       let pt = p_pagetable (procs k3 i);
                           (r0, s0) = copyout pt fdarray (bytes_of_word 4 (of_nat fd0 :: cint)) 4 (pm k3);
                           (r1, s1) = (if r0 < 0 then (r0, s0) else copyout pt (fdarray + 4) (bytes_of_word 4 (of_nat fd1 :: cint)) 4 s0);
                           k4 = k3\<lparr>pm := s1\<rparr>
                       in if r1 < 0 then close_both (set_ofile i fd1 None (set_ofile i fd0 None k4)) else Inr (0, k4))))"

end
