(* ===== verification/Exec.thy ===== *)
theory Exec
  imports Sysfile
begin

section \<open>kernel/exec.c, and sys\_exec of sysfile.c\<close>

text \<open>
  Replacing the image of a process. The headers of the executable are decoded from the bytes that
  \<open>readi\<close> delivers. The arguments are the addresses of pages that hold strings. A jump to \<open>bad\<close> is
  the value None, with the size that \<open>bad\<close> frees.
\<close>

record elfhdr =
  elf_magic :: uint
  elf_entry :: uint64
  elf_phoff :: uint64
  elf_phnum :: ushort

record proghdr =
  ph_type :: uint
  ph_flags :: uint
  ph_off :: uint64
  ph_vaddr :: uint64
  ph_filesz :: uint64
  ph_memsz :: uint64

abbreviation (input) ELF_MAGIC :: uint where "ELF_MAGIC \<equiv> 0x464C457F"
abbreviation (input) ELF_PROG_LOAD :: uint where "ELF_PROG_LOAD \<equiv> 1"

definition field :: "nat \<Rightarrow> nat \<Rightarrow> byte list \<Rightarrow> 'a::len word" where
  "field off n bs = word_of_bytes (take n (drop off bs))"

definition decode_elfhdr :: "byte list \<Rightarrow> elfhdr" where
  "decode_elfhdr bs = \<lparr>elf_magic = field 0 4 bs, elf_entry = field 24 8 bs, elf_phoff = field 32 8 bs, elf_phnum = field 56 2 bs\<rparr>"

definition decode_proghdr :: "byte list \<Rightarrow> proghdr" where
  "decode_proghdr bs = \<lparr>ph_type = field 0 4 bs, ph_flags = field 4 4 bs, ph_off = field 8 8 bs, ph_vaddr = field 16 8 bs,
     ph_filesz = field 32 8 bs, ph_memsz = field 40 8 bs\<rparr>"

definition flags2perm :: "uint \<Rightarrow> uint64" where
  "flags2perm flags =
     (let perm = (if flags AND 1 \<noteq> 0 then PTE_X else 0)
      in if flags AND 2 \<noteq> 0 then perm OR PTE_W else perm)"

text \<open>
  \<open>loadseg\<close>. Its counter is a uint; it would wrap only for a segment of nearly 4 GB, far more than
  a file can hold, whose reading fails before.
\<close>

function loadseg_loop :: "nat \<Rightarrow> uint64 \<Rightarrow> uint64 \<Rightarrow> nat \<Rightarrow> uint \<Rightarrow> nat \<Rightarrow> nat \<Rightarrow> kernel \<Rightarrow> (int \<times> kernel) res" where
  "loadseg_loop i pagetable va ip offset sz c k =
     (if c < sz then
        let pa = walkaddr pagetable (va + of_nat c) (pm k); n = min (sz - c) 4096
        in if pa = 0 then panic ''loadseg: address should exist''
           else bindR (readi i ip (Kernel pa) (offset + of_nat c) (of_nat n) k) (\<lambda>(r, _, k1).
             if r \<noteq> of_nat n then Inr (-1, k1) else loadseg_loop i pagetable va ip offset sz (c + 4096) k1)
      else Inr (0, k))"
  by pat_completeness auto
termination by (relation "measure (\<lambda>(i, pt, va, ip, off, sz, c, k). sz - c)") auto

declare loadseg_loop.simps [simp del]

definition loadseg :: "nat \<Rightarrow> uint64 \<Rightarrow> uint64 \<Rightarrow> nat \<Rightarrow> uint \<Rightarrow> uint \<Rightarrow> kernel \<Rightarrow> (int \<times> kernel) res" where
  "loadseg i pagetable va ip offset sz k = loadseg_loop i pagetable va ip offset (unat sz) 0 k"

text \<open>
  \<open>read_struct\<close>: \<open>readi(ip, 0, &x, off, n)\<close> into a local variable; None if it reads fewer bytes.
\<close>

definition read_struct :: "nat \<Rightarrow> nat \<Rightarrow> uint \<Rightarrow> nat \<Rightarrow> kernel \<Rightarrow> (byte list option \<times> kernel) res" where
  "read_struct i ip off n k =
     bindR (readi i ip (Local []) off (of_nat n) k) (\<lambda>(r, dst, k1).
       Inr (case dst of Local bs \<Rightarrow> (if r \<noteq> of_nat n then None else Some bs) | _ \<Rightarrow> None, k1))"

text \<open>
  The loop over the program headers: n are left and the next is at off. The result says whether all
  were loaded, and the size so far.
\<close>

fun load_segments :: "nat \<Rightarrow> uint64 \<Rightarrow> nat \<Rightarrow> uint \<Rightarrow> nat \<Rightarrow> uint64 \<Rightarrow> kernel \<Rightarrow> (bool \<times> uint64 \<times> kernel) res" where
  "load_segments i pagetable ip off 0 sz k = Inr (True, sz, k)"
| "load_segments i pagetable ip off (Suc n) sz k =
     bindR (read_struct i ip off 56 k) (\<lambda>(r, k1).
       case r of
         None \<Rightarrow> Inr (False, sz, k1)
       | Some bs \<Rightarrow>
           let ph = decode_proghdr bs
           in if ph_type ph \<noteq> ELF_PROG_LOAD then load_segments i pagetable ip (off + 56) n sz k1
              else if ph_memsz ph < ph_filesz ph \<or> ph_vaddr ph + ph_memsz ph < ph_vaddr ph \<or> ph_vaddr ph mod PGSIZE \<noteq> 0 then
                Inr (False, sz, k1)
              else bindR (uvmalloc pagetable sz (ph_vaddr ph + ph_memsz ph) (flags2perm (ph_flags ph)) (pm k1)) (\<lambda>(sz1, s).
                let k2 = k1\<lparr>pm := s\<rparr>
                in if sz1 = 0 then Inr (False, sz, k2)
                   else bindR (loadseg i pagetable (ph_vaddr ph) ip (ucast (ph_off ph)) (ucast (ph_filesz ph)) k2) (\<lambda>(r, k3).
                     if r < 0 then Inr (False, sz1, k3) else load_segments i pagetable ip (off + 56) n sz1 k3)))"

subsection \<open>The stack\<close>

definition cstring_at :: "memory \<Rightarrow> uint64 \<Rightarrow> byte list" where
  "cstring_at m a = cstr (mem_read m a 4096)"

definition align16 :: "uint64 \<Rightarrow> uint64" where
  "align16 sp = sp - sp mod 16"

text \<open>The loop that pushes the strings: the new stack pointer and the addresses of the strings.\<close>

fun push_args :: "uint64 \<Rightarrow> uint64 \<Rightarrow> uint64 list \<Rightarrow> uint64 \<Rightarrow> uint64 list \<Rightarrow> pmem \<Rightarrow> (uint64 \<times> uint64 list) option \<times> pmem" where
  "push_args pagetable stackbase [] sp ustack s = (Some (sp, ustack), s)"
| "push_args pagetable stackbase (a # argv) sp ustack s =
     (if length ustack \<ge> MAXARG then (None, s)
      else
        let str = cstring_at (mem s) a @ [0]; sp1 = align16 (sp - of_nat (length str))
        in if sp1 < stackbase then (None, s)
           else
             let (r, s1) = copyout pagetable sp1 str (of_nat (length str)) s
             in if r < 0 then (None, s1) else push_args pagetable stackbase argv sp1 (ustack @ [sp1]) s1)"

text \<open>The strings, and below them the array of pointers, with \<open>argv[argc] = 0\<close>.\<close>

definition build_stack :: "uint64 \<Rightarrow> uint64 \<Rightarrow> uint64 \<Rightarrow> uint64 list \<Rightarrow> pmem \<Rightarrow> uint64 option \<times> pmem" where
  "build_stack pagetable stackbase sp argv s =
     (case push_args pagetable stackbase argv sp [] s of
        (None, s1) \<Rightarrow> (None, s1)
      | (Some (sp1, ustack), s1) \<Rightarrow>
          let n = (length ustack + 1) * 8; sp2 = align16 (sp1 - of_nat n)
          in if sp2 < stackbase then (None, s1)
             else
               let (r, s2) = copyout pagetable sp2 (concat (map (bytes_of_word 8) (ustack @ [0]))) (of_nat n) s1
               in if r < 0 then (None, s2) else (Some sp2, s2))"

definition last_elem :: "byte list \<Rightarrow> byte list" where
  "last_elem path = rev (takeWhile (\<lambda>c. c \<noteq> slash) (rev path))"

subsection \<open>exec\<close>

text \<open>The label \<open>bad\<close>, with the page table to free (0 if none) and the inode to put (None after it was).\<close>

definition exec_bad :: "nat \<Rightarrow> uint64 \<Rightarrow> uint64 \<Rightarrow> ptr \<Rightarrow> kernel \<Rightarrow> (int \<times> kernel) res" where
  "exec_bad i pagetable sz ip k =
     bindR (if pagetable \<noteq> 0 then proc_freepagetable pagetable sz (pm k) else Inr (pm k)) (\<lambda>s.
       let k1 = k\<lparr>pm := s\<rparr>
       in case ip of
            None \<Rightarrow> Inr (-1, k1)
          | Some p \<Rightarrow> bindR (iunlockput i p k1) (finish i (-1)))"

text \<open>From the end of the transaction on: the stack, and the switch to the new image.\<close>

definition commit_image :: "nat \<Rightarrow> byte list \<Rightarrow> uint64 \<Rightarrow> uint64 \<Rightarrow> uint64 \<Rightarrow> uint64 \<Rightarrow> pmem \<Rightarrow> kernel \<Rightarrow> kernel res" where
  "commit_image i path pagetable sz sp epc s k =
     (let p = procs k i; tf = p_trapframe p;
          m1 = store64 (mem s) (tf + TF_A0 + 8) sp;
          m2 = store64 m1 (tf + TF_EPC) epc;
          m3 = store64 m2 (tf + TF_SP) sp
      in bindR (proc_freepagetable (p_pagetable p) (p_sz p) (s\<lparr>mem := m3\<rparr>)) (\<lambda>s1.
           Inr (upd_proc i (\<lambda>p. p\<lparr>p_name := safestrcpy_bytes 16 (p_name p) (last_elem path), p_pagetable := pagetable, p_sz := sz\<rparr>)
             (k\<lparr>pm := s1\<rparr>))))"

definition exec_stack :: "nat \<Rightarrow> byte list \<Rightarrow> uint64 list \<Rightarrow> uint64 \<Rightarrow> uint64 \<Rightarrow> uint64 \<Rightarrow> kernel \<Rightarrow> (int \<times> kernel) res" where
  "exec_stack i path argv pagetable sz epc k =
     (let sz0 = PGROUNDUP sz
      in bindR (uvmalloc pagetable sz0 (sz0 + (USERSTACK + 1) * PGSIZE) PTE_W (pm k)) (\<lambda>(sz1, s).
           if sz1 = 0 then exec_bad i pagetable sz0 None (k\<lparr>pm := s\<rparr>)
           else bindR (uvmclear pagetable (sz1 - (USERSTACK + 1) * PGSIZE) s) (\<lambda>s1.
             case build_stack pagetable (sz1 - USERSTACK * PGSIZE) sz1 argv s1 of
               (None, s2) \<Rightarrow> exec_bad i pagetable sz1 None (k\<lparr>pm := s2\<rparr>)
             | (Some sp, s2) \<Rightarrow>
                 bindR (commit_image i path pagetable sz1 sp epc s2 k) (\<lambda>k1. Inr (int (length argv), k1)))))"

definition exec :: "uint64 \<Rightarrow> nat \<Rightarrow> byte list \<Rightarrow> uint64 list \<Rightarrow> kernel \<Rightarrow> (int \<times> kernel) res" where
  "exec trampoline i path argv k =
     bindR (begin_op k) (\<lambda>k1. bindR (namei i path k1) (\<lambda>(r, k2).
       case r of
         None \<Rightarrow> finish i (-1) k2
       | Some ip \<Rightarrow>
           bindR (ilock i ip k2) (\<lambda>k3. bindR (read_struct i ip 0 64 k3) (\<lambda>(r, k4).
             case r of
               None \<Rightarrow> exec_bad i 0 0 (Some ip) k4
             | Some bs \<Rightarrow>
                 let elf = decode_elfhdr bs
                 in if elf_magic elf \<noteq> ELF_MAGIC then exec_bad i 0 0 (Some ip) k4
                    else bindR (proc_pagetable trampoline (p_trapframe (procs k4 i)) (pm k4)) (\<lambda>(pagetable, s).
                      let k5 = k4\<lparr>pm := s\<rparr>
                      in if pagetable = 0 then exec_bad i 0 0 (Some ip) k5
                         else bindR (load_segments i pagetable ip (ucast (elf_phoff elf)) (unat (elf_phnum elf)) 0 k5) (\<lambda>(ok, sz, k6).
                           if \<not> ok then exec_bad i pagetable sz (Some ip) k6
                           else bindR (iunlockput i ip k6) (\<lambda>k7. bindR (end_op i k7) (\<lambda>k8.
                             exec_stack i path argv pagetable sz (elf_entry elf) k8))))))))"

subsection \<open>sys\_exec\<close>

text \<open>The loop that fetches the arguments, from number n on; with the pages allocated so far.\<close>

function fetch_args :: "nat \<Rightarrow> uint64 \<Rightarrow> nat \<Rightarrow> uint64 list \<Rightarrow> kernel \<Rightarrow> bool \<times> uint64 list \<times> kernel" where
  "fetch_args i uargv n argv k =
     (if n \<ge> MAXARG then (False, argv, k)
      else case fetchaddr i (uargv + of_nat (8 * n)) k of
          None \<Rightarrow> (False, argv, k)
        | Some uarg \<Rightarrow>
            if uarg = 0 then (True, argv, k)
            else
              let (a, s) = kalloc (pm k); k1 = k\<lparr>pm := s\<rparr>
              in if a = 0 then (False, argv, k1)
                 else case fetchstr i uarg PGSIZE k1 of
                     None \<Rightarrow> (False, argv @ [a], k1)
                   | Some str \<Rightarrow> fetch_args i uargv (n + 1) (argv @ [a]) (k1\<lparr>pm := (pm k1)\<lparr>mem := mem_write (mem (pm k1)) a (str @ [0])\<rparr>\<rparr>))"
  by pat_completeness auto
termination by (relation "measure (\<lambda>(i, u, n, argv, k). MAXARG - n)") auto

declare fetch_args.simps [simp del]

definition free_args :: "uint64 list \<Rightarrow> kernel \<Rightarrow> kernel res" where
  "free_args argv k = foldR (\<lambda>a k. bindR (kfree a (pm k)) (\<lambda>s. Inr (k\<lparr>pm := s\<rparr>))) argv k"

definition sys_exec :: "uint64 \<Rightarrow> nat \<Rightarrow> kernel \<Rightarrow> (int \<times> kernel) res" where
  "sys_exec trampoline i k =
     bindR (argaddr i 1 k) (\<lambda>uargv. bindR (argstr i 0 (of_nat MAXPATH) k) (\<lambda>r.
       case r of
         None \<Rightarrow> Inr (-1, k)
       | Some path \<Rightarrow>
           let (ok, argv, k1) = fetch_args i uargv 0 [] k
           in if ok then bindR (exec trampoline i path argv k1) (\<lambda>(ret, k2). bindR (free_args argv k2) (\<lambda>k3. Inr (ret, k3)))
              else bindR (free_args argv k1) (\<lambda>k2. Inr (-1, k2))))"

end
