(* ===== verification/Report.thy ===== *)
theory Report
  imports Kfile Procinfo
begin

section \<open>Trap reports: store\_trap and log\_trap of trap.c, sysrep of proc.c\<close>

text \<open>
  Every unexpected trap of a process is kept in a ring in memory and appended to the file
  \<open>/reports.bin\<close>, from which \<open>sysrep\<close> reads the reports back. A \<open>struct report\<close> is 304 bytes; the bytes
  of its array of ancestors beyond the count are not set by the code and are an argument (\<open>pad\<close>). A
  \<open>struct report_traps\<close> is here its bytes: ten reports, and the count at offset 3040.
\<close>

abbreviation (input) REPORT_SIZE :: nat where "REPORT_SIZE \<equiv> 304"

definition encode_report :: "byte list \<Rightarrow> report \<Rightarrow> byte list" where
  "encode_report pad r =
     strncpy_bytes 16 (r_pname r) @ bytes_of_word 4 (r_pid r) @
     take (4 * NPROC) (concat (map (bytes_of_word 4) (r_ancestors r)) @ pad) @
     bytes_of_word 4 (of_nat (length (r_ancestors r)) :: cint) @
     bytes_of_word 8 (r_scause r) @ bytes_of_word 8 (r_sepc r) @ bytes_of_word 8 (r_stval r)"

definition reports_path :: "byte list" where
  "reports_path = map of_char ''/reports.bin''"

text \<open>Bytes xs stored at an offset of a structure.\<close>

definition overlay :: "byte list \<Rightarrow> nat \<Rightarrow> byte list \<Rightarrow> byte list" where
  "overlay bs off xs = take off bs @ xs @ drop (off + length xs) bs"

subsection \<open>store\_trap and log\_trap\<close>

text \<open>
  The file is opened by hand: \<open>kfilecreate\<close> returns its inode locked, and nothing unlocks it. A file
  structure that was used before still has the inode of that time in \<open>f->ip\<close>.
\<close>

definition report_file :: "nat \<Rightarrow> kernel \<Rightarrow> (nat \<times> kernel) res" where
  "report_file i k =
     (case kfilealloc k of
        (None, _) \<Rightarrow> panic ''null dereference''
      | (Some f, k1) \<Rightarrow>
          let k2 = upd_kfile f (\<lambda>x. x\<lparr>f_type := FD_INODE\<rparr>) k1
          in bindR
               (if f_ip (kftable k2 f) = None then
                  bindR (begin_op k2) (\<lambda>k3. bindR (kfilecreate i reports_path T_FILE 0 0 k3) (\<lambda>(ip, k4).
                    end_op i (upd_kfile f (\<lambda>x. x\<lparr>f_ip := ip\<rparr>) k4)))
                else Inr k2) (\<lambda>k5.
               Inr (f, upd_kfile f (\<lambda>x. x\<lparr>f_off := 0, f_writable := True, f_ref := 1\<rparr>) k5)))"

definition store_trap :: "byte list \<Rightarrow> nat \<Rightarrow> report \<Rightarrow> kernel \<Rightarrow> kernel res" where
  "store_trap pad i r k =
     bindR (report_file i k) (\<lambda>(f, k1).
       let k2 = k1\<lparr>replist := store_report r (replist k1)\<rparr>;
           count = of_int (rl_count (replist k2)) :: cint
       in bindR (kfileseek i f 0 SEEK_SET k2) (\<lambda>(_, k3).
          bindR (kfilewrite i f (Local (bytes_of_word 4 count)) 0 4 k3) (\<lambda>(_, k4).
          bindR (kfileseek i f 0 SEEK_END k4) (\<lambda>(_, k5).
          bindR (kfilewrite i f (Local (encode_report pad r)) 0 (of_nat REPORT_SIZE) k5) (\<lambda>(_, k6).
            kfileclose i f k6)))))"

text \<open>The pids along the parent pointers; None if they never end.\<close>

partial_function (option) ancestors_of :: "kernel \<Rightarrow> ptr \<Rightarrow> cint list \<Rightarrow> cint list option" where
  "ancestors_of k parent acc =
     (case parent of
        None \<Rightarrow> Some acc
      | Some q \<Rightarrow> ancestors_of k (p_parent (procs k q)) (acc @ [p_pid (procs k q)]))"

definition log_trap :: "byte list \<Rightarrow> nat \<Rightarrow> uint64 \<Rightarrow> uint64 \<Rightarrow> uint64 \<Rightarrow> kernel \<Rightarrow> kernel res option" where
  "log_trap pad i scause sepc stval k =
     (case ancestors_of k (p_parent (procs k i)) [] of
        None \<Rightarrow> None
      | Some anc \<Rightarrow>
          Some (if length anc > NPROC then panic ''out of bounds''
                else store_trap pad i \<lparr>r_pname = strncpy_bytes 16 (p_name (procs k i)), r_pid = p_pid (procs k i), r_ancestors = anc,
                  r_scause = scause, r_sepc = sepc, r_stval = stval\<rparr> k))"

subsection \<open>sysrep\<close>

definition kread_local :: "nat \<Rightarrow> nat \<Rightarrow> nat \<Rightarrow> byte list \<Rightarrow> nat \<Rightarrow> kernel \<Rightarrow> (byte list \<times> kernel) res" where
  "kread_local i f n rt off k =
     bindR (kfileread i f (Local []) 0 (of_nat n) k) (\<lambda>(_, dst, k1).
       Inr (case dst of Local bs \<Rightarrow> overlay rt off bs | _ \<Rightarrow> rt, k1))"

definition rt_count_of :: "byte list \<Rightarrow> cint" where
  "rt_count_of rt = word_of_bytes (take 4 (drop 3040 rt))"

definition sysrep_read :: "nat \<Rightarrow> nat \<Rightarrow> byte list \<Rightarrow> kernel \<Rightarrow> (byte list \<times> kernel) res" where
  "sysrep_read i f rt k =
     bindR (kfileseek i f 0 SEEK_SET k) (\<lambda>(_, k1).
     bindR (kread_local i f 4 rt 3040 k1) (\<lambda>(rt1, k2).
     bindR (kfileseek i f (of_int (-10 * int REPORT_SIZE)) SEEK_END k2) (\<lambda>(_, k3).
     bindR (foldR (\<lambda>j (rt, k). if int j < sint (rt_count_of rt) then kread_local i f REPORT_SIZE rt (REPORT_SIZE * j) k else Inr (rt, k))
         [0..<REPORT_BUFFER_SIZE] (rt1, k3)) (\<lambda>(rt2, k4).
     bindR (kfileclose i f k4) (\<lambda>k5. Inr (rt2, k5))))))"

definition sysrep :: "nat \<Rightarrow> byte list \<Rightarrow> kernel \<Rightarrow> (byte list \<times> kernel) res" where
  "sysrep i rt k =
     (case kfilealloc k of
        (None, _) \<Rightarrow> panic ''null dereference''
      | (Some f, k1) \<Rightarrow>
          let k2 = upd_kfile f (\<lambda>x. x\<lparr>f_type := FD_INODE\<rparr>) k1
          in if f_ip (kftable k2 f) = None then
               bindR (begin_op k2) (\<lambda>k3. bindR (kfilecreate i reports_path T_FILE 0 0 k3) (\<lambda>(ip, k4).
                 bindR (deref ''iunlock'' ip (\<lambda>p. iunlockput i p (upd_kfile f (\<lambda>x. x\<lparr>f_ip := ip\<rparr>) k4))) (\<lambda>k5.
                   bindR (end_op i k5) (\<lambda>k6. Inr (rt, k6)))))
             else sysrep_read i f rt (upd_kfile f (\<lambda>x. x\<lparr>f_off := 0, f_readable := True, f_ref := 1\<rparr>) k2))"

end
