(* ===== verification/Sysproc.thy ===== *)
theory Sysproc
  imports Exec Report
begin

section \<open>kernel/sysproc.c, and the dispatch of system calls in syscall.c\<close>

text \<open>
  The system calls on processes. A structure that a call copies in, fills and copies back is here its
  bytes; where the copy from user memory fails, the bytes that were on the kernel's stack before
  (\<open>junk\<close>) take part. The addresses that the linker fixes, \<open>trampoline\<close> and \<open>forkret\<close>, are arguments.
\<close>

subsection \<open>Structures in user memory\<close>

definition fetch_struct :: "byte list \<Rightarrow> nat \<Rightarrow> uint64 \<Rightarrow> nat \<Rightarrow> kernel \<Rightarrow> byte list" where
  "fetch_struct junk i addr n k =
     (let (bs, _) = copyin (p_pagetable (procs k i)) addr (of_nat n) (pm k) in take n (bs @ drop (length bs) junk))"

definition store_struct :: "nat \<Rightarrow> uint64 \<Rightarrow> byte list \<Rightarrow> kernel \<Rightarrow> kernel" where
  "store_struct i addr bs k =
     k\<lparr>pm := snd (copyout (p_pagetable (procs k i)) addr bs (of_nat (length bs)) (pm k))\<rparr>"

definition state_code :: "procstate \<Rightarrow> uint" where
  "state_code s = (case s of UNUSED \<Rightarrow> 0 | USED \<Rightarrow> 1 | SLEEPING \<Rightarrow> 2 | RUNNABLE \<Rightarrow> 3 | RUNNING \<Rightarrow> 4 | ZOMBIE \<Rightarrow> 5)"

text \<open>A \<open>struct proc_info\<close>: what \<open>child_processes\<close> stores of it, and the usage, which only \<open>top\<close> does.\<close>

definition encode_info :: "proc_info \<Rightarrow> byte list" where
  "encode_info p = take 16 (pi_name p) @ bytes_of_word 4 (pi_pid p) @ bytes_of_word 4 (pi_ppid p) @ bytes_of_word 4 (state_code (pi_state p))"

definition encode_usage :: "cpu_usage \<Rightarrow> byte list" where
  "encode_usage u = bytes_of_word 4 (sum_of_ticks u) @ bytes_of_word 4 (start_tick u) @ bytes_of_word 4 (quota u)"

definition overlay_entries :: "nat \<Rightarrow> nat \<Rightarrow> byte list list \<Rightarrow> byte list \<Rightarrow> byte list" where
  "overlay_entries base sz es bs = fold (\<lambda>(j, e) bs. overlay bs (base + sz * j) e) (enumerate 0 es) bs"

definition blank_info :: proc_info where
  "blank_info = \<lparr>pi_name = [], pi_pid = 0, pi_ppid = 0, pi_state = UNUSED, pi_cpu_usage = \<lparr>sum_of_ticks = 0, start_tick = 0, quota = 0\<rparr>\<rparr>"

definition child_bytes :: "byte list \<Rightarrow> child_list \<Rightarrow> byte list" where
  "child_bytes kcp cp =
     (let n = unat (cp_count cp - word_of_bytes (take 4 kcp))
      in overlay_entries 4 40 (map (\<lambda>j. encode_info (cp_processes cp j)) [0..<n]) (overlay kcp 0 (bytes_of_word 4 (cp_count cp))))"

definition top_bytes :: "byte list \<Rightarrow> top_list \<Rightarrow> byte list" where
  "top_bytes kt t =
     overlay_entries 4 40 (map (\<lambda>j. encode_info (tp_processes t j) @ encode_usage (pi_cpu_usage (tp_processes t j))) [0..<unat (tp_count t)])
       (overlay kt 0 (bytes_of_word 4 (tp_count t)))"

text \<open>\<open>myrep\<close> appends after the count that the caller passed in.\<close>

definition myrep_bytes :: "byte list \<Rightarrow> byte list \<Rightarrow> report_traps \<Rightarrow> byte list" where
  "myrep_bytes pad krt rt =
     (let c0 = unat (rt_count_of krt)
      in overlay_entries (REPORT_SIZE * c0) REPORT_SIZE (map (\<lambda>j. encode_report pad (rt_reports rt j)) [c0..<unat (rt_count rt)])
           (overlay krt 3040 (bytes_of_word 4 (rt_count rt))))"

subsection \<open>The calls\<close>

text \<open>
  What a system call does: it returns a value, sleeps on a channel, leaves the CPU for good (\<open>exit\<close>, or
  a thread that returns to user space by itself when it runs again), or never ends.
\<close>

datatype sysresult = Value uint64 | Waits chan | Leaves | Endless

definition exit_proc :: "nat \<Rightarrow> cint \<Rightarrow> kernel \<Rightarrow> kernel res" where
  "exit_proc i status k = exit (fileclose i) (\<lambda>ip. put_ip i (Some ip)) i status k"

definition sys_exit :: "nat \<Rightarrow> kernel \<Rightarrow> kernel res" where
  "sys_exit i k = bindR (argint i 0 k) (\<lambda>n. exit_proc i n k)"

definition sys_getpid :: "nat \<Rightarrow> kernel \<Rightarrow> cint" where
  "sys_getpid i k = p_pid (procs k i)"

definition sys_fork :: "uint64 \<Rightarrow> uint64 \<Rightarrow> nat \<Rightarrow> kernel \<Rightarrow> (cint \<times> kernel) res" where
  "sys_fork trampoline forkret i k = fork trampoline forkret i k"

definition sys_wait :: "nat \<Rightarrow> kernel \<Rightarrow> ((cint, unit) outcome \<times> kernel) res" where
  "sys_wait i k = bindR (argaddr i 0 k) (\<lambda>p. wait i p k)"

definition sys_sbrk :: "nat \<Rightarrow> kernel \<Rightarrow> (uint64 \<times> kernel) res" where
  "sys_sbrk i k =
     bindR (argint i 0 k) (\<lambda>n.
       let addr = p_sz (procs k i)
       in bindR (growproc i n k) (\<lambda>(r, k1). Inr (if r < 0 then -1 else addr, k1)))"

text \<open>One turn of the loop of \<open>sys_sleep\<close>, for n ticks since \<open>ticks0\<close>.\<close>

definition sleep_turn :: "nat \<Rightarrow> uint \<Rightarrow> cint \<Rightarrow> kernel \<Rightarrow> (int, uint) outcome" where
  "sleep_turn i ticks0 n k =
     (if ticks k - ticks0 < n then
        if killed i k then Return (-1) else Sleep ChanTicks ticks0
      else Return 0)"

definition sys_sleep :: "nat \<Rightarrow> kernel \<Rightarrow> (int, uint) outcome res" where
  "sys_sleep i k =
     bindR (argint i 0 k) (\<lambda>n. Inr (sleep_turn i (ticks k) (if sint n < 0 then 0 else n) k))"

definition sys_kill :: "nat \<Rightarrow> kernel \<Rightarrow> (int \<times> kernel) res" where
  "sys_kill i k = bindR (argint i 0 k) (\<lambda>pid. Inr (kill pid k))"

definition sys_uptime :: "kernel \<Rightarrow> uint" where
  "sys_uptime k = ticks k"

definition sys_child_processes :: "byte list \<Rightarrow> nat \<Rightarrow> kernel \<Rightarrow> (sysresult \<times> kernel) res" where
  "sys_child_processes junk i k =
     bindR (argaddr i 0 k) (\<lambda>cp.
       let kcp = fetch_struct junk i cp 2564 k
       in case child_processes k i \<lparr>cp_count = word_of_bytes (take 4 kcp), cp_processes = (\<lambda>_. blank_info)\<rparr> of
            None \<Rightarrow> Inr (Endless, k)
          | Some r \<Rightarrow> Inr (Value 0, store_struct i cp (child_bytes kcp r) k))"

definition sys_myrep :: "byte list \<Rightarrow> byte list \<Rightarrow> nat \<Rightarrow> kernel \<Rightarrow> (int \<times> kernel) res" where
  "sys_myrep junk pad i k =
     bindR (argaddr i 0 k) (\<lambda>rt.
       let krt = fetch_struct junk i rt 3048 k
       in bindR (myrep i \<lparr>rt_reports = (\<lambda>_. blank_report), rt_count = rt_count_of krt\<rparr> k) (\<lambda>r.
            Inr (0, store_struct i rt (myrep_bytes pad krt r) k)))"

definition sys_sysrep :: "byte list \<Rightarrow> nat \<Rightarrow> kernel \<Rightarrow> (int \<times> kernel) res" where
  "sys_sysrep junk i k =
     bindR (argaddr i 0 k) (\<lambda>rt.
       bindR (sysrep i (fetch_struct junk i rt 3048 k) k) (\<lambda>(krt, k1). Inr (0, store_struct i rt krt k1)))"

definition sys_create_thread :: "nat \<Rightarrow> nat \<Rightarrow> kernel \<Rightarrow> (cint \<times> kernel) res" where
  "sys_create_thread c i k =
     bindR (argaddr i 0 k) (\<lambda>runner. bindR (argaddr i 1 k) (\<lambda>arg. bindR (argaddr i 2 k) (\<lambda>stack.
       create_thread c i runner arg stack k)))"

definition sys_join_thread :: "nat \<Rightarrow> nat \<Rightarrow> kernel \<Rightarrow> (cint option \<times> kernel) res" where
  "sys_join_thread c i k = bindR (argint i 0 k) (\<lambda>tid. join_thread c i tid k)"

definition sys_stop_thread :: "nat \<Rightarrow> nat \<Rightarrow> kernel \<Rightarrow> (cint option \<times> kernel) res" where
  "sys_stop_thread c i k = bindR (argint i 0 k) (\<lambda>tid. stop_thread exit_proc c i tid k)"

definition sys_cpu_usage :: "nat \<Rightarrow> kernel \<Rightarrow> cint" where
  "sys_cpu_usage i k = cpu_usage_of i k"

definition sys_top :: "byte list \<Rightarrow> nat \<Rightarrow> kernel \<Rightarrow> (int \<times> kernel) res" where
  "sys_top junk i k =
     bindR (argaddr i 0 k) (\<lambda>t.
       let kt = fetch_struct junk i t 2564 k
       in Inr (0, store_struct i t (top_bytes kt (top_info k \<lparr>tp_count = word_of_bytes (take 4 kt), tp_processes = (\<lambda>_. blank_info)\<rparr>)) k))"

definition sys_set_cpu_quota :: "nat \<Rightarrow> kernel \<Rightarrow> (sysresult \<times> kernel) res" where
  "sys_set_cpu_quota i k =
     bindR (argint i 0 k) (\<lambda>pid. bindR (argint i 1 k) (\<lambda>q.
       case set_cpu_quota i pid q k of
         None \<Rightarrow> Inr (Endless, k)
       | Some (r, k1) \<Rightarrow> Inr (Value (of_int r), k1)))"

definition sys_deadfork :: "uint64 \<Rightarrow> uint64 \<Rightarrow> nat \<Rightarrow> kernel \<Rightarrow> (cint \<times> kernel) res" where
  "sys_deadfork trampoline forkret i k = bindR (argint i 0 k) (\<lambda>ttl. deadfork trampoline forkret i ttl k)"

definition sys_ssched :: "nat \<Rightarrow> kernel \<Rightarrow> (int \<times> kernel) res" where
  "sys_ssched i k =
     bindR (argint i 0 k) (\<lambda>stype.
       Inr (0, k\<lparr>sched_type := (if stype = 0 then RR else if stype = 1 then MinCU else OtherSched)\<rparr>))"

subsection \<open>syscall\<close>

text \<open>The result of a handler in a0: an int is extended to 64 bits.\<close>

definition ret_int :: "(int \<times> kernel) res \<Rightarrow> (sysresult \<times> kernel) res" where
  "ret_int x = bindR x (\<lambda>(r, k). Inr (Value (of_int r), k))"

definition ret_cint :: "(cint \<times> kernel) res \<Rightarrow> (sysresult \<times> kernel) res" where
  "ret_cint x = bindR x (\<lambda>(r, k). Inr (Value (scast r), k))"

definition ret_thread :: "(cint option \<times> kernel) res \<Rightarrow> (sysresult \<times> kernel) res" where
  "ret_thread x = bindR x (\<lambda>(r, k). Inr (case r of None \<Rightarrow> Leaves | Some v \<Rightarrow> Value (scast v), k))"

definition ret_outcome :: "((int, 'l) outcome \<times> kernel) res \<Rightarrow> (sysresult \<times> kernel) res" where
  "ret_outcome x = bindR x (\<lambda>(r, k). Inr (case r of Return v \<Rightarrow> Value (of_int v) | Sleep ch _ \<Rightarrow> Waits ch, k))"

record linker =
  ln_trampoline :: uint64
  ln_forkret :: uint64
  ln_junk :: "byte list"

text \<open>The table \<open>syscalls\<close>, by number.\<close>

definition syscalls :: "linker \<Rightarrow> nat \<Rightarrow> nat \<Rightarrow> ((kernel \<Rightarrow> (sysresult \<times> kernel) res) option) list" where
  "syscalls ln c i =
     (let tr = ln_trampoline ln; fr = ln_forkret ln; junk = ln_junk ln
      in [None,
          Some (\<lambda>k. ret_cint (sys_fork tr fr i k)),
          Some (\<lambda>k. bindR (sys_exit i k) (\<lambda>k1. Inr (Leaves, k1))),
          Some (\<lambda>k. ret_outcome (bindR (sys_wait i k) (\<lambda>(r, k1). Inr (map_outcome sint id r, k1)))),
          Some (\<lambda>k. ret_int (sys_pipe i k)),
          Some (\<lambda>k. ret_outcome (sys_read i k)),
          Some (\<lambda>k. ret_int (sys_kill i k)),
          Some (\<lambda>k. ret_int (sys_exec tr i k)),
          Some (\<lambda>k. ret_int (sys_fstat junk i k)),
          Some (\<lambda>k. ret_int (sys_chdir i k)),
          Some (\<lambda>k. ret_int (sys_dup i k)),
          Some (\<lambda>k. Inr (Value (scast (sys_getpid i k)), k)),
          Some (\<lambda>k. bindR (sys_sbrk i k) (\<lambda>(r, k1). Inr (Value r, k1))),
          Some (\<lambda>k. ret_outcome (bindR (sys_sleep i k) (\<lambda>r. Inr (r, k)))),
          Some (\<lambda>k. Inr (Value (ucast (sys_uptime k)), k)),
          Some (\<lambda>k. ret_int (sys_open i k)),
          Some (\<lambda>k. ret_outcome (sys_write i k)),
          Some (\<lambda>k. ret_int (sys_mknod i k)),
          Some (\<lambda>k. ret_int (sys_unlink i k)),
          Some (\<lambda>k. ret_int (sys_link i k)),
          Some (\<lambda>k. ret_int (sys_mkdir i k)),
          Some (\<lambda>k. ret_int (sys_close i k)),
          Some (sys_child_processes junk i),
          Some (\<lambda>k. ret_int (sys_myrep junk junk i k)),
          Some (\<lambda>k. ret_int (sys_seek i k)),
          Some (\<lambda>k. ret_int (sys_sysrep junk i k)),
          Some (\<lambda>k. ret_cint (sys_create_thread c i k)),
          Some (\<lambda>k. ret_thread (sys_join_thread c i k)),
          Some (\<lambda>k. ret_thread (sys_stop_thread c i k)),
          Some (\<lambda>k. Inr (Value (scast (sys_cpu_usage i k)), k)),
          Some (\<lambda>k. ret_int (sys_top junk i k)),
          Some (sys_set_cpu_quota i),
          Some (\<lambda>k. ret_cint (sys_deadfork tr fr i k)),
          Some (\<lambda>k. ret_int (sys_ssched i k))])"

definition set_a0 :: "nat \<Rightarrow> uint64 \<Rightarrow> kernel \<Rightarrow> kernel" where
  "set_a0 i v k = k\<lparr>pm := (pm k)\<lparr>mem := store64 (mem (pm k)) (p_trapframe (procs k i) + TF_A0) v\<rparr>\<rparr>"

definition syscall :: "linker \<Rightarrow> nat \<Rightarrow> nat \<Rightarrow> kernel \<Rightarrow> (sysresult \<times> kernel) res" where
  "syscall ln c i k =
     (let num = ucast (load64 (mem (pm k)) (p_trapframe (procs k i) + TF_A7)) :: cint
      in case (if sint num > 0 \<and> sint num < int (length (syscalls ln c i)) then syscalls ln c i ! unat num else None) of
           Some f \<Rightarrow>
             bindR (f k) (\<lambda>(r, k1). Inr (r, case r of Value v \<Rightarrow> set_a0 i v k1 | _ \<Rightarrow> k1))
         | None \<Rightarrow> Inr (Value (-1), set_a0 i (-1) k))"

end
