(* ===== verification/Trap.thy ===== *)
theory Trap
  imports Sysproc
begin

section \<open>kernel/trap.c\<close>

text \<open>
  Traps from user space and from the kernel. The registers of the CPU that the handlers read and
  write are a record; \<open>irq\<close> is what \<open>plic_claim\<close> returns. The interrupt of the disk only wakes the
  process that waits for its request; requests are single steps of the model, so it changes nothing
  here. What the trap handlers print and the programming of the next timer interrupt are left out.
\<close>

record csrs =
  sstatus :: uint64
  sepc :: uint64
  scause :: uint64
  stval :: uint64
  satp :: uint64
  stvec :: uint64

abbreviation (input) SSTATUS_SPP :: uint64 where "SSTATUS_SPP \<equiv> 0x100"
abbreviation (input) SSTATUS_SPIE :: uint64 where "SSTATUS_SPIE \<equiv> 0x20"
abbreviation (input) UART0_IRQ :: nat where "UART0_IRQ \<equiv> 10"
abbreviation (input) VIRTIO0_IRQ :: nat where "VIRTIO0_IRQ \<equiv> 1"

subsection \<open>Interrupts\<close>

definition clockintr :: "nat \<Rightarrow> kernel \<Rightarrow> kernel" where
  "clockintr c k =
     (if c = 0 then
        let k1 = k\<lparr>ticks := ticks k + 1\<rparr>
        in drop_dead_processes (ticks k1) (wakeup (myproc c k1) ChanTicks k1)
      else k)"

text \<open>None: the handler of the console waits for the UART forever.\<close>

definition devintr :: "nat \<Rightarrow> uint64 \<Rightarrow> nat \<Rightarrow> kernel \<Rightarrow> (nat \<times> kernel) option" where
  "devintr c cause irq k =
     (if cause = 0x8000000000000009 then
        if irq = UART0_IRQ then Option.bind (uartintr (myproc c k) k) (\<lambda>k1. Some (1, k1)) else Some (1, k)
      else if cause = 0x8000000000000005 then Some (2, clockintr c k)
      else Some (0, k))"

text \<open>
  \<open>kerneltrap\<close>: the registers it leaves for the return, whether it gave up the CPU in between, and the
  state, in that case the one in which it called \<open>swtch\<close>.
\<close>

definition kerneltrap :: "nat \<Rightarrow> nat \<Rightarrow> csrs \<Rightarrow> kernel \<Rightarrow> (csrs \<times> bool \<times> kernel) res option" where
  "kerneltrap c irq r k =
     (if sstatus r AND SSTATUS_SPP = 0 then Some (panic ''kerneltrap: not from supervisor mode'')
      else if c_sie (kcpus k c) then Some (panic ''kerneltrap: interrupts enabled'')
      else case devintr c (scause r) irq k of
          None \<Rightarrow> None
        | Some (which_dev, k1) \<Rightarrow>
            Some (if which_dev = 0 then panic ''kerneltrap''
                  else if which_dev = 2 \<and> myproc c k1 \<noteq> None then bindR (yield c k1) (\<lambda>k2. Inr (r, True, k2))
                  else Inr (r, False, k1)))"

subsection \<open>Returning to user space\<close>

definition store_tf :: "nat \<Rightarrow> uint64 \<Rightarrow> uint64 \<Rightarrow> kernel \<Rightarrow> kernel" where
  "store_tf i off v k = k\<lparr>pm := (pm k)\<lparr>mem := store64 (mem (pm k)) (p_trapframe (procs k i) + off) v\<rparr>\<rparr>"

definition load_tf :: "nat \<Rightarrow> uint64 \<Rightarrow> kernel \<Rightarrow> uint64" where
  "load_tf i off k = load64 (mem (pm k)) (p_trapframe (procs k i) + off)"

text \<open>
  \<open>uservec_off\<close> is \<open>uservec - trampoline\<close> and \<open>usertrap_addr\<close> the address of \<open>usertrap\<close>. The result has
  the registers with which \<open>userret\<close> is entered and the page table it is given.
\<close>

definition MAKE_SATP :: "uint64 \<Rightarrow> uint64" where
  "MAKE_SATP pagetable = push_bit 60 8 OR drop_bit 12 pagetable"

definition usertrapret :: "uint64 \<Rightarrow> uint64 \<Rightarrow> nat \<Rightarrow> nat \<Rightarrow> csrs \<Rightarrow> kernel \<Rightarrow> csrs \<times> uint64 \<times> kernel" where
  "usertrapret uservec_off usertrap_addr c i r k =
     (let k1 = upd_cpu c (\<lambda>u. u\<lparr>c_sie := False\<rparr>) k;
          k2 = store_tf i TF_KERNEL_SATP (satp r) k1;
          k3 = store_tf i TF_KERNEL_SP (p_kstack (procs k2 i) + PGSIZE) k2;
          k4 = store_tf i TF_KERNEL_TRAP usertrap_addr k3;
          k5 = store_tf i TF_KERNEL_HARTID (of_nat c) k4
      in (r\<lparr>stvec := TRAMPOLINE + uservec_off, sstatus := (sstatus r AND NOT SSTATUS_SPP) OR SSTATUS_SPIE,
            sepc := load_tf i TF_EPC k5\<rparr>, MAKE_SATP (p_pagetable (procs k5 i)), k5))"

subsection \<open>usertrap\<close>

definition cleanup :: "nat \<Rightarrow> nat \<Rightarrow> kernel \<Rightarrow> (cint option \<times> kernel) res" where
  "cleanup c i k =
     (case c_thread (kcpus k c) of
        None \<Rightarrow> Inr (Some 0, k)
      | Some (q, j) \<Rightarrow> thread_cleanup exit_proc c i (t_id (p_threads (procs k q) j)) k)"

text \<open>
  Where \<open>usertrap\<close> gets to: back to user space, to a \<open>yield\<close> after which it returns there, into a system
  call that sleeps or leaves, or out of the process by \<open>exit\<close>. \<open>trap_end\<close> is what follows the three-way
  case: the test of \<open>killed\<close>, the \<open>yield\<close> after a timer interrupt and \<open>usertrapret\<close>.
\<close>

datatype trap_end = To_user csrs uint64 | Yields | In_call sysresult | Exits

record trapenv =
  te_linker :: linker
  te_uservec_off :: uint64
  te_usertrap :: uint64
  te_kernelvec :: uint64

definition to_user :: "trapenv \<Rightarrow> nat \<Rightarrow> nat \<Rightarrow> csrs \<Rightarrow> kernel \<Rightarrow> trap_end \<times> kernel" where
  "to_user env c i r k =
     (let (r1, pt, k1) = usertrapret (te_uservec_off env) (te_usertrap env) c i r k in (To_user r1 pt, k1))"

definition end_trap :: "trapenv \<Rightarrow> nat \<Rightarrow> nat \<Rightarrow> csrs \<Rightarrow> nat \<Rightarrow> kernel \<Rightarrow> (trap_end \<times> kernel) res" where
  "end_trap env c i r which_dev k =
     (if killed i k then bindR (exit_proc i (-1) k) (\<lambda>k1. Inr (Exits, k1))
      else if which_dev = 2 then bindR (yield c k) (\<lambda>k1. Inr (Yields, k1))
      else Inr (to_user env c i r k))"

definition trap_syscall :: "trapenv \<Rightarrow> nat \<Rightarrow> nat \<Rightarrow> csrs \<Rightarrow> kernel \<Rightarrow> (trap_end \<times> kernel) res" where
  "trap_syscall env c i r k =
     (if killed i k then bindR (exit_proc i (-1) k) (\<lambda>k1. Inr (Exits, k1))
      else
        let k1 = upd_cpu c (\<lambda>u. u\<lparr>c_sie := True\<rparr>) (store_tf i TF_EPC (load_tf i TF_EPC k + 4) k)
        in bindR (syscall (te_linker env) c i k1) (\<lambda>(res, k2).
             case res of Value _ \<Rightarrow> end_trap env c i r 0 k2 | _ \<Rightarrow> Inr (In_call res, k2)))"

definition usertrap :: "trapenv \<Rightarrow> byte list \<Rightarrow> nat \<Rightarrow> nat \<Rightarrow> nat \<Rightarrow> csrs \<Rightarrow> kernel \<Rightarrow> (trap_end \<times> kernel) res option" where
  "usertrap env pad c i irq r0 k0 =
     (if sstatus r0 AND SSTATUS_SPP \<noteq> 0 then Some (panic ''usertrap: not from user mode'')
      else
        let r = r0\<lparr>stvec := te_kernelvec env\<rparr>; k = store_tf i TF_EPC (sepc r) k0
        in if scause r = 8 then Some (trap_syscall env c i r k)
           else case devintr c (scause r) irq k of
               None \<Rightarrow> None
             | Some (which_dev, k1) \<Rightarrow>
                 if which_dev \<noteq> 0 then Some (end_trap env c i r which_dev k1)
                 else if load_tf i TF_RA k1 = -1 then
                   Some (bindR (cleanup c i k1) (\<lambda>(v, k2).
                     case v of None \<Rightarrow> Inr (In_call Leaves, k2) | Some _ \<Rightarrow> Inr (to_user env c i r k2)))
                 else map_option (\<lambda>x. bindR x (\<lambda>k2. end_trap env c i r which_dev (setkilled i k2)))
                   (log_trap pad i (scause r) (sepc r) (stval r) k1))"

end
