(* ===== verification/Transaction.thy ===== *)
theory Transaction
  imports Fs
begin

section \<open>File-system operations within a transaction\<close>

text \<open>
  The contract under which the functions of fs.c work. Within a transaction of process i, whose log
  has room for the blocks W, \<open>tx\<close> says that the cache and the log are consistent, that i holds
  exactly the buffers H, all of blocks in W, and that what it holds is logged or unchanged. \<open>view\<close>
  is the content of the blocks as the file system sees it. Reading, changing and releasing a buffer
  keep \<open>tx\<close>; the contracts of the operations on the block bitmap and on inodes follow from these.
\<close>

definition logged :: "kernel \<Rightarrow> uint set" where
  "logged k = lh_block (lg_lh (klog k)) ` {..<log_count (klog k)}"

definition tx :: "nat \<Rightarrow> nat set \<Rightarrow> uint set \<Rightarrow> kernel \<Rightarrow> bool" where
  "tx i H W k \<longleftrightarrow>
     (\<exists>P. logged_ok (p_pid (procs k i)) H P k \<and> (\<forall>b\<in>H. b \<in> P \<or> b_data (bufs k b) = disk k (b_blockno (bufs k b)))) \<and>
     1 \<le> lg_outstanding (klog k) \<and> finite W \<and> W \<inter> log_region (klog k) = {} \<and>
     card (logged k \<union> W) < log_room (klog k) \<and> (\<lambda>b. b_blockno (bufs k b)) ` H \<subseteq> W"

text \<open>What stays the same: everything but the cache, the log header and the scheduling state of processes.\<close>

definition txf :: "nat set \<Rightarrow> kernel \<Rightarrow> kernel \<Rightarrow> bool" where
  "txf H k k' \<longleftrightarrow> fs_frame k k' \<and> disk k' = disk k \<and> klog k' = (klog k)\<lparr>lg_lh := lg_lh (klog k')\<rparr> \<and> (\<forall>a\<in>H. same_buf k k' a)"

lemma txf_refl [simp]: "txf H k k"
  by (simp add: txf_def same_buf_def)

lemma txf_trans: "txf H k k' \<Longrightarrow> txf H' k' k'' \<Longrightarrow> H \<subseteq> H' \<Longrightarrow> txf H k k''"
  unfolding txf_def by (metis (no_types, lifting) fs_frame_trans log.surjective log.update_convs(6) same_buf_trans subsetD)

lemma txf_mono: "txf H k k' \<Longrightarrow> G \<subseteq> H \<Longrightarrow> txf G k k'"
  by (auto simp: txf_def)

lemma txfD:
  assumes "txf H k k'"
  shows "fs_frame k k'" "disk k' = disk k" "lg_start (klog k') = lg_start (klog k)" "lg_size (klog k') = lg_size (klog k)"
    "lg_outstanding (klog k') = lg_outstanding (klog k)" "lg_dev (klog k') = lg_dev (klog k)" "a \<in> H \<Longrightarrow> same_buf k k' a"
    "sb k' = sb k" "itable k' = itable k" "ftable k' = ftable k" "kftable k' = kftable k" "pm k' = pm k" "p_pid (procs k' j) = p_pid (procs k j)"
proof -
  have e: "klog k' = (klog k)\<lparr>lg_lh := lg_lh (klog k')\<rparr>" using assms by (simp add: txf_def)
  show "lg_start (klog k') = lg_start (klog k)" "lg_size (klog k') = lg_size (klog k)"
    "lg_outstanding (klog k') = lg_outstanding (klog k)" "lg_dev (klog k') = lg_dev (klog k)" by (subst e, simp)+
qed (use assms in \<open>auto simp: txf_def fs_frame_def\<close>)

lemma txf_region: "txf H k k' \<Longrightarrow> log_region (klog k') = log_region (klog k)"
  "txf H k k' \<Longrightarrow> log_room (klog k') = log_room (klog k)"
  by (simp_all add: log_region_def log_room_def log_block_def txfD(3,4))

lemma free_buffer:
  assumes c: "logged_ok pid H P k" and H: "(\<lambda>b. b_blockno (bufs k b)) ` H \<subseteq> W" and fin: "finite W"
    and room: "card (logged k \<union> W) < log_room (klog k)"
  shows "\<exists>b<NBUF. b \<notin> H \<union> P"
proof (rule ccontr)
  note co = logged_okD(1) [OF c]
  assume "\<not> (\<exists>b<NBUF. b \<notin> H \<union> P)"
  then have all: "{..<NBUF} \<subseteq> H \<union> P" by auto
  have HP: "finite (H \<union> P)" using cache_H [OF co] cache_P [OF co] by (intro finite_subset [of "H \<union> P" "{..<NBUF}"]) auto
  have inj: "inj_on (\<lambda>b. b_blockno (bufs k b)) (H \<union> P)"
  proof (rule inj_onI)
    fix a b
    assume "a \<in> H \<union> P" "b \<in> H \<union> P" "b_blockno (bufs k a) = b_blockno (bufs k b)"
    moreover have "x < NBUF" "b_dev (bufs k x) = ROOTDEV" if "x \<in> H \<union> P" for x
      using that cache_H [OF co] cache_P [OF co] cache_valid [OF co] cache_dev [OF co] by auto
    ultimately show "a = b" using cache_uniq [OF co, of a b] by simp
  qed
  have "(\<lambda>b. b_blockno (bufs k b)) ` (H \<union> P) \<subseteq> logged k \<union> W" using H logged_okD(3) [OF c] by (auto simp: logged_def image_Un)
  then have "card ((\<lambda>b. b_blockno (bufs k b)) ` (H \<union> P)) \<le> card (logged k \<union> W)"
    by (rule card_mono [rotated]) (simp add: logged_def fin)
  then have "card (H \<union> P) \<le> card (logged k \<union> W)" using card_image [OF inj] by simp
  moreover have "NBUF \<le> card (H \<union> P)" using card_mono [OF HP all] by simp
  ultimately show False using room log_room_le [of "klog k"] by simp
qed

lemma txD:
  assumes "tx i H W k"
  shows "1 \<le> lg_outstanding (klog k)" "finite W" "W \<inter> log_region (klog k) = {}" "card (logged k \<union> W) < log_room (klog k)"
    "b \<in> H \<Longrightarrow> b_blockno (bufs k b) \<in> W"
  using assms by (auto simp: tx_def)

lemma txE:
  assumes "tx i H W k"
  obtains P where "logged_ok (p_pid (procs k i)) H P k" "\<And>b. b \<in> H \<Longrightarrow> b \<in> P \<or> b_data (bufs k b) = disk k (b_blockno (bufs k b))"
  using assms by (auto simp: tx_def)

lemma txI:
  assumes "logged_ok (p_pid (procs k i)) H P k" and "\<And>b. b \<in> H \<Longrightarrow> b \<in> P \<or> b_data (bufs k b) = disk k (b_blockno (bufs k b))"
    and "1 \<le> lg_outstanding (klog k)" and "finite W" and "W \<inter> log_region (klog k) = {}" and "card (logged k \<union> W) < log_room (klog k)"
    and "\<And>b. b \<in> H \<Longrightarrow> b_blockno (bufs k b) \<in> W"
  shows "tx i H W k"
  using assms unfolding tx_def by blast

lemma tx_pm [simp]: "tx i H W (k\<lparr>pm := s\<rparr>) = tx i H W k"
  by (simp add: tx_def logged_def logged_ok_def cache_ok_def lru_list_def)

lemma view_pm [simp]: "view (k\<lparr>pm := s\<rparr>) = view k"
  by (rule view_same) (simp_all add: same_buf_def)

subsection \<open>Buffers\<close>

lemma tx_bread:
  assumes t: "tx i H W k" and bn: "bn \<in> W" and nh: "\<And>b. b \<in> H \<Longrightarrow> b_blockno (bufs k b) \<noteq> bn"
  shows "\<exists>b k'. bread i ROOTDEV bn k = Inr (b, k') \<and> tx i (insert b H) W k' \<and> b \<notin> H \<and> b_blockno (bufs k' b) = bn \<and>
    b_data (bufs k' b) = view k bn \<and> view k' = view k \<and> txf H k k' \<and> logged k' = logged k"
proof -
  obtain P where P: "logged_ok (p_pid (procs k i)) H P k" "\<And>b. b \<in> H \<Longrightarrow> b \<in> P \<or> b_data (bufs k b) = disk k (b_blockno (bufs k b))"
    using txE [OF t] by blast
  have "\<exists>b<NBUF. b \<notin> H \<union> P" by (rule free_buffer [OF P(1)]) (use txD [OF t] in auto)
  then obtain b k' where b: "bread i ROOTDEV bn k = Inr (b, k')" "bread_post (p_pid (procs k i)) H P bn k b k'"
    using bread_ok [OF logged_okD(1) [OF P(1)] refl, of bn] nh by auto
  note f = bp_frame [OF b(2)] and s = bp_same [OF b(2)]
  have bl: "b_blockno (bufs k' a) = b_blockno (bufs k a)" "b_data (bufs k' a) = b_data (bufs k a)" if "a \<in> H \<or> a \<in> P" for a
    using that s by (auto simp: same_buf_def)
  have "(\<lambda>b. b_blockno (bufs k' b)) ` P = (\<lambda>b. b_blockno (bufs k b)) ` P" using bl by (intro image_cong) auto
  then have L: "logged_ok (p_pid (procs k' i)) (insert b H) P k'"
    using logged_okD [OF P(1)] bp_ok [OF b(2)] by (simp add: logged_ok_def f)
  have "a \<in> P \<or> b_data (bufs k' a) = disk k' (b_blockno (bufs k' a))" if "a \<in> insert b H" for a
    using that P(2) [of a] bl [of a] bp_clean [OF b(2)] bp_block [OF b(2)] by (auto simp: f)
  moreover have "(\<lambda>b. b_blockno (bufs k' b)) ` insert b H \<subseteq> W" using txD(5) [OF t] bl bn bp_block(2) [OF b(2)] by auto
  ultimately have "tx i (insert b H) W k'" using L txD [OF t] by (auto simp: tx_def logged_def f)
  moreover have "txf H k k'" using f s by (simp add: txf_def fs_frame_def)
  ultimately show ?thesis using b(1) bp_block [OF b(2)] bp_new [OF b(2)] bp_view [OF b(2)] f by (auto simp: logged_def)
qed

lemma tx_brelse:
  assumes t: "tx i H W k" and b: "b \<in> H"
  shows "\<exists>k'. brelse i b k = Inr k' \<and> tx i (H - {b}) W k' \<and> view k' = view k \<and> txf H k k' \<and> logged k' = logged k"
proof -
  obtain P where P: "logged_ok (p_pid (procs k i)) H P k" "\<And>b. b \<in> H \<Longrightarrow> b \<in> P \<or> b_data (bufs k b) = disk k (b_blockno (bufs k b))"
    using txE [OF t] by blast
  obtain k' where k': "brelse i b k = Inr k'" "cache_ok (p_pid (procs k i)) (H - {b}) P k'" "buf_frame k k'" "view k' = view k"
    using brelse_ok [OF logged_okD(1) [OF P(1)] b refl P(2) [OF b]] by blast
  note f = buf_frameD [OF k'(3)]
  have bl: "b_blockno (bufs k' a) = b_blockno (bufs k a)" "b_data (bufs k' a) = b_data (bufs k a)" for a
    using f(5) [of a] by (simp_all add: same_buf_def)
  have "logged_ok (p_pid (procs k' i)) (H - {b}) P k'"
    using logged_okD [OF P(1)] k'(2) fs_frame_pid [OF f(1)] by (simp add: logged_ok_def f(2) bl)
  then have "tx i (H - {b}) W k'" using P(2) txD [OF t] by (auto simp: tx_def logged_def f bl)
  moreover have "txf H k k'" using f by (simp add: txf_def)
  ultimately show ?thesis using k' f by (auto simp: logged_def)
qed

lemma tx_log:
  assumes t: "tx i H W k" and b: "b \<in> H"
  shows "\<exists>k'. log_write b (set_data b d k) = Inr k' \<and> tx i H W k' \<and> view k' = (view k)(b_blockno (bufs k b) := d) \<and>
    txf (H - {b}) k k' \<and> b_blockno (bufs k' b) = b_blockno (bufs k b) \<and> b_data (bufs k' b) = d \<and>
    logged k' = insert (b_blockno (bufs k b)) (logged k)"
proof -
  obtain P where P: "logged_ok (p_pid (procs k i)) H P k" "\<And>b. b \<in> H \<Longrightarrow> b \<in> P \<or> b_data (bufs k b) = disk k (b_blockno (bufs k b))"
    using txE [OF t] by blast
  let ?k1 = "set_data b d k" and ?bn = "b_blockno (bufs k b)"
  note m = modify_ok [OF logged_okD(1) [OF P(1)] b, of d]
  have "b_blockno (bufs ?k1 a) = b_blockno (bufs k a)" for a by (simp add: set_data_def)
  then have P1: "logged_ok (p_pid (procs k i)) H P ?k1"
    using logged_okD [OF P(1)] m(1) by (simp only: logged_ok_def set_data_def upd_buf_simps(17))
  have W: "?bn \<in> W" by (rule txD(5) [OF t b])
  have inj: "card (logged k) = log_count (klog k)" unfolding logged_def
    using card_image [OF log_wfD(5) [OF logged_okD(2) [OF P(1)]]] by simp
  have "card (logged k) \<le> card (logged k \<union> W)" using txD(2) [OF t] by (intro card_mono) (auto simp: logged_def)
  then have room: "log_count (klog k) < log_room (klog k)" using txD(4) [OF t] inj by linarith
  obtain k' where k': "log_write b ?k1 = Inr k'" "logged_ok (p_pid (procs k i)) H (insert b P) k'" "view k' = view ?k1"
      "k' = ?k1\<lparr>klog := (klog ?k1)\<lparr>lg_lh := lg_lh (klog k')\<rparr>, bufs := bufs k'\<rparr>" "\<And>a. same_buf ?k1 k' a"
    using log_write_ok [OF P1 b] room txD(1,3) [OF t] W by (auto simp: set_data_def)
  have e: "procs k' = procs k" "disk k' = disk k" "sb k' = sb k" "itable k' = itable k" "ftable k' = ftable k" "kftable k' = kftable k"
    "pm k' = pm k" "klog k' = (klog k)\<lparr>lg_lh := lg_lh (klog k')\<rparr>" by (subst k'(4), simp add: set_data_def)+
  have bl: "b_blockno (bufs k' a) = b_blockno (bufs k a)" "b_data (bufs k' a) = (if a = b then d else b_data (bufs k a))"
    "a \<noteq> b \<Longrightarrow> same_buf k k' a" for a using k'(5) [of a] by (auto simp: same_buf_def set_data_def)
  have "(\<lambda>a. b_blockno (bufs k' a)) ` P = logged k" using logged_okD(3) [OF P(1)] by (simp add: bl logged_def)
  then have lg: "logged k' = insert ?bn (logged k)" using logged_okD(3) [OF k'(2)] by (simp add: logged_def [symmetric] bl)
  have f: "txf (H - {b}) k k'" using e bl by (auto simp: txf_def fs_frame_def)
  note r = txf_region [OF f]
  have "logged k' \<union> W = logged k \<union> W" using lg W by auto
  then have "tx i H W k'"
    using k'(2) txD [OF t] txfD(5) [OF f] P(2)
    by (intro txI [where P = "insert b P"]) (auto simp: bl e(1,2) r)
  moreover have "view ?k1 = (view k)(?bn := d)" using m(2) by (simp add: set_data_def)
  ultimately show ?thesis using k'(1,3) f lg bl by auto
qed

text \<open>A block is read, and the buffer released again; a block of W is changed and logged.\<close>

lemma tx_modify:
  assumes t: "tx i H W k" and bn: "bn \<in> W" and nh: "\<And>b. b \<in> H \<Longrightarrow> b_blockno (bufs k b) \<noteq> bn"
  shows "\<exists>b k1. bread i ROOTDEV bn k = Inr (b, k1) \<and> b_data (bufs k1 b) = view k bn \<and> txf H k k1 \<and> (\<forall>d. \<exists>k2 k3.
    log_write b (set_data b d k1) = Inr k2 \<and> brelse i b k2 = Inr k3 \<and> tx i H W k3 \<and> view k3 = (view k)(bn := d) \<and>
    txf H k k3 \<and> logged k3 = insert bn (logged k))"
proof -
  obtain b k1 where k1: "bread i ROOTDEV bn k = Inr (b, k1)" "tx i (insert b H) W k1" "b \<notin> H" "b_blockno (bufs k1 b) = bn"
      "b_data (bufs k1 b) = view k bn" "view k1 = view k" "txf H k k1" "logged k1 = logged k"
    using tx_bread [OF t bn nh] by blast
  have e: "insert b H - {b} = H" using k1(3) by auto
  have "\<exists>k2 k3. log_write b (set_data b d k1) = Inr k2 \<and> brelse i b k2 = Inr k3 \<and> tx i H W k3 \<and> view k3 = (view k)(bn := d) \<and>
    txf H k k3 \<and> logged k3 = insert bn (logged k)" for d
  proof -
    obtain k2 where k2: "log_write b (set_data b d k1) = Inr k2" "tx i (insert b H) W k2" "view k2 = (view k1)(bn := d)"
        "txf H k1 k2" "logged k2 = insert bn (logged k1)"
      using tx_log [OF k1(2) insertI1, of d] by (auto simp: k1(4) e)
    obtain k3 where k3: "brelse i b k2 = Inr k3" "tx i H W k3" "view k3 = view k2" "txf (insert b H) k2 k3" "logged k3 = logged k2"
      using tx_brelse [OF k2(2) insertI1] by (auto simp: e)
    have "txf H k k3" using txf_trans [OF k1(7) txf_trans [OF k2(4) k3(4)]] by auto
    then show ?thesis using k2 k3 k1(6,8) by auto
  qed
  then show ?thesis using k1 by blast
qed

end
