(* ===== verification/Alloc.thy ===== *)
theory Alloc
  imports Transaction
begin

section \<open>Allocation of disk blocks: balloc and bfree\<close>

text \<open>
  The block bitmap, for file systems of at most \<open>BPB\<close> blocks, whose bitmap is one block; mkfs makes one
  of \<open>FSSIZE\<close> = 2000 blocks. \<open>used\<close> says that the bit of a block is set, and \<open>next_free\<close> is the first block
  whose bit is not.
\<close>

lemma block_free_bit: "block_free d c \<longleftrightarrow> \<not> bit (d (c div 8)) (c mod 8)"
  by (simp add: block_free_def bit_mask_def push_bit_eq_mult and_exp_eq_0_iff_not_bit)

lemma block_free_set: "block_free (d(a div 8 := d (a div 8) OR bit_mask a)) c \<longleftrightarrow> c \<noteq> a \<and> block_free d c"
proof (cases "c div 8 = a div 8")
  case True
  then have "c mod 8 = a mod 8 \<longleftrightarrow> c = a" by (metis div_mod_decomp)
  moreover have "bit (bit_mask a) (c mod 8) \<longleftrightarrow> c mod 8 = a mod 8"
    by (auto simp: bit_mask_def push_bit_eq_mult bit_exp_iff)
  ultimately show ?thesis using True by (auto simp: block_free_bit bit_or_iff)
qed (auto simp: block_free_bit)

lemma block_free_clear: "block_free (d(a div 8 := d (a div 8) AND NOT (bit_mask a))) c \<longleftrightarrow> c = a \<or> block_free d c"
proof (cases "c div 8 = a div 8")
  case True
  then have "c mod 8 = a mod 8 \<longleftrightarrow> c = a" by (metis div_mod_decomp)
  moreover have "bit (bit_mask a) (c mod 8) \<longleftrightarrow> c mod 8 = a mod 8"
    by (auto simp: bit_mask_def push_bit_eq_mult bit_exp_iff)
  moreover have "bit (NOT (bit_mask a)) (c mod 8) \<longleftrightarrow> \<not> bit (bit_mask a) (c mod 8)" by (simp add: bit_not_iff)
  ultimately show ?thesis using True by (auto simp: block_free_bit bit_and_iff)
qed (auto simp: block_free_bit)

definition bitmap :: "kernel \<Rightarrow> block" where
  "bitmap k = view k (sb_bmapstart (sb k))"

definition used :: "kernel \<Rightarrow> uint \<Rightarrow> bool" where
  "used k bn \<longleftrightarrow> unat bn < unat (sb_size (sb k)) \<and> \<not> block_free (bitmap k) (unat bn)"

definition next_free :: "kernel \<Rightarrow> nat option" where
  "next_free k = List.find (block_free (bitmap k)) [0..<unat (sb_size (sb k))]"

definition zeroed_block :: "block \<Rightarrow> block" where
  "zeroed_block d = (\<lambda>j. if j < BSIZE then 0 else d j)"

lemma BBLOCK_small: "b < BPB \<Longrightarrow> BBLOCK b s = sb_bmapstart s"
  by (simp add: BBLOCK_def)

lemma bzero_ok:
  assumes t: "tx i H W k" and bn: "bn \<in> W" and nh: "\<And>b. b \<in> H \<Longrightarrow> b_blockno (bufs k b) \<noteq> bn"
  shows "\<exists>k'. bzero i ROOTDEV bn k = Inr k' \<and> tx i H W k' \<and> view k' = (view k)(bn := zeroed_block (view k bn)) \<and> txf H k k' \<and>
    logged k' = insert bn (logged k)"
proof -
  obtain b k1 where k1: "bread i ROOTDEV bn k = Inr (b, k1)" "b_data (bufs k1 b) = view k bn"
      "\<And>d. \<exists>k2 k3. log_write b (set_data b d k1) = Inr k2 \<and> brelse i b k2 = Inr k3 \<and> tx i H W k3 \<and> view k3 = (view k)(bn := d) \<and>
        txf H k k3 \<and> logged k3 = insert bn (logged k)"
    using tx_modify [OF t bn nh] by blast
  obtain k2 k3 where "log_write b (set_data b (zeroed_block (view k bn)) k1) = Inr k2" "brelse i b k2 = Inr k3" "tx i H W k3"
      "view k3 = (view k)(bn := zeroed_block (view k bn))" "txf H k k3" "logged k3 = insert bn (logged k)"
    using k1(3) by blast
  moreover from this have "bzero i ROOTDEV bn k = Inr k3"
    unfolding bzero_def zeroed_block_def k1(2) [symmetric] using k1(1) by simp
  ultimately show ?thesis by blast
qed

lemma balloc_ok:
  assumes t: "tx i H W k" and sz: "unat (sb_size (sb k)) \<le> BPB" and bm: "sb_bmapstart (sb k) \<in> W"
    and nh: "\<And>b. b \<in> H \<Longrightarrow> b_blockno (bufs k b) \<noteq> sb_bmapstart (sb k)"
    and fr: "\<And>a. next_free k = Some a \<Longrightarrow> of_nat a \<in> W \<and> (\<forall>b\<in>H. b_blockno (bufs k b) \<noteq> of_nat a) \<and> of_nat a \<noteq> sb_bmapstart (sb k)"
  shows "\<exists>k'. balloc i ROOTDEV k = Inr (case next_free k of None \<Rightarrow> 0 | Some a \<Rightarrow> of_nat a, k') \<and> tx i H W k' \<and> txf H k k' \<and>
    (case next_free k of
       None \<Rightarrow> view k' = view k \<and> logged k' = logged k
     | Some a \<Rightarrow> view k' = (view k)(sb_bmapstart (sb k) := (bitmap k)(a div 8 := bitmap k (a div 8) OR bit_mask a), of_nat a := zeroed_block (view k (of_nat a))) \<and>
         logged k' = logged k \<union> {sb_bmapstart (sb k), of_nat a})"
proof -
  let ?bm = "sb_bmapstart (sb k)" and ?sz = "unat (sb_size (sb k))"
  obtain b k1 where k1: "bread i ROOTDEV ?bm k = Inr (b, k1)" "tx i (insert b H) W k1" "b \<notin> H" "b_blockno (bufs k1 b) = ?bm"
      "b_data (bufs k1 b) = view k ?bm" "view k1 = view k" "txf H k k1" "logged k1 = logged k"
    using tx_bread [OF t bm nh] by blast
  have e: "insert b H - {b} = H" using k1(3) by auto
  have mn: "min BPB (?sz - 0) = ?sz" using sz by simp
  show ?thesis
  proof (cases "next_free k")
    case None
    obtain k2 where k2: "brelse i b k1 = Inr k2" "tx i H W k2" "view k2 = view k1" "txf (insert b H) k1 k2" "logged k2 = logged k1"
      using tx_brelse [OF k1(2) insertI1] by (auto simp: e)
    have f: "txf H k k2" by (rule txf_trans [OF k1(7) k2(4)]) auto
    have "balloc i ROOTDEV k = Inr (0, if 0 < ?sz then k2 else k)"
    proof (cases "0 < ?sz")
      case True
      then have "balloc i ROOTDEV k = balloc_loop i ROOTDEV ?sz BPB k2"
        using k1 k2 None mn unfolding balloc_def
        by (subst balloc_loop.simps) (simp add: BBLOCK_small next_free_def bitmap_def del: upt_rec_numeral)
      then show ?thesis using sz True by (simp add: balloc_loop.simps)
    qed (simp add: balloc_def balloc_loop.simps)
    then show ?thesis using None k2 k1(6,8) f t by (cases "0 < ?sz") simp_all
  next
    case (Some a)
    let ?d = "(bitmap k)(a div 8 := bitmap k (a div 8) OR bit_mask a)"
    have a: "a < ?sz" using Some by (auto simp: next_free_def find_upt_Some_iff)
    have fa: "List.find (block_free (view k ?bm)) [0..<?sz] = Some a" using Some by (simp add: next_free_def bitmap_def)
    obtain k2 where k2: "log_write b (set_data b ?d k1) = Inr k2" "tx i (insert b H) W k2" "view k2 = (view k1)(?bm := ?d)"
        "txf H k1 k2" "logged k2 = insert ?bm (logged k1)"
      using tx_log [OF k1(2) insertI1, of ?d] by (auto simp: k1(4) e)
    obtain k3 where k3: "brelse i b k2 = Inr k3" "tx i H W k3" "view k3 = view k2" "txf (insert b H) k2 k3" "logged k3 = logged k2"
      using tx_brelse [OF k2(2) insertI1] by (auto simp: e)
    have f3: "txf H k k3" using txf_trans [OF k1(7) txf_trans [OF k2(4) k3(4)]] by auto
    have nh3: "b_blockno (bufs k3 c) \<noteq> of_nat a" if "c \<in> H" for c
      using fr [OF Some] that txfD(7) [OF f3 that] by (simp add: same_buf_def)
    obtain k4 where k4: "bzero i ROOTDEV (of_nat a) k3 = Inr k4" "tx i H W k4"
        "view k4 = (view k3)(of_nat a := zeroed_block (view k3 (of_nat a)))" "txf H k3 k4" "logged k4 = insert (of_nat a) (logged k3)"
      using bzero_ok [OF k3(2) _ nh3] fr [OF Some] by blast
    have "balloc i ROOTDEV k = Inr (of_nat a, k4)"
      using k1(1,5) k2(1) k3(1) k4(1) fa a mn unfolding balloc_def
      by (subst balloc_loop.simps) (simp add: BBLOCK_small bitmap_def Let_def del: upt_rec_numeral)
    moreover have "txf H k k4" by (rule txf_trans [OF f3 k4(4)]) simp
    moreover have "view k4 = (view k)(?bm := ?d, of_nat a := zeroed_block (view k (of_nat a)))"
      using fr [OF Some] by (simp add: k4(3) k3(3) k2(3) k1(6))
    moreover have "logged k4 = logged k \<union> {?bm, of_nat a}" by (auto simp: k4(5) k3(5) k2(5) k1(8))
    ultimately show ?thesis using Some k4(2) by simp
  qed
qed

lemma find_upt_None_all: "List.find P [0..<n] = None \<longleftrightarrow> (\<forall>a<n. \<not> P a)"
  by (simp add: find_upt_None_iff)

lemma next_free_used:
  "next_free k = None \<Longrightarrow> unat bn < unat (sb_size (sb k)) \<Longrightarrow> used k bn"
  "next_free k = Some a \<Longrightarrow> \<not> used k (of_nat a) \<and> unat (of_nat a :: uint) = a \<and> a < unat (sb_size (sb k))"
proof -
  show "used k bn" if "next_free k = None" "unat bn < unat (sb_size (sb k))"
    using that by (simp add: next_free_def find_upt_None_all used_def)
  assume a: "next_free k = Some a"
  then have l: "a < unat (sb_size (sb k))" "block_free (bitmap k) a" by (auto simp: next_free_def find_upt_Some_iff)
  then have "unat (of_nat a :: uint) = a" using le_unat_uoi [of a "sb_size (sb k)"] by simp
  then show "\<not> used k (of_nat a) \<and> unat (of_nat a :: uint) = a \<and> a < unat (sb_size (sb k))" using l by (simp add: used_def)
qed

lemma bitmap_after_balloc:
  assumes "view k' = (view k)(sb_bmapstart (sb k) := (bitmap k)(a div 8 := bitmap k (a div 8) OR bit_mask a), of_nat a := d)"
    and "of_nat a \<noteq> sb_bmapstart (sb k)" and "sb k' = sb k" and "next_free k = Some a"
  shows "used k' bn \<longleftrightarrow> bn = of_nat a \<or> used k bn"
proof -
  have "bitmap k' = (bitmap k)(a div 8 := bitmap k (a div 8) OR bit_mask a)" using assms(1-3) by (simp add: bitmap_def)
  moreover have "unat bn = a \<longleftrightarrow> bn = of_nat a" using next_free_used(2) [OF assms(4)] by (metis word_unat_eq_iff)
  ultimately show ?thesis using next_free_used(2) [OF assms(4)] assms(3) by (auto simp: used_def block_free_set)
qed

subsection \<open>Properties\<close>

text \<open>
  C32. \<open>balloc\<close> in a transaction with room for the bitmap and the new block: if some block is free it
  returns one whose bit was clear, sets that bit and no other, leaves the block filled with zeros
  and changes no further block; if none is free it returns 0 and changes nothing.
\<close>

theorem balloc_returns_fresh_zeroed_block:
  assumes "tx i {} W k" and "unat (sb_size (sb k)) \<le> BPB" and "sb_bmapstart (sb k) \<in> W"
    and "\<And>a. next_free k = Some a \<Longrightarrow> of_nat a \<in> W \<and> of_nat a \<noteq> sb_bmapstart (sb k)"
  shows "\<exists>r k'. balloc i ROOTDEV k = Inr (r, k') \<and> tx i {} W k' \<and>
    (if \<forall>a<unat (sb_size (sb k)). used k (of_nat a) then r = 0 \<and> view k' = view k
     else \<not> used k r \<and> unat r < unat (sb_size (sb k)) \<and> (\<forall>bn. used k' bn = (bn = r \<or> used k bn)) \<and>
       (\<forall>j<BSIZE. view k' r j = 0) \<and> (\<forall>bn. bn \<noteq> r \<and> bn \<noteq> sb_bmapstart (sb k) \<longrightarrow> view k' bn = view k bn))"
proof -
  obtain k' where k': "balloc i ROOTDEV k = Inr (case next_free k of None \<Rightarrow> 0 | Some a \<Rightarrow> of_nat a, k')" "tx i {} W k'" "txf {} k k'"
    "case next_free k of
       None \<Rightarrow> view k' = view k \<and> logged k' = logged k
     | Some a \<Rightarrow> view k' = (view k)(sb_bmapstart (sb k) := (bitmap k)(a div 8 := bitmap k (a div 8) OR bit_mask a), of_nat a := zeroed_block (view k (of_nat a))) \<and>
         logged k' = logged k \<union> {sb_bmapstart (sb k), of_nat a}"
    using balloc_ok [OF assms(1-3)] assms(4) by blast
  show ?thesis
  proof (cases "next_free k")
    case None
    have "used k (of_nat a)" if "a < unat (sb_size (sb k))" for a
      using next_free_used(1) [OF None, of "of_nat a"] that le_unat_uoi [of a "sb_size (sb k)"] by simp
    then show ?thesis using None k' by auto
  next
    case (Some a)
    note u = next_free_used(2) [OF Some]
    have v: "view k' = (view k)(sb_bmapstart (sb k) := (bitmap k)(a div 8 := bitmap k (a div 8) OR bit_mask a), of_nat a := zeroed_block (view k (of_nat a)))"
      using k'(4) Some by simp
    have "\<not> (\<forall>a<unat (sb_size (sb k)). used k (of_nat a))" using u by blast
    moreover have "used k' bn = (bn = of_nat a \<or> used k bn)" for bn
      using bitmap_after_balloc [OF v] assms(4) [OF Some] txfD(8) [OF k'(3)] Some by blast
    moreover have "view k' (of_nat a) j = 0" if "j < BSIZE" for j using that by (simp add: v zeroed_block_def)
    moreover have "view k' bn = view k bn" if "bn \<noteq> of_nat a" "bn \<noteq> sb_bmapstart (sb k)" for bn using that by (simp add: v)
    ultimately show ?thesis using k' Some u by auto
  qed
qed

definition sample_fs :: kernel where
  "sample_fs = sample_log\<lparr>sb := \<lparr>sb_magic = FSMAGIC, sb_size = 100, sb_nblocks = 0, sb_ninodes = 16, sb_nlog = 30, sb_logstart = 2,
     sb_inodestart = 40, sb_bmapstart = 50\<rparr>\<rparr>"

lemma sample_fs_region:
  assumes "bn \<in> log_region (klog sample_fs)"
  shows "2 \<le> unat bn \<and> unat bn \<le> 33"
proof -
  consider "bn = 2" | t where "t < 29" "bn = 3 + of_nat t"
    using assms by (auto simp: log_region_def log_block_def log_room_def sample_fs_def sample_log_def)
  then show ?thesis
  proof cases
    case 2
    then have "bn = of_nat (3 + t)" by simp
    then have "unat bn = 3 + t" using 2(1) le_unat_uoi [of "3 + t" "100 :: uint"] by simp
    then show ?thesis using 2 by simp
  qed simp
qed

lemma sample_fs_tx:
  assumes "finite W" and "card W < 29" and "\<And>bn. bn \<in> W \<Longrightarrow> unat bn < 2 \<or> 33 < unat bn"
  shows "tx 0 {} W sample_fs"
proof (rule txI)
  have "cache_ok (p_pid (procs sample_fs 0)) {} {} sample_fs" using boot_cache
    by (simp add: sample_fs_def sample_log_def cache_ok_def lru_list_def)
  then show "logged_ok (p_pid (procs sample_fs 0)) {} {} sample_fs"
    by (simp add: logged_ok_def) (simp add: sample_fs_def sample_log_def log_wf_def log_count_def log_room_def)
  show "W \<inter> log_region (klog sample_fs) = {}"
    using assms(3) sample_fs_region by fastforce
qed (use assms in \<open>auto simp: sample_fs_def sample_log_def logged_def log_count_def log_room_def\<close>)

theorem balloc_returns_fresh_zeroed_block_witness:
  "\<exists>r k'. balloc 0 ROOTDEV sample_fs = Inr (r, k') \<and> \<not> used sample_fs r \<and> used k' r \<and> (\<forall>j<BSIZE. view k' r j = 0)"
proof -
  have t: "tx 0 {} {50, 0} sample_fs" by (rule sample_fs_tx) auto
  have v: "view sample_fs = disk blank_kernel"
  proof -
    have "cache_ok pid {} {} sample_fs" for pid using boot_cache [of pid] by (simp add: sample_fs_def sample_log_def cache_ok_def lru_list_def)
    from view_disk [OF this] show ?thesis by (simp add: sample_fs_def sample_log_def disk_binit)
  qed
  have s: "sb_bmapstart (sb sample_fs) = 50" "sb_size (sb sample_fs) = 100" by (simp_all add: sample_fs_def)
  have f: "block_free (bitmap sample_fs) 0" by (simp add: bitmap_def v blank_kernel_def block_free_def)
  then have n: "next_free sample_fs = Some 0" by (simp add: next_free_def s upt_conv_Cons)
  have nu: "\<not> (\<forall>a<unat (sb_size (sb sample_fs)). used sample_fs (of_nat a))" using f by (auto simp: used_def s intro: exI [of _ 0])
  obtain r k' where "balloc 0 ROOTDEV sample_fs = Inr (r, k')" "\<not> used sample_fs r" "\<forall>bn. used k' bn = (bn = r \<or> used sample_fs bn)"
      "\<forall>j<BSIZE. view k' r j = 0"
  proof -
    have "\<exists>r k'. balloc 0 ROOTDEV sample_fs = Inr (r, k') \<and> tx 0 {} {50, 0} k' \<and>
      (if \<forall>a<unat (sb_size (sb sample_fs)). used sample_fs (of_nat a) then r = 0 \<and> view k' = view sample_fs
       else \<not> used sample_fs r \<and> unat r < unat (sb_size (sb sample_fs)) \<and> (\<forall>bn. used k' bn = (bn = r \<or> used sample_fs bn)) \<and>
         (\<forall>j<BSIZE. view k' r j = 0) \<and> (\<forall>bn. bn \<noteq> r \<and> bn \<noteq> sb_bmapstart (sb sample_fs) \<longrightarrow> view k' bn = view sample_fs bn))"
      by (rule balloc_returns_fresh_zeroed_block [OF t]) (simp_all add: n s)
    then show ?thesis using that nu unfolding if_not_P [OF nu] by blast
  qed
  then show ?thesis by auto
qed

end
