(* ===== verification/Content.thy ===== *)
theory Content
  imports Alloc
begin

section \<open>The content of files: bmap, readi and writei\<close>

text \<open>
  What \<open>readi\<close> and \<open>writei\<close> do to a file, stated over the content of the file as the array of its
  bytes. Reading needs no transaction: \<open>rd\<close> says that the cache is consistent, that process i holds no
  buffer and that a buffer is free (P are the pinned ones); \<open>rdf\<close> is what reading leaves unchanged.
\<close>

subsection \<open>Reading blocks\<close>

definition rd :: "nat \<Rightarrow> nat set \<Rightarrow> kernel \<Rightarrow> bool" where
  "rd i P k \<longleftrightarrow> cache_ok (p_pid (procs k i)) {} P k \<and> (\<exists>b<NBUF. b \<notin> P)"

definition rdf :: "nat set \<Rightarrow> kernel \<Rightarrow> kernel \<Rightarrow> bool" where
  "rdf P k k' \<longleftrightarrow> fs_frame k k' \<and> disk k' = disk k \<and> klog k' = klog k \<and> view k' = view k \<and> (\<forall>a\<in>P. same_buf k k' a)"

lemma rdf_refl [simp]: "rdf P k k"
  by (simp add: rdf_def same_buf_def)

lemma rdf_trans: "rdf P k k' \<Longrightarrow> rdf P k' k'' \<Longrightarrow> rdf P k k''"
  by (auto simp: rdf_def intro: fs_frame_trans same_buf_trans)

lemma rdfD:
  assumes "rdf P k k'"
  shows "sb k' = sb k" "itable k' = itable k" "ftable k' = ftable k" "kftable k' = kftable k" "pm k' = pm k"
    "p_pid (procs k' j) = p_pid (procs k j)" "disk k' = disk k" "klog k' = klog k" "view k' = view k"
  using assms by (simp_all add: rdf_def fs_frame_def)

lemma rd_read:
  assumes r: "rd i P k"
  shows "\<exists>b k1 k2. bread i ROOTDEV bn k = Inr (b, k1) \<and> b_data (bufs k1 b) = view k bn \<and> itable k1 = itable k \<and> brelse i b k1 = Inr k2 \<and>
    rd i P k2 \<and> rdf P k k2"
proof -
  let ?pid = "p_pid (procs k i)"
  have c: "cache_ok ?pid {} P k" and fr: "\<exists>b<NBUF. b \<notin> P" using r by (simp_all add: rd_def)
  obtain b k1 where b: "bread i ROOTDEV bn k = Inr (b, k1)" "bread_post ?pid {} P bn k b k1"
    using bread_ok [OF c refl, of bn] fr by auto
  note f = bp_frame [OF b(2)]
  have clean: "b \<in> P \<or> b_data (bufs k1 b) = disk k1 (b_blockno (bufs k1 b))"
    using bp_clean [OF b(2)] bp_block(2) [OF b(2)] by (auto simp: f)
  have pid1: "?pid = p_pid (procs k1 i)" by (simp add: f)
  obtain k2 where k2: "brelse i b k1 = Inr k2" "cache_ok ?pid ({b} - {b}) P k2" "buf_frame k1 k2" "view k2 = view k1"
    using brelse_ok [OF bp_ok [OF b(2)] insertI1 pid1 clean] by auto
  note g = buf_frameD [OF k2(3)]
  have "fs_frame k k2" using fs_frame_trans [OF bread_fs_frame [OF b(2)] g(1)] .
  then have "rdf P k k2" using bp_view [OF b(2)] k2(4) bp_same(2) [OF b(2)] g by (auto simp: rdf_def f intro: same_buf_trans)
  moreover have "rd i P k2" using k2(2) fr pid1 fs_frame_pid [OF g(1), of i] by (simp add: rd_def)
  ultimately show ?thesis using b(1) bp_block(3) [OF b(2)] k2(1) by (auto simp: f)
qed

lemma tx_rd:
  assumes t: "tx i {} W k"
  shows "\<exists>P. rd i P k \<and> (\<forall>k'. rd i P k' \<longrightarrow> rdf P k k' \<longrightarrow> tx i {} W k' \<and> txf {} k k' \<and> logged k' = logged k)"
proof -
  obtain P where P: "logged_ok (p_pid (procs k i)) {} P k" using txE [OF t] by blast
  have fr: "\<exists>b<NBUF. b \<notin> P" using free_buffer [OF P, of W] txD [OF t] by auto
  have "tx i {} W k' \<and> txf {} k k' \<and> logged k' = logged k" if "rd i P k'" "rdf P k k'" for k'
  proof -
    have "(\<lambda>b. b_blockno (bufs k' b)) ` P = (\<lambda>b. b_blockno (bufs k b)) ` P"
      using that(2) by (intro image_cong) (auto simp: rdf_def same_buf_def)
    then have "logged_ok (p_pid (procs k' i)) {} P k'" using that(1) logged_okD(2,3) [OF P] rdfD(8) [OF that(2)] by (simp add: logged_ok_def rd_def)
    then show ?thesis using txD [OF t] that(2) by (auto simp: tx_def rdf_def txf_def logged_def)
  qed
  moreover have "rd i P k" using logged_okD(1) [OF P] fr by (simp add: rd_def)
  ultimately show ?thesis by blast
qed

subsection \<open>The blocks of a file\<close>

text \<open>The number of the n-th block of the file, as \<open>bmap\<close> finds it; 0 where there is none yet.\<close>

definition file_block :: "kernel \<Rightarrow> nat \<Rightarrow> nat \<Rightarrow> uint" where
  "file_block k ip n =
     (if n < NDIRECT then i_addrs (itable k ip) n
      else if i_addrs (itable k ip) NDIRECT = 0 then 0
      else blk_word (view k (i_addrs (itable k ip) NDIRECT)) (4 * (n - NDIRECT)) 4)"

definition file_byte :: "kernel \<Rightarrow> nat \<Rightarrow> nat \<Rightarrow> byte" where
  "file_byte k ip off = view k (file_block k ip (off div BSIZE)) (off mod BSIZE)"

lemma file_rdf: "rdf P k k' \<Longrightarrow> file_block k' ip = file_block k ip" "rdf P k k' \<Longrightarrow> file_byte k' ip = file_byte k ip"
  by (simp_all add: fun_eq_iff file_block_def file_byte_def rdfD)

lemma bmap_mapped:
  assumes r: "rd i P k" and dev: "i_dev (itable k ip) = ROOTDEV" and n: "n < MAXFILE" and ne: "file_block k ip n \<noteq> 0"
  shows "\<exists>k'. bmap i ip n k = Inr (file_block k ip n, k') \<and> rd i P k' \<and> rdf P k k'"
proof (cases "n < NDIRECT")
  case True
  then show ?thesis using r ne by (auto simp: bmap_def bmap_slot_def file_block_def)
next
  case False
  let ?a = "i_addrs (itable k ip) NDIRECT"
  have a: "?a \<noteq> 0" using ne False by (auto simp: file_block_def)
  obtain b k1 k2 where k: "bread i ROOTDEV ?a k = Inr (b, k1)" "b_data (bufs k1 b) = view k ?a" "brelse i b k1 = Inr k2" "rd i P k2" "rdf P k k2"
    using rd_read [OF r] by blast
  have fb: "file_block k ip n = blk_word (view k ?a) (4 * (n - NDIRECT)) 4" using a False by (simp add: file_block_def)
  then show ?thesis using False n a k dev ne by (auto simp: bmap_def bmap_slot_def Let_def)
qed

subsection \<open>readi\<close>

lemma div_mod_offset:
  fixes off c j :: nat
  assumes "off mod c + j < c"
  shows "(off + j) div c = off div c" "(off + j) mod c = off mod c + j"
proof -
  have e: "off + j = (off mod c + j) + c * (off div c)" using mult_div_mod_eq [of c off] by linarith
  have "(r + c * q) div c = q" "(r + c * q) mod c = r" if "r < c" for q r using that by simp_all
  from this [OF assms, of "off div c"] show "(off + j) div c = off div c" "(off + j) mod c = off mod c + j" unfolding e by simp_all
qed

lemma blk_bytes_file:
  assumes "m \<le> BSIZE - off mod BSIZE"
  shows "blk_bytes (view k (file_block k ip (off div BSIZE))) (off mod BSIZE) m = map (file_byte k ip) [off..<off + m]"
proof (rule nth_equalityI)
  fix j
  assume "j < length (blk_bytes (view k (file_block k ip (off div BSIZE))) (off mod BSIZE) m)"
  then have j: "j < m" by (simp add: blk_bytes_def)
  have "off mod BSIZE + j < BSIZE" using j assms by linarith
  note div_mod_offset [OF this]
  then show "blk_bytes (view k (file_block k ip (off div BSIZE))) (off mod BSIZE) m ! j = map (file_byte k ip) [off..<off + m] ! j"
    using j by (simp add: blk_bytes_def file_byte_def)
qed (simp add: blk_bytes_def)

definition mapped :: "kernel \<Rightarrow> nat \<Rightarrow> nat \<Rightarrow> nat \<Rightarrow> bool" where
  "mapped k ip a b \<longleftrightarrow> b \<le> MAXFILE * BSIZE \<and> (\<forall>j. a \<le> j \<and> j < b \<longrightarrow> file_block k ip (j div BSIZE) \<noteq> 0)"

lemma readi_loop_ok:
  assumes "rd i P k" and "i_dev (itable k ip) = ROOTDEV" and "tot \<le> n" and "mapped k ip off (off + (n - tot))"
  shows "\<exists>k'. readi_loop i ip (Local xs) off n tot k = Inr (of_nat n, Local (xs @ map (file_byte k ip) [off..<off + (n - tot)]), k') \<and>
    rd i P k' \<and> rdf P k k'"
  using assms
proof (induction "n - tot" arbitrary: tot off xs k rule: less_induct)
  case less
  show ?case
  proof (cases "tot < n")
    case False
    then show ?thesis using less.prems by (auto simp: readi_loop.simps)
  next
    case True
    define m where "m = min (n - tot) (BSIZE - off mod BSIZE)"
    have m: "0 < m" "m \<le> n - tot" "m \<le> BSIZE - off mod BSIZE" using True by (auto simp: m_def)
    let ?fb = "file_block k ip (off div BSIZE)"
    have ob: "off div BSIZE < MAXFILE" using less.prems(4) True by (auto simp: mapped_def)
    have ne: "?fb \<noteq> 0" using less.prems(4) True by (auto simp: mapped_def)
    obtain k1 where k1: "bmap i ip (off div BSIZE) k = Inr (?fb, k1)" "rd i P k1" "rdf P k k1"
      using bmap_mapped [OF less.prems(1,2) ob ne] by blast
    obtain b k2 k3 where k2: "bread i ROOTDEV ?fb k1 = Inr (b, k2)" "b_data (bufs k2 b) = view k1 ?fb" "brelse i b k2 = Inr k3" "rd i P k3" "rdf P k1 k3"
      using rd_read [OF k1(2)] by blast
    have f: "rdf P k k3" by (rule rdf_trans [OF k1(3) k2(5)])
    let ?xs = "xs @ map (file_byte k ip) [off..<off + m]"
    have step: "readi_loop i ip (Local xs) off n tot k = readi_loop i ip (Local ?xs) (off + m) n (tot + m) k3"
      using True k1 k2 ne less.prems(2) blk_bytes_file [OF m(3), of k ip] rdfD(2,9) [OF k1(3)]
      by (subst readi_loop.simps) (simp add: copy_out_def m_def [symmetric] Let_def)
    have mp: "mapped k3 ip (off + m) (off + m + (n - (tot + m)))"
      using less.prems(4) m(2) by (auto simp: mapped_def file_rdf [OF f])
    obtain k' where "readi_loop i ip (Local ?xs) (off + m) n (tot + m) k3 =
        Inr (of_nat n, Local (?xs @ map (file_byte k3 ip) [off + m..<off + m + (n - (tot + m))]), k')" "rd i P k'" "rdf P k3 k'"
    proof -
      have "n - (tot + m) < n - tot" "tot + m \<le> n" "i_dev (itable k3 ip) = ROOTDEV" using m True less.prems(2) rdfD(2) [OF f] by simp_all
      from less.hyps [OF this(1) k2(4) this(3,2) mp, of ?xs] show ?thesis using that by blast
    qed
    moreover have "[off..<off + (n - tot)] = [off..<off + m] @ [off + m..<off + m + (n - (tot + m))]"
      using m(2) True upt_add_eq_append [of off "off + m" "n - (tot + m)"] by simp
    ultimately show ?thesis using rdf_trans [OF f] unfolding step file_rdf(2) [OF f] by (metis append.assoc map_append)
  qed
qed

text \<open>\<open>readi\<close> into a local variable delivers the bytes of the file from off on, as far as the file goes.\<close>

lemma readi_ok:
  assumes r: "rd i P k" and dev: "i_dev (itable k ip) = ROOTDEV" and off: "off \<le> i_size (itable k ip)" and wrap: "off \<le> off + n"
    and mp: "mapped k ip (unat off) (min (unat off + unat n) (unat (i_size (itable k ip))))"
  shows "\<exists>k'. readi i ip (Local []) off n k =
      Inr (of_nat (min (unat n) (unat (i_size (itable k ip)) - unat off)),
        Local (map (file_byte k ip) [unat off..<min (unat off + unat n) (unat (i_size (itable k ip)))]), k') \<and> rd i P k' \<and> rdf P k k'"
proof -
  let ?sz = "i_size (itable k ip)"
  define n1 where "n1 = (if off + n > ?sz then ?sz - off else n)"
  have un: "unat (off + n) = unat off + unat n" using wrap by (simp add: unat_plus_simple)
  have us: "unat (?sz - off) = unat ?sz - unat off" using off by (simp add: unat_sub word_le_nat_alt)
  have n1: "unat n1 = min (unat n) (unat ?sz - unat off)"
    using un us off by (auto simp: n1_def word_le_nat_alt word_less_nat_alt)
  have e: "unat off + unat n1 = min (unat off + unat n) (unat ?sz)" using n1 off by (auto simp: word_le_nat_alt)
  have w: "of_nat (min (unat n) (unat ?sz - unat off)) = n1" by (simp flip: n1)
  have "readi i ip (Local []) off n k = readi_loop i ip (Local []) (unat off) (unat n1) 0 k"
    using off wrap unfolding readi_def n1_def Let_def by (simp add: leD)
  then show ?thesis using readi_loop_ok [OF r dev, of 0 "unat n1" "unat off" "[]"] mp unfolding w by (simp add: e)
qed

subsection \<open>Well-formed files\<close>

text \<open>
  The blocks of a file are marked as used in the bitmap, are all different and are neither in the
  log nor the bitmap or the block of the file's inode; those are marked as used as well, so that
  they are not allocated.
\<close>

definition ind :: "kernel \<Rightarrow> nat \<Rightarrow> uint" where
  "ind k ip = i_addrs (itable k ip) NDIRECT"

definition owned :: "kernel \<Rightarrow> nat \<Rightarrow> uint set" where
  "owned k ip = insert (ind k ip) (file_block k ip ` {..<MAXFILE}) - {0}"

definition meta :: "kernel \<Rightarrow> nat \<Rightarrow> uint set" where
  "meta k ip = log_region (klog k) \<union> {0, sb_bmapstart (sb k), IBLOCK (i_inum (itable k ip)) (sb k)}"

definition file_wf :: "kernel \<Rightarrow> nat \<Rightarrow> bool" where
  "file_wf k ip \<longleftrightarrow> i_dev (itable k ip) = ROOTDEV \<and> unat (sb_size (sb k)) \<le> BPB \<and>
     (\<forall>bn\<in>owned k ip. used k bn \<and> bn \<notin> meta k ip) \<and> (\<forall>bn\<in>meta k ip. unat bn < unat (sb_size (sb k)) \<longrightarrow> used k bn) \<and>
     sb_bmapstart (sb k) \<notin> log_region (klog k) \<and> IBLOCK (i_inum (itable k ip)) (sb k) \<notin> log_region (klog k) \<and>
     sb_bmapstart (sb k) \<noteq> IBLOCK (i_inum (itable k ip)) (sb k) \<and>
     inj_on (file_block k ip) {n. n < MAXFILE \<and> file_block k ip n \<noteq> 0} \<and>
     (\<forall>n<MAXFILE. file_block k ip n \<noteq> 0 \<longrightarrow> file_block k ip n \<noteq> ind k ip)"

lemma file_wfD:
  assumes "file_wf k ip"
  shows "i_dev (itable k ip) = ROOTDEV" "unat (sb_size (sb k)) \<le> BPB" "bn \<in> owned k ip \<Longrightarrow> used k bn" "bn \<in> owned k ip \<Longrightarrow> bn \<notin> meta k ip"
    "bn \<in> meta k ip \<Longrightarrow> unat bn < unat (sb_size (sb k)) \<Longrightarrow> used k bn" "sb_bmapstart (sb k) \<notin> log_region (klog k)"
    "IBLOCK (i_inum (itable k ip)) (sb k) \<notin> log_region (klog k)" "sb_bmapstart (sb k) \<noteq> IBLOCK (i_inum (itable k ip)) (sb k)"
    "n < MAXFILE \<Longrightarrow> m < MAXFILE \<Longrightarrow> file_block k ip n \<noteq> 0 \<Longrightarrow> file_block k ip n = file_block k ip m \<Longrightarrow> n = m"
    "n < MAXFILE \<Longrightarrow> file_block k ip n \<noteq> 0 \<Longrightarrow> file_block k ip n \<noteq> ind k ip"
proof -
  show "n < MAXFILE \<Longrightarrow> m < MAXFILE \<Longrightarrow> file_block k ip n \<noteq> 0 \<Longrightarrow> file_block k ip n = file_block k ip m \<Longrightarrow> n = m"
    "n < MAXFILE \<Longrightarrow> file_block k ip n \<noteq> 0 \<Longrightarrow> file_block k ip n \<noteq> ind k ip"
    using assms by (simp_all add: file_wf_def inj_on_def)
qed (use assms in \<open>unfold file_wf_def, blast+\<close>)

lemma file_blockD:
  assumes "file_wf k ip" and "n < MAXFILE" and "file_block k ip n \<noteq> 0"
  shows "used k (file_block k ip n)" "file_block k ip n \<notin> meta k ip" "file_block k ip n \<in> owned k ip"
proof -
  show o: "file_block k ip n \<in> owned k ip" using assms(2,3) by (auto simp: owned_def)
  show "used k (file_block k ip n)" "file_block k ip n \<notin> meta k ip" using file_wfD(3,4) [OF assms(1) o] by auto
qed

text \<open>
  How a file grows: blocks that were free become its blocks, its inode gets new addresses, and no
  block in use that is not its own changes, apart from the bitmap.
\<close>

definition ext :: "kernel \<Rightarrow> kernel \<Rightarrow> nat \<Rightarrow> bool" where
  "ext k k' ip \<longleftrightarrow> sb k' = sb k \<and> log_region (klog k') = log_region (klog k) \<and> log_room (klog k') = log_room (klog k) \<and>
     (\<forall>bn. used k bn \<longrightarrow> used k' bn) \<and> (\<forall>bn\<in>owned k' ip. bn \<in> owned k ip \<or> \<not> used k bn) \<and>
     (\<forall>bn. used k bn \<and> bn \<notin> owned k ip \<and> bn \<noteq> sb_bmapstart (sb k) \<longrightarrow> view k' bn = view k bn) \<and>
     itable k' = (itable k)(ip := (itable k ip)\<lparr>i_addrs := i_addrs (itable k' ip)\<rparr>) \<and>
     ftable k' = ftable k \<and> kftable k' = kftable k \<and> pm k' = pm k \<and> (\<forall>j. p_pid (procs k' j) = p_pid (procs k j))"

lemma extD:
  assumes "ext k k' ip"
  shows "sb k' = sb k" "log_region (klog k') = log_region (klog k)" "log_room (klog k') = log_room (klog k)" "used k bn \<Longrightarrow> used k' bn"
    "bn \<in> owned k' ip \<Longrightarrow> bn \<in> owned k ip \<or> \<not> used k bn"
    "used k bn \<Longrightarrow> bn \<notin> owned k ip \<Longrightarrow> bn \<noteq> sb_bmapstart (sb k) \<Longrightarrow> view k' bn = view k bn"
    "itable k' = (itable k)(ip := (itable k ip)\<lparr>i_addrs := i_addrs (itable k' ip)\<rparr>)"
    "ftable k' = ftable k" "kftable k' = kftable k" "pm k' = pm k" "p_pid (procs k' j) = p_pid (procs k j)"
  using assms unfolding ext_def by blast+

lemma ext_inode:
  assumes "ext k k' ip"
  shows "i_dev (itable k' ip) = i_dev (itable k ip)" "i_inum (itable k' ip) = i_inum (itable k ip)" "i_size (itable k' ip) = i_size (itable k ip)"
    "i_type (itable k' ip) = i_type (itable k ip)" "j \<noteq> ip \<Longrightarrow> itable k' j = itable k j"
proof -
  note e = extD(7) [OF assms]
  show "i_dev (itable k' ip) = i_dev (itable k ip)" "i_inum (itable k' ip) = i_inum (itable k ip)" "i_size (itable k' ip) = i_size (itable k ip)"
    "i_type (itable k' ip) = i_type (itable k ip)" by (subst e, simp)+
  show "j \<noteq> ip \<Longrightarrow> itable k' j = itable k j" by (subst e) simp
qed

lemma ext_trans:
  assumes a: "ext k k' ip" and b: "ext k' k'' ip"
  shows "ext k k'' ip"
  unfolding ext_def
proof (intro conjI allI ballI impI)
  show "bn \<in> owned k ip \<or> \<not> used k bn" if "bn \<in> owned k'' ip" for bn
    using extD(5) [OF b that] extD(5) [OF a] extD(4) [OF a] by blast
  show "view k'' bn = view k bn" if h: "used k bn \<and> bn \<notin> owned k ip \<and> bn \<noteq> sb_bmapstart (sb k)" for bn
  proof -
    have "bn \<notin> owned k' ip" using h extD(5) [OF a] by blast
    then show ?thesis using h extD(6) [OF b, of bn] extD(6) [OF a, of bn] extD(1,4) [OF a] by simp
  qed
  have "(itable k' ip)\<lparr>i_addrs := x\<rparr> = (itable k ip)\<lparr>i_addrs := x\<rparr>" for x by (subst extD(7) [OF a]) simp
  then have "itable k'' = (itable k')(ip := (itable k ip)\<lparr>i_addrs := i_addrs (itable k'' ip)\<rparr>)" using extD(7) [OF b] by simp
  also have "\<dots> = (itable k)(ip := (itable k ip)\<lparr>i_addrs := i_addrs (itable k'' ip)\<rparr>)" by (subst extD(7) [OF a]) simp
  finally show "itable k'' = (itable k)(ip := (itable k ip)\<lparr>i_addrs := i_addrs (itable k'' ip)\<rparr>)" .
qed (use extD [OF a] extD [OF b] in auto)

text \<open>The content of a file; where it has no block yet it reads as zero.\<close>

definition content :: "kernel \<Rightarrow> nat \<Rightarrow> nat \<Rightarrow> byte" where
  "content k ip off = (if file_block k ip (off div BSIZE) = 0 then 0 else file_byte k ip off)"

lemma grow_ok:
  assumes wf: "file_wf k ip" and r: "\<not> used k r" "unat r < unat (sb_size (sb k))"
    and same: "sb k' = sb k" "log_region (klog k') = log_region (klog k)" "log_room (klog k') = log_room (klog k)"
      "ftable k' = ftable k" "kftable k' = kftable k" "pm k' = pm k" "\<And>j. p_pid (procs k' j) = p_pid (procs k j)"
    and it: "itable k' = (itable k)(ip := (itable k ip)\<lparr>i_addrs := i_addrs (itable k' ip)\<rparr>)"
    and used: "\<And>bn. used k' bn \<longleftrightarrow> bn = r \<or> used k bn"
    and view: "\<And>bn. used k bn \<Longrightarrow> bn \<notin> owned k ip \<Longrightarrow> bn \<noteq> sb_bmapstart (sb k) \<Longrightarrow> view k' bn = view k bn"
    and grow: "(\<exists>n<MAXFILE. file_block k ip n = 0 \<and> (\<forall>m<MAXFILE. file_block k' ip m = (if m = n then r else file_block k ip m)) \<and> ind k' ip = ind k ip) \<or>
      (ind k ip = 0 \<and> (\<forall>m<MAXFILE. file_block k' ip m = file_block k ip m) \<and> ind k' ip = r)"
  shows "file_wf k' ip" "ext k k' ip"
proof -
  have rm: "r \<notin> meta k ip" using file_wfD(5) [OF wf] r by blast
  then have r0: "r \<noteq> 0" by (auto simp: meta_def)
  have ro: "r \<notin> owned k ip" using file_wfD(3) [OF wf] r by blast
  have own: "owned k' ip = insert r (owned k ip)" using grow
  proof
    assume "\<exists>n<MAXFILE. file_block k ip n = 0 \<and> (\<forall>m<MAXFILE. file_block k' ip m = (if m = n then r else file_block k ip m)) \<and> ind k' ip = ind k ip"
    then obtain n where n: "n < MAXFILE" "file_block k ip n = 0" "\<And>m. m < MAXFILE \<Longrightarrow> file_block k' ip m = (if m = n then r else file_block k ip m)" "ind k' ip = ind k ip"
      by blast
    have "file_block k' ip ` {..<MAXFILE} = insert r (file_block k ip ` ({..<MAXFILE} - {n}))" using n(1,3) by (auto simp: image_iff)
    moreover have "file_block k ip ` ({..<MAXFILE} - {n}) - {0} = file_block k ip ` {..<MAXFILE} - {0}" using n(2) by blast
    moreover have "insert a (insert r G) - {0} = insert r (insert a F - {0})" if "G - {0} = F - {0}" for a :: uint and F G
      using that r0 by blast
    ultimately show ?thesis unfolding owned_def n(4) by simp
  next
    assume c: "ind k ip = 0 \<and> (\<forall>m<MAXFILE. file_block k' ip m = file_block k ip m) \<and> ind k' ip = r"
    then have "file_block k' ip ` {..<MAXFILE} = file_block k ip ` {..<MAXFILE}" by (intro image_cong) simp_all
    moreover have "insert r F - {0} = insert r (insert 0 F - {0})" for F :: "uint set" using r0 by blast
    ultimately show ?thesis using c unfolding owned_def by simp
  qed
  have inum: "i_inum (itable k' ip) = i_inum (itable k ip)" "i_dev (itable k' ip) = i_dev (itable k ip)" by (subst it, simp)+
  have meta: "meta k' ip = meta k ip" by (simp add: meta_def same inum)
  have nr: "file_block k ip m \<noteq> r" if "m < MAXFILE" for m
    using ro r0 that by (cases "file_block k ip m = 0") (auto simp: owned_def)
  have ir: "ind k ip \<noteq> r" using ro r0 by (auto simp: owned_def)
  note fw = file_wfD(9,10) [OF wf]
  have "inj_on (file_block k' ip) {n. n < MAXFILE \<and> file_block k' ip n \<noteq> 0} \<and> (\<forall>n<MAXFILE. file_block k' ip n \<noteq> 0 \<longrightarrow> file_block k' ip n \<noteq> ind k' ip)"
    using grow
  proof
    assume "\<exists>n<MAXFILE. file_block k ip n = 0 \<and> (\<forall>m<MAXFILE. file_block k' ip m = (if m = n then r else file_block k ip m)) \<and> ind k' ip = ind k ip"
    then obtain n where n: "\<And>m. m < MAXFILE \<Longrightarrow> file_block k' ip m = (if m = n then r else file_block k ip m)" "ind k' ip = ind k ip" by blast
    have i1: "inj_on (file_block k' ip) {n. n < MAXFILE \<and> file_block k' ip n \<noteq> 0}"
    proof (rule inj_onI, unfold mem_Collect_eq)
      fix a b
      assume a: "a < MAXFILE \<and> file_block k' ip a \<noteq> 0" and b: "b < MAXFILE \<and> file_block k' ip b \<noteq> 0" and e: "file_block k' ip a = file_block k' ip b"
      note ea = n(1) [OF conjunct1 [OF a]] and eb = n(1) [OF conjunct1 [OF b]]
      consider "a = n" "b = n" | "a = n" "b \<noteq> n" | "a \<noteq> n" "b = n" | "a \<noteq> n" "b \<noteq> n" by blast
      then show "a = b"
      proof cases
        case 4
        then show ?thesis using fw(1) [OF conjunct1 [OF a] conjunct1 [OF b]] a e ea eb by simp
      qed (use e ea eb nr [OF conjunct1 [OF a]] nr [OF conjunct1 [OF b]] in auto)
    qed
    have i2: "file_block k' ip a \<noteq> ind k' ip" if "a < MAXFILE" "file_block k' ip a \<noteq> 0" for a
      using that fw(2) [of a] ir n(1) [of a] n(2) by (cases "a = n") simp_all
    show ?thesis by (rule conjI [OF i1]) (intro allI impI i2)
  next
    assume c: "ind k ip = 0 \<and> (\<forall>m<MAXFILE. file_block k' ip m = file_block k ip m) \<and> ind k' ip = r"
    note n = c [THEN conjunct2, THEN conjunct1, rule_format] c [THEN conjunct2, THEN conjunct2]
    have i1: "inj_on (file_block k' ip) {n. n < MAXFILE \<and> file_block k' ip n \<noteq> 0}"
    proof (rule inj_onI, unfold mem_Collect_eq)
      fix a b
      assume a: "a < MAXFILE \<and> file_block k' ip a \<noteq> 0" and b: "b < MAXFILE \<and> file_block k' ip b \<noteq> 0" and e: "file_block k' ip a = file_block k' ip b"
      note ea = n(1) [OF conjunct1 [OF a]] and eb = n(1) [OF conjunct1 [OF b]]
      show "a = b" using fw(1) [OF conjunct1 [OF a] conjunct1 [OF b]] conjunct2 [OF a] e unfolding ea eb by blast
    qed
    have i2: "file_block k' ip a \<noteq> ind k' ip" if "a < MAXFILE" for a using nr [OF that] n(1) [OF that] n(2) by simp
    show ?thesis by (rule conjI [OF i1]) (intro allI impI i2)
  qed
  then show "file_wf k' ip"
    unfolding file_wf_def own meta used same inum
  proof (intro conjI ballI impI)
    show "bn = r \<or> used k bn" if "bn \<in> insert r (owned k ip)" for bn using that file_wfD(3) [OF wf] by blast
    show "bn \<notin> meta k ip" if "bn \<in> insert r (owned k ip)" for bn using that file_wfD(4) [OF wf] rm by blast
    show "bn = r \<or> used k bn" if "bn \<in> meta k ip" "unat bn < unat (sb_size (sb k))" for bn using that file_wfD(5) [OF wf] by blast
  qed (use file_wfD(1,2,6-8) [OF wf] in simp_all)
  show "ext k k' ip"
    unfolding ext_def own used
  proof (intro conjI allI ballI impI)
    show "bn \<in> owned k ip \<or> \<not> used k bn" if "bn \<in> insert r (owned k ip)" for bn using that r by blast
    show "view k' bn = view k bn" if "used k bn \<and> bn \<notin> owned k ip \<and> bn \<noteq> sb_bmapstart (sb k)" for bn using that view by blast
  qed (simp_all add: same, rule it)
qed

text \<open>Blocks that come fresh from \<open>balloc\<close>; r = 0 if the disk is full.\<close>

lemma tx_adopt:
  assumes "tx i H W k" and "card (logged k \<union> W) + 1 < log_room (klog k)" and "a \<notin> log_region (klog k)"
  shows "tx i H (insert a W) k"
proof -
  obtain P where P: "logged_ok (p_pid (procs k i)) H P k" "\<And>b. b \<in> H \<Longrightarrow> b \<in> P \<or> b_data (bufs k b) = disk k (b_blockno (bufs k b))"
    using txE [OF assms(1)] by blast
  note t = txD [OF assms(1)]
  have "card (insert a (logged k \<union> W)) \<le> Suc (card (logged k \<union> W))" by (rule card_insert_le_m1) simp_all
  then have "card (logged k \<union> insert a W) < log_room (klog k)" using assms(2) by simp
  then show ?thesis using t assms(3) by (intro txI [OF P]) auto
qed

lemma balloc_fresh:
  assumes t: "tx i H W k" and wf: "file_wf k ip" and bm: "sb_bmapstart (sb k) \<in> W"
    and room: "card (logged k \<union> W) + 1 < log_room (klog k)"
    and H: "\<And>b. b \<in> H \<Longrightarrow> used k (b_blockno (bufs k b)) \<and> b_blockno (bufs k b) \<noteq> sb_bmapstart (sb k)"
  shows "\<exists>r k' W'. balloc i ROOTDEV k = Inr (r, k') \<and> tx i H W' k' \<and> txf H k k' \<and> logged k' \<union> W' = logged k \<union> W' \<and>
    (r = 0 \<and> W' = W \<and> view k' = view k \<and> next_free k = None \<or>
     r \<noteq> 0 \<and> W' = insert r W \<and> \<not> used k r \<and> unat r < unat (sb_size (sb k)) \<and> (\<forall>bn. used k' bn \<longleftrightarrow> bn = r \<or> used k bn) \<and>
     (\<exists>d. view k' = (view k)(sb_bmapstart (sb k) := d, r := zeroed_block (view k r))))"
proof (cases "next_free k")
  case None
  then obtain k' where "balloc i ROOTDEV k = Inr (0, k')" "tx i H W k'" "txf H k k'" "view k' = view k" "logged k' = logged k"
    using balloc_ok [OF t file_wfD(2) [OF wf] bm] H by fastforce
  then show ?thesis using None by (intro exI [of _ 0] exI [of _ k'] exI [of _ W]) simp
next
  case (Some a)
  let ?r = "of_nat a :: uint"
  note u = next_free_used(2) [OF Some]
  have m: "?r \<notin> meta k ip" using u file_wfD(5) [OF wf, of ?r] by auto
  have t1: "tx i H (insert ?r W) k" using tx_adopt [OF t room] m by (simp add: meta_def)
  have "\<exists>k'. balloc i ROOTDEV k = Inr (case next_free k of None \<Rightarrow> 0 | Some a \<Rightarrow> of_nat a, k') \<and> tx i H (insert ?r W) k' \<and> txf H k k' \<and>
    (case next_free k of
       None \<Rightarrow> view k' = view k \<and> logged k' = logged k
     | Some a \<Rightarrow> view k' = (view k)(sb_bmapstart (sb k) := (bitmap k)(a div 8 := bitmap k (a div 8) OR bit_mask a), of_nat a := zeroed_block (view k (of_nat a))) \<and>
         logged k' = logged k \<union> {sb_bmapstart (sb k), of_nat a})"
  proof (rule balloc_ok [OF t1 file_wfD(2) [OF wf]])
    show "of_nat c \<in> insert ?r W \<and> (\<forall>b\<in>H. b_blockno (bufs k b) \<noteq> of_nat c) \<and> of_nat c \<noteq> sb_bmapstart (sb k)" if "next_free k = Some c" for c
      using that Some m u H by (auto simp: meta_def) metis
  qed (use bm H in auto)
  then obtain k' where k': "balloc i ROOTDEV k = Inr (?r, k')" "tx i H (insert ?r W) k'" "txf H k k'"
      "view k' = (view k)(sb_bmapstart (sb k) := (bitmap k)(a div 8 := bitmap k (a div 8) OR bit_mask a), ?r := zeroed_block (view k ?r))"
      "logged k' = logged k \<union> {sb_bmapstart (sb k), ?r}"
    by (auto simp: Some)
  have "used k' bn \<longleftrightarrow> bn = ?r \<or> used k bn" for bn
    using bitmap_after_balloc [OF k'(4) _ txfD(8) [OF k'(3)] Some] m by (simp add: meta_def)
  then show ?thesis using k' u m bm
    by (intro exI [of _ ?r] exI [of _ k'] exI [of _ "insert ?r W"]) (auto simp: meta_def)
qed

lemma upd_inode_views [simp]:
  "tx i H W (upd_inode ip f k) = tx i H W k" "view (upd_inode ip f k) = view k" "logged (upd_inode ip f k) = logged k"
  "used (upd_inode ip f k) bn = used k bn"
proof -
  show v: "view (upd_inode ip f k) = view k" by (rule view_same) (simp_all add: same_buf_def)
  show "tx i H W (upd_inode ip f k) = tx i H W k" by (simp add: tx_def logged_def logged_ok_def cache_ok_def lru_list_def)
  show "logged (upd_inode ip f k) = logged k" by (simp add: logged_def)
  show "used (upd_inode ip f k) bn = used k bn" by (simp add: used_def bitmap_def v)
qed

lemma blk_word_zeroed: "off + n \<le> BSIZE \<Longrightarrow> blk_word (zeroed_block d) off n = 0"
proof -
  assume "off + n \<le> BSIZE"
  then have e: "map (\<lambda>j. zeroed_block d (off + j)) [0..<n] = map (\<lambda>j. (\<lambda>_. 0) (off + j)) [0..<n]" by (simp add: zeroed_block_def)
  show ?thesis unfolding blk_word_def e using blk_word_zero [of off n] by (simp add: blk_word_def)
qed

text \<open>A file that has grown, if at all, by blocks of zeros: its content is the same.\<close>

definition grown :: "kernel \<Rightarrow> kernel \<Rightarrow> nat \<Rightarrow> bool" where
  "grown k k' ip \<longleftrightarrow> file_wf k' ip \<and> ext k k' ip \<and> (\<forall>off<MAXFILE * BSIZE. content k' ip off = content k ip off) \<and>
     (\<forall>m<MAXFILE. file_block k ip m \<noteq> 0 \<longrightarrow> file_block k' ip m = file_block k ip m) \<and> (ind k ip \<noteq> 0 \<longrightarrow> ind k' ip = ind k ip)"

lemma grownD:
  assumes "grown k k' ip"
  shows "file_wf k' ip" "ext k k' ip" "off < MAXFILE * BSIZE \<Longrightarrow> content k' ip off = content k ip off"
    "m < MAXFILE \<Longrightarrow> file_block k ip m \<noteq> 0 \<Longrightarrow> file_block k' ip m = file_block k ip m" "ind k ip \<noteq> 0 \<Longrightarrow> ind k' ip = ind k ip"
  using assms unfolding grown_def by blast+

lemma grown_trans:
  assumes a: "grown k k' ip" and b: "grown k' k'' ip"
  shows "grown k k'' ip"
  unfolding grown_def
proof (intro conjI allI impI)
  show "file_block k'' ip m = file_block k ip m" if "m < MAXFILE" "file_block k ip m \<noteq> 0" for m
    using grownD(4) [OF a that] grownD(4) [OF b that(1)] that(2) by simp
  show "ind k'' ip = ind k ip" if "ind k ip \<noteq> 0" using grownD(5) [OF a that] grownD(5) [OF b] that by simp
  show "content k'' ip off = content k ip off" if "off < MAXFILE * BSIZE" for off using grownD(3) [OF a that] grownD(3) [OF b that] by simp
qed (use grownD(1) [OF b] ext_trans [OF grownD(2) [OF a] grownD(2) [OF b]] in simp_all)

lemma grown_same:
  assumes wf: "file_wf k ip" and f: "txf {} k k'" and v: "view k' = view k"
  shows "grown k k' ip"
proof -
  note r = txf_region [OF f] and d = txfD [OF f]
  have fb: "file_block k' ip = file_block k ip" by (simp add: fun_eq_iff file_block_def v d)
  have u: "used k' = used k" by (simp add: fun_eq_iff used_def bitmap_def v d)
  have o: "owned k' ip = owned k ip" "meta k' ip = meta k ip" "ind k' ip = ind k ip" by (simp_all add: owned_def meta_def ind_def fb d r)
  have "file_wf k' ip" using wf by (simp add: file_wf_def u o fb d r)
  moreover have "ext k k' ip" unfolding ext_def u o by (simp add: d r v)
  moreover have "content k' ip off = content k ip off" for off by (simp add: content_def file_byte_def fb v)
  ultimately show ?thesis by (simp add: grown_def fb o)
qed

lemma content_grow:
  assumes fb: "\<And>m. m < MAXFILE \<Longrightarrow> file_block k' ip m = (if m = n then r else file_block k ip m)" and n: "file_block k ip n = 0" and r: "r \<noteq> 0"
    and v: "\<And>m. m < MAXFILE \<Longrightarrow> file_block k ip m \<noteq> 0 \<Longrightarrow> view k' (file_block k ip m) = view k (file_block k ip m)"
    and z: "view k' r = zeroed_block d" and off: "off < MAXFILE * BSIZE"
  shows "content k' ip off = content k ip off"
proof -
  have l: "off div BSIZE < MAXFILE" using off by (simp add: less_mult_imp_div_less)
  show ?thesis using fb [OF l] n r v [OF l] z by (auto simp: content_def file_byte_def zeroed_block_def)
qed

end
