(* ===== verification/Writei.thy ===== *)
theory Writei
  imports Content
begin

section \<open>Writing files: bmap with allocation, and writei\<close>

text \<open>
  \<open>bmap\<close> extends a file by blocks of zeros, so that its content does not change; \<open>writei\<close> then changes
  exactly the bytes it is to write. Both log only the bitmap, the block of the inode, the indirect
  block and the data blocks touched, so that a chunk of \<open>filewrite\<close> stays within the reservation of its
  transaction.
\<close>

subsection \<open>bmap\<close>

lemma next_free_same: "txf H k k' \<Longrightarrow> view k' = view k \<Longrightarrow> next_free k' = next_free k"
  by (simp add: next_free_def bitmap_def txfD)

lemma slot_fresh:
  assumes t: "tx i {} W k" and wf: "file_wf k ip" and bm: "sb_bmapstart (sb k) \<in> W" and room: "card (logged k \<union> W) + 1 < log_room (klog k)"
    and j: "j \<le> NDIRECT" and z: "i_addrs (itable k ip) j = 0"
  shows "\<exists>r k' W'. bmap_slot i ip j k = Inr (r, k') \<and> tx i {} W' k' \<and> grown k k' ip \<and> logged k' \<union> W' = logged k \<union> W' \<and>
    (r = 0 \<and> W' = W \<and> next_free k' = None \<or> r \<noteq> 0 \<and> W' = insert r W \<and> i_addrs (itable k' ip) = (i_addrs (itable k ip))(j := r) \<and>
      (j = NDIRECT \<longrightarrow> (\<forall>m<MAXFILE. file_block k' ip m = file_block k ip m)))"
proof -
  obtain r k1 W' where k1: "balloc i ROOTDEV k = Inr (r, k1)" "tx i {} W' k1" "txf {} k k1" "logged k1 \<union> W' = logged k \<union> W'"
    "r = 0 \<and> W' = W \<and> view k1 = view k \<and> next_free k = None \<or>
     r \<noteq> 0 \<and> W' = insert r W \<and> \<not> used k r \<and> unat r < unat (sb_size (sb k)) \<and> (\<forall>bn. used k1 bn \<longleftrightarrow> bn = r \<or> used k bn) \<and>
     (\<exists>d. view k1 = (view k)(sb_bmapstart (sb k) := d, r := zeroed_block (view k r)))"
    using balloc_fresh [OF t wf bm room] by auto
  have dev: "i_dev (itable k ip) = ROOTDEV" by (rule file_wfD(1) [OF wf])
  show ?thesis
  proof (cases "r = 0")
    case True
    then have "bmap_slot i ip j k = Inr (0, k1)" using k1(1) z dev by (simp add: bmap_slot_def)
    moreover have "grown k k1 ip" using grown_same [OF wf k1(3)] k1(5) True by blast
    ultimately show ?thesis using k1 True next_free_same [OF k1(3)] by (intro exI [of _ 0] exI [of _ k1] exI [of _ W]) simp
  next
    case False
    let ?k' = "set_addr ip j r k1"
    obtain d where f: "W' = insert r W" "\<not> used k r" "unat r < unat (sb_size (sb k))" "\<And>bn. used k1 bn \<longleftrightarrow> bn = r \<or> used k bn"
        "view k1 = (view k)(sb_bmapstart (sb k) := d, r := zeroed_block (view k r))"
      using k1(5) False by blast
    have s: "bmap_slot i ip j k = Inr (r, ?k')" using k1(1) z dev False by (simp add: bmap_slot_def)
    note tf = txfD [OF k1(3)] and rg = txf_region [OF k1(3)]
    have it: "itable ?k' = (itable k)(ip := (itable k ip)\<lparr>i_addrs := (i_addrs (itable k ip))(j := r)\<rparr>)" by (simp add: set_addr_def tf)
    then have ia: "i_addrs (itable ?k' ip) = (i_addrs (itable k ip))(j := r)" by simp
    have v: "view ?k' = view k1" "\<And>bn. used ?k' bn = used k1 bn" by (simp_all add: set_addr_def)
    have iv: "view k1 (ind k ip) = view k (ind k ip)" if "ind k ip \<noteq> 0"
    proof -
      have "ind k ip \<in> owned k ip" using that by (simp add: owned_def)
      from file_wfD(3,4) [OF wf this] show ?thesis using f(2) by (auto simp: f(5) meta_def)
    qed
    have fb: "file_block ?k' ip m = (if m = j \<and> j < NDIRECT then r else file_block k ip m)" if "m < MAXFILE" for m
    proof (cases "j < NDIRECT")
      case True
      then show ?thesis using iv by (auto simp: file_block_def ia v ind_def)
    next
      case c: False
      then have "j = NDIRECT" using j by simp
      then show ?thesis using False z that unfolding file_block_def ia v f(5) by (auto simp: blk_word_zeroed)
    qed
    have "file_wf ?k' ip" "ext k ?k' ip"
    proof -
      have "(\<exists>n<MAXFILE. file_block k ip n = 0 \<and> (\<forall>m<MAXFILE. file_block ?k' ip m = (if m = n then r else file_block k ip m)) \<and> ind ?k' ip = ind k ip) \<or>
        (ind k ip = 0 \<and> (\<forall>m<MAXFILE. file_block ?k' ip m = file_block k ip m) \<and> ind ?k' ip = r)"
      proof (cases "j < NDIRECT")
        case True
        then show ?thesis using fb z by (intro disjI1 exI [of _ j]) (auto simp: ind_def ia file_block_def)
      next
        case c: False
        then have "j = NDIRECT" using j by simp
        then show ?thesis using fb z unfolding ind_def ia by simp
      qed
      moreover have "view ?k' bn = view k bn" if "used k bn" "bn \<noteq> sb_bmapstart (sb k)" for bn using that f(2) by (auto simp: v f(5))
      ultimately show "file_wf ?k' ip" "ext k ?k' ip"
        using grow_ok [OF wf f(2,3), of ?k'] f(4) it by (simp_all add: v set_addr_def tf rg)
    qed
    moreover have "content ?k' ip off = content k ip off" if off: "off < MAXFILE * BSIZE" for off
    proof -
      have w: "view ?k' (file_block k ip m) = view k (file_block k ip m)" if "m < MAXFILE" "file_block k ip m \<noteq> 0" for m
        using file_blockD(1,2) [OF wf that] f(2) by (auto simp: v f(5) meta_def)
      show ?thesis
      proof (cases "j < NDIRECT")
        case True
        show ?thesis
          by (rule content_grow [OF _ _ False w _ off]) (use fb z True f(5) in \<open>auto simp: file_block_def v\<close>)
      next
        case False
        have "off div BSIZE < MAXFILE" using off by (simp add: less_mult_imp_div_less)
        then show ?thesis using fb w False by (auto simp: content_def file_byte_def)
      qed
    qed
    moreover have "ind ?k' ip = ind k ip" if "ind k ip \<noteq> 0" using that z by (auto simp: ind_def ia)
    ultimately have g: "grown k ?k' ip" using fb z by (auto simp: grown_def file_block_def)
    have "\<forall>m<MAXFILE. file_block ?k' ip m = file_block k ip m" if "j = NDIRECT" using fb that by simp
    then show ?thesis using g s k1(2,4) f(1) False ia
      by (intro exI [of _ r] exI [of _ ?k'] exI [of _ W']) (simp add: set_addr_def)
  qed
qed

text \<open>The part of \<open>bmap\<close> below an indirect block that exists.\<close>

lemma indirect_fresh:
  assumes t: "tx i {} W k" and wf: "file_wf k ip" and bm: "sb_bmapstart (sb k) \<in> W" and room: "card (logged k \<union> W) + 1 < log_room (klog k)"
    and n: "NDIRECT \<le> n" "n < MAXFILE" and ind: "ind k ip \<noteq> 0" "ind k ip \<in> W" and z: "file_block k ip n = 0"
  shows "\<exists>r k' W'. bmap i ip n k = Inr (r, k') \<and> tx i {} W' k' \<and> grown k k' ip \<and> logged k' \<union> W' = logged k \<union> W' \<and>
    (r = 0 \<and> W' = W \<and> next_free k' = None \<or> r \<noteq> 0 \<and> W' = insert r W \<and> file_block k' ip n = r)"
proof -
  let ?ind = "ind k ip" and ?off = "4 * (n - NDIRECT)"
  have io: "?ind \<in> owned k ip" using ind by (simp add: owned_def)
  note iu = file_wfD(3,4) [OF wf io]
  have dev: "i_dev (itable k ip) = ROOTDEV" by (rule file_wfD(1) [OF wf])
  obtain b k1 where k1: "bread i ROOTDEV ?ind k = Inr (b, k1)" "tx i {b} W k1" "b_blockno (bufs k1 b) = ?ind"
      "b_data (bufs k1 b) = view k ?ind" "view k1 = view k" "txf {} k k1" "logged k1 = logged k"
    using tx_bread [OF t ind(2)] by auto
  note f1 = txfD [OF k1(6)] and r1 = txf_region [OF k1(6)]
  have wf1: "file_wf k1 ip" by (rule grownD(1) [OF grown_same [OF wf k1(6,5)]])
  have u1: "used k1 = used k" by (simp add: fun_eq_iff used_def bitmap_def k1(5) f1)
  have H1: "used k1 (b_blockno (bufs k1 c)) \<and> b_blockno (bufs k1 c) \<noteq> sb_bmapstart (sb k1)" if "c \<in> {b}" for c
    using that iu by (simp add: k1(3) u1 f1 meta_def)
  obtain r k2 W' where k2: "balloc i ROOTDEV k1 = Inr (r, k2)" "tx i {b} W' k2" "txf {b} k1 k2" "logged k2 \<union> W' = logged k1 \<union> W'"
    "r = 0 \<and> W' = W \<and> view k2 = view k1 \<and> next_free k1 = None \<or>
     r \<noteq> 0 \<and> W' = insert r W \<and> \<not> used k1 r \<and> unat r < unat (sb_size (sb k1)) \<and> (\<forall>bn. used k2 bn \<longleftrightarrow> bn = r \<or> used k1 bn) \<and>
     (\<exists>d. view k2 = (view k1)(sb_bmapstart (sb k1) := d, r := zeroed_block (view k1 r)))"
    using balloc_fresh [OF k1(2) wf1 _ _ H1] bm room by (auto simp: f1 r1 k1(7))
  have b2: "b_blockno (bufs k2 b) = ?ind" "b_data (bufs k2 b) = view k ?ind" using txfD(7) [OF k2(3), of b] k1(3,4) by (simp_all add: same_buf_def)
  have f2: "txf {} k k2" using txf_trans [OF k1(6) k2(3)] by simp
  have w: "blk_word (view k ?ind) ?off 4 = (0 :: uint)" using z ind n by (simp add: file_block_def ind_def)
  have n': "n - NDIRECT < NINDIRECT" using n by linarith
  have step: "bmap i ip n k = bindR (balloc i ROOTDEV k1) (\<lambda>(a, k3).
      if a = 0 then bindR (brelse i b k3) (\<lambda>k4. Inr (a, k4))
      else bindR (log_write b (set_data b (blk_store (b_data (bufs k3 b)) ?off (bytes_of_word 4 a)) k3)) (\<lambda>k4.
        bindR (brelse i b k4) (\<lambda>k5. Inr (a, k5))))"
    using k1(1,4) ind(1) n n' w dev by (simp add: bmap_def bmap_slot_def ind_def Let_def f1)
  show ?thesis
  proof (cases "r = 0")
    case True
    obtain k3 where k3: "brelse i b k2 = Inr k3" "tx i ({b} - {b}) W' k3" "view k3 = view k2" "txf {b} k2 k3" "logged k3 = logged k2"
      using tx_brelse [OF k2(2), of b] by auto
    have "grown k k3 ip" using grown_same [OF wf txf_trans [OF f2 k3(4)]] k3(3) k2(5) k1(5) True by simp
    moreover have "next_free k3 = None" using next_free_same [OF k2(3)] next_free_same [OF k3(4,3)] k2(5) True by simp
    ultimately show ?thesis using step k2 k3 True k1(7) by (intro exI [of _ 0] exI [of _ k3] exI [of _ W]) simp
  next
    case False
    obtain d where f: "W' = insert r W" "\<not> used k r" "unat r < unat (sb_size (sb k))" "\<And>bn. used k2 bn \<longleftrightarrow> bn = r \<or> used k bn"
        "view k2 = (view k)(sb_bmapstart (sb k) := d, r := zeroed_block (view k r))"
      using k2(5) False by (auto simp: u1 f1 k1(5))
    let ?d = "blk_store (view k ?ind) ?off (bytes_of_word 4 r)"
    obtain k3 where k3: "log_write b (set_data b ?d k2) = Inr k3" "tx i {b} W' k3" "view k3 = (view k2)(?ind := ?d)"
        "txf {} k2 k3" "logged k3 = insert ?ind (logged k2)"
      using tx_log [OF k2(2), of b ?d] by (auto simp: b2)
    obtain k' where k': "brelse i b k3 = Inr k'" "tx i {} W' k'" "view k' = view k3" "txf {b} k3 k'" "logged k' = logged k3"
      using tx_brelse [OF k3(2), of b] by auto
    have fr: "txf {} k k'" using txf_trans [OF txf_trans [OF f2 k3(4)] k'(4)] by simp
    note tf = txfD [OF fr] and rg = txf_region [OF fr]
    have r: "bmap i ip n k = Inr (r, k')" using step k2(1) k3(1) k'(1) False b2 by simp
    have ni: "?ind \<noteq> r" "?ind \<noteq> sb_bmapstart (sb k)" using iu f(2) by (auto simp: meta_def)
    have v: "view k' = (view k)(sb_bmapstart (sb k) := d, r := zeroed_block (view k r), ?ind := ?d)" by (simp add: k'(3) k3(3) f(5))
    have u: "used k' bn \<longleftrightarrow> bn = r \<or> used k bn" for bn
    proof -
      have "used k' bn = used k2 bn" using ni txfD(8) [OF f2] by (simp add: used_def bitmap_def tf k'(3) k3(3))
      then show ?thesis by (simp add: f(4))
    qed
    have fb: "file_block k' ip m = (if m = n then r else file_block k ip m)" if "m < MAXFILE" for m
    proof -
      have "blk_word ?d (4 * (m - NDIRECT)) 4 = (if m = n then r else blk_word (view k ?ind) (4 * (m - NDIRECT)) 4)" if "NDIRECT \<le> m"
      proof (cases "m = n")
        case False
        then have "4 * (m - NDIRECT) + 4 \<le> ?off \<or> ?off + 4 \<le> 4 * (m - NDIRECT)" using that n(1) by linarith
        then show ?thesis using False n that blk_word_store_other [of "4 * (m - NDIRECT)" 4 ?off "bytes_of_word 4 r" "view k ?ind"] by auto
      qed (use n blk_word_store_same [of 4 "view k ?ind" ?off r] in auto)
      then show ?thesis using n ind(1) by (auto simp: file_block_def tf v ind_def)
    qed
    have in': "ind k' ip = ind k ip" by (simp add: ind_def tf)
    have vu: "view k' bn = view k bn" if "used k bn" "bn \<noteq> sb_bmapstart (sb k)" "bn \<noteq> ?ind" for bn using that f(2) by (auto simp: v)
    have "file_wf k' ip" "ext k k' ip"
    proof -
      have "(\<exists>n<MAXFILE. file_block k ip n = 0 \<and> (\<forall>m<MAXFILE. file_block k' ip m = (if m = n then r else file_block k ip m)) \<and> ind k' ip = ind k ip) \<or>
        (ind k ip = 0 \<and> (\<forall>m<MAXFILE. file_block k' ip m = file_block k ip m) \<and> ind k' ip = r)"
        using n z fb in' by (intro disjI1 exI [of _ n]) simp
      moreover have "view k' bn = view k bn" if "used k bn" "bn \<notin> owned k ip" "bn \<noteq> sb_bmapstart (sb k)" for bn
        using vu [OF that(1,3)] that(2) io by blast
      ultimately show "file_wf k' ip" "ext k k' ip"
        using grow_ok [OF wf f(2,3), of k'] u by (simp_all add: tf rg)
    qed
    moreover have "content k' ip off = content k ip off" if "off < MAXFILE * BSIZE" for off
    proof (rule content_grow [OF fb z False _ _ that])
      show "view k' (file_block k ip m) = view k (file_block k ip m)" if "m < MAXFILE" "file_block k ip m \<noteq> 0" for m
        using file_blockD(1,2) [OF wf that] file_wfD(10) [OF wf that] by (intro vu) (auto simp: meta_def)
      show "view k' r = zeroed_block (view k r)" using ni by (simp add: v)
    qed
    ultimately have "grown k k' ip" using fb z in' by (auto simp: grown_def)
    moreover have "logged k' \<union> W' = logged k \<union> W'" using k2(4) ind(2) by (auto simp: k'(5) k3(5) k1(7) f(1))
    ultimately show ?thesis using r k'(2) f(1) False fb [OF n(2)]
      by (intro exI [of _ r] exI [of _ k'] exI [of _ W']) simp
  qed
qed

text \<open>
  What is left of the room in the log is counted with \<open>ecost\<close>: a call of \<open>bmap\<close> needs room for the block
  it returns, and once for the indirect block.
\<close>

definition ecost :: "kernel \<Rightarrow> nat \<Rightarrow> uint set \<Rightarrow> nat" where
  "ecost k ip W = (if ind k ip \<noteq> 0 \<and> ind k ip \<in> W then 0 else 1)"

lemma card_adopt: "finite W \<Longrightarrow> card (logged k \<union> insert a W) \<le> card (logged k \<union> W) + 1"
  by (simp add: card_insert_if logged_def)

lemma ecost_mono: "grown k k' ip \<Longrightarrow> V \<subseteq> V' \<Longrightarrow> ecost k' ip V' \<le> ecost k ip V"
  using grownD(5) by (auto simp: ecost_def)

text \<open>The postcondition of \<open>bmap\<close>.\<close>

definition bmap_post :: "nat \<Rightarrow> uint set \<Rightarrow> nat \<Rightarrow> nat \<Rightarrow> kernel \<Rightarrow> uint \<Rightarrow> kernel \<Rightarrow> uint set \<Rightarrow> bool" where
  "bmap_post i W ip n k r k' W' \<longleftrightarrow> bmap i ip n k = Inr (r, k') \<and> tx i {} W' k' \<and> grown k k' ip \<and> W \<subseteq> W' \<and>
    (if r = 0 then next_free k' = None else r \<in> W' \<and> file_block k' ip n = r) \<and> logged k' \<union> W' = logged k \<union> W' \<and> card (logged k' \<union> W') + ecost k' ip W' \<le> card (logged k \<union> W) + ecost k ip W + 1"

lemma bmap_post_indirect:
  assumes t: "tx i {} W k" and wf: "file_wf k ip" and bm: "sb_bmapstart (sb k) \<in> W" and n: "NDIRECT \<le> n" "n < MAXFILE"
    and room: "card (logged k \<union> W) + 1 < log_room (klog k)" and ind: "ind k ip \<noteq> 0" "ind k ip \<in> W" and z: "file_block k ip n = 0"
  shows "\<exists>r k' W'. bmap_post i W ip n k r k' W'"
proof -
  obtain r k' W' where k': "bmap i ip n k = Inr (r, k')" "tx i {} W' k'" "grown k k' ip" "logged k' \<union> W' = logged k \<union> W'"
      "r = 0 \<and> W' = W \<and> next_free k' = None \<or> r \<noteq> 0 \<and> W' = insert r W \<and> file_block k' ip n = r"
    using indirect_fresh [OF t wf bm room n ind z] by auto
  have W': "W \<subseteq> W'" "if r = 0 then next_free k' = None else r \<in> W' \<and> file_block k' ip n = r" using k'(5) by auto
  have "card (logged k \<union> W') \<le> card (logged k \<union> W) + 1" using k'(5) card_adopt [OF txD(2) [OF t], of k r] by auto
  with ecost_mono [OF k'(3) W'(1)] have "card (logged k' \<union> W') + ecost k' ip W' \<le> card (logged k \<union> W) + ecost k ip W + 1"
    unfolding k'(4) by linarith
  with k' W' show ?thesis unfolding bmap_post_def by blast
qed

lemma bmap_post_no_indirect:
  assumes t: "tx i {} W k" and wf: "file_wf k ip" and bm: "sb_bmapstart (sb k) \<in> W" and n: "NDIRECT \<le> n" "n < MAXFILE"
    and room: "card (logged k \<union> W) + 2 < log_room (klog k)" and ind: "ind k ip = 0" and z: "file_block k ip n = 0"
  shows "\<exists>r k' W'. bmap_post i W ip n k r k' W'"
proof -
  have z': "i_addrs (itable k ip) NDIRECT = 0" using ind by (simp add: ind_def)
  have e: "ecost k ip W = 1" using ind by (simp add: ecost_def)
  have room': "card (logged k \<union> W) + 1 < log_room (klog k)" using room by linarith
  obtain a k1 W1 where k1: "bmap_slot i ip NDIRECT k = Inr (a, k1)" "tx i {} W1 k1" "grown k k1 ip" "logged k1 \<union> W1 = logged k \<union> W1"
      "a = 0 \<and> W1 = W \<and> next_free k1 = None \<or> a \<noteq> 0 \<and> W1 = insert a W \<and> i_addrs (itable k1 ip) = (i_addrs (itable k ip))(NDIRECT := a) \<and>
         (NDIRECT = NDIRECT \<longrightarrow> (\<forall>m<MAXFILE. file_block k1 ip m = file_block k ip m))"
    using slot_fresh [OF t wf bm room' order_refl z'] by (elim exE conjE) (rule that)
  have nn: "n - NDIRECT < NINDIRECT" using n by linarith
  show ?thesis
  proof (cases "a = 0")
    case a: True
    have "bmap i ip n k = Inr (0, k1)" using k1(1) n nn a by (simp add: bmap_def)
    moreover have "ecost k1 ip W \<le> 1" by (simp add: ecost_def)
    ultimately have "bmap_post i W ip n k 0 k1 W" using k1 a e by (simp add: bmap_post_def)
    then show ?thesis by blast
  next
    case a: False
    have W1: "W1 = insert a W" and ia: "i_addrs (itable k1 ip) = (i_addrs (itable k ip))(NDIRECT := a)"
      and fb: "\<forall>m<MAXFILE. file_block k1 ip m = file_block k ip m" using k1(5) a by simp_all
    have i1: "ind k1 ip = a" unfolding ind_def ia by simp
    have "bmap_slot i ip NDIRECT k1 = Inr (a, k1)" using a by (simp add: bmap_slot_def ia)
    then have same: "bmap i ip n k = bmap i ip n k1" using k1(1) n nn by (simp add: bmap_def)
    have z1: "file_block k1 ip n = 0" using fb n z by simp
    have c1: "card (logged k1 \<union> W1) \<le> card (logged k \<union> W) + 1" using card_adopt [OF txD(2) [OF t], of k a] by (subst k1(4)) (simp only: W1)
    have e1: "ecost k1 ip W1 = 0" using a by (simp add: ecost_def i1 W1)
    have x: "ext k k1 ip" by (rule grownD(2) [OF k1(3)])
    have bm1: "sb_bmapstart (sb k1) \<in> W1" using bm by (simp add: W1 extD(1) [OF x])
    have room1: "card (logged k1 \<union> W1) + 1 < log_room (klog k1)" using c1 room unfolding extD(3) [OF x] by linarith
    obtain r k' W' where k': "bmap_post i W1 ip n k1 r k' W'"
      using bmap_post_indirect [OF k1(2) grownD(1) [OF k1(3)] bm1 n room1 _ _ z1] a i1 W1 by auto
    note p = k' [unfolded bmap_post_def]
    have "logged k' \<union> W' = logged k \<union> W'"
    proof -
      have "W1 \<subseteq> W'" "logged k' \<union> W' = logged k1 \<union> W'" using p by simp_all
      then show ?thesis using k1(4) by blast
    qed
    moreover have "grown k k' ip" using grown_trans [OF k1(3)] p by simp
    moreover have "card (logged k' \<union> W') + ecost k' ip W' \<le> card (logged k \<union> W) + ecost k ip W + 1" using p c1 e e1 by linarith
    moreover have "W \<subseteq> W'" using p W1 by simp
    ultimately have "bmap_post i W ip n k r k' W'" using p same by (simp add: bmap_post_def)
    then show ?thesis by blast
  qed
qed

lemma bmap_ok:
  assumes t: "tx i {} W k" and wf: "file_wf k ip" and bm: "sb_bmapstart (sb k) \<in> W" and n: "n < MAXFILE"
    and room: "card (logged k \<union> W) + ecost k ip W + 1 < log_room (klog k)"
  shows "\<exists>r k' W'. bmap_post i W ip n k r k' W'"
proof -
  have fin: "finite W" by (rule txD(2) [OF t])
  consider (mapped) "file_block k ip n \<noteq> 0" | (direct) "file_block k ip n = 0" "n < NDIRECT"
    | (hole) "file_block k ip n = 0" "NDIRECT \<le> n" "ind k ip = 0" | (indirect) "file_block k ip n = 0" "NDIRECT \<le> n" "ind k ip \<noteq> 0" by linarith
  then show ?thesis
  proof cases
    case mapped
    let ?r = "file_block k ip n"
    obtain P where P: "rd i P k" "\<And>k'. rd i P k' \<Longrightarrow> rdf P k k' \<Longrightarrow> tx i {} W k' \<and> txf {} k k' \<and> logged k' = logged k"
      using tx_rd [OF t] by blast
    obtain k' where k': "bmap i ip n k = Inr (?r, k')" "rd i P k'" "rdf P k k'"
      using bmap_mapped [OF P(1) file_wfD(1) [OF wf] n mapped] by blast
    have t': "tx i {} W k'" "txf {} k k'" "logged k' = logged k" using P(2) [OF k'(2,3)] by simp_all
    have g: "grown k k' ip" by (rule grown_same [OF wf t'(2)]) (use rdfD [OF k'(3)] in simp)
    have nr: "?r \<notin> log_region (klog k')" using file_blockD(2) [OF wf n mapped] txf_region(1) [OF t'(2)] by (simp add: meta_def)
    have "tx i {} (insert ?r W) k'" by (rule tx_adopt [OF t'(1) _ nr]) (use t'(3) room txf_region(2) [OF t'(2)] in simp)
    moreover have "card (logged k' \<union> insert ?r W) + ecost k' ip (insert ?r W) \<le> card (logged k \<union> W) + ecost k ip W + 1"
      using card_adopt [OF fin, of k' ?r] ecost_mono [OF g subset_insertI [of W ?r]] unfolding t'(3) by linarith
    ultimately have "bmap_post i W ip n k ?r k' (insert ?r W)" using mapped k'(1) g t'(3) grownD(4) [OF g n mapped] by (auto simp: bmap_post_def)
    then show ?thesis by blast
  next
    case direct
    have room': "card (logged k \<union> W) + 1 < log_room (klog k)" using room by linarith
    have z: "i_addrs (itable k ip) n = 0" using direct by (simp add: file_block_def)
    obtain r k' W' where k': "bmap_slot i ip n k = Inr (r, k')" "tx i {} W' k'" "grown k k' ip" "logged k' \<union> W' = logged k \<union> W'"
        "r = 0 \<and> W' = W \<and> next_free k' = None \<or> r \<noteq> 0 \<and> W' = insert r W \<and> i_addrs (itable k' ip) = (i_addrs (itable k ip))(n := r) \<and>
          (n = NDIRECT \<longrightarrow> (\<forall>m<MAXFILE. file_block k' ip m = file_block k ip m))"
      using slot_fresh [OF t wf bm room' less_imp_le [OF direct(2)] z] by (elim exE conjE) (rule that)
    have W': "W \<subseteq> W'" "card (logged k \<union> W') \<le> card (logged k \<union> W) + 1" using k'(5) card_adopt [OF fin, of k r] by auto
    have "if r = 0 then next_free k' = None else r \<in> W' \<and> file_block k' ip n = r" using k'(5) direct by (auto simp: file_block_def)
    moreover have "card (logged k' \<union> W') + ecost k' ip W' \<le> card (logged k \<union> W) + ecost k ip W + 1"
      using W'(2) ecost_mono [OF k'(3) W'(1)] unfolding k'(4) by linarith
    moreover have "bmap i ip n k = Inr (r, k')" using k'(1) direct by (simp add: bmap_def)
    ultimately have "bmap_post i W ip n k r k' W'" using k'(2-4) W'(1) by (simp add: bmap_post_def)
    then show ?thesis by blast
  next
    case hole
    have "card (logged k \<union> W) + 2 < log_room (klog k)" using room hole(3) by (simp add: ecost_def)
    from bmap_post_no_indirect [OF t wf bm hole(2) n this hole(3,1)] show ?thesis .
  next
    case indirect
    show ?thesis
    proof (cases "ind k ip \<in> W")
      case True
      have "card (logged k \<union> W) + 1 < log_room (klog k)" using room by linarith
      from bmap_post_indirect [OF t wf bm indirect(2) n this indirect(3) True indirect(1)] show ?thesis .
    next
      case False
      let ?W = "insert (ind k ip) W"
      have "ind k ip \<in> owned k ip" using indirect by (simp add: owned_def)
      then have "ind k ip \<notin> log_region (klog k)" using file_wfD(4) [OF wf] by (simp add: meta_def)
      then have t': "tx i {} ?W k" using tx_adopt [OF t] room by simp
      have e: "ecost k ip W = 1" "ecost k ip ?W = 0" using False indirect(3) by (simp_all add: ecost_def)
      have c: "card (logged k \<union> ?W) \<le> card (logged k \<union> W) + 1" by (rule card_adopt [OF fin])
      then have "card (logged k \<union> ?W) + 1 < log_room (klog k)" using room e by linarith
      then obtain r k' W' where k': "bmap_post i ?W ip n k r k' W'"
        using bmap_post_indirect [OF t' wf _ indirect(2) n _ indirect(3) insertI1 indirect(1)] bm by blast
      note p = k' [unfolded bmap_post_def]
      have "card (logged k' \<union> W') + ecost k' ip W' \<le> card (logged k \<union> W) + ecost k ip W + 1" using p c e by linarith
      then have "bmap_post i W ip n k r k' W'" using p by (simp add: bmap_post_def)
      then show ?thesis by blast
    qed
  qed
qed

subsection \<open>writei\<close>

text \<open>The bytes \<open>bs\<close> have been written at \<open>off\<close>: the file holds them there, and what it held elsewhere.\<close>

definition written :: "kernel \<Rightarrow> kernel \<Rightarrow> nat \<Rightarrow> nat \<Rightarrow> byte list \<Rightarrow> bool" where
  "written k k' ip off bs \<longleftrightarrow> file_wf k' ip \<and> ext k k' ip \<and> mapped k' ip off (off + length bs) \<and>
     (\<forall>p<MAXFILE * BSIZE. content k' ip p = (if off \<le> p \<and> p < off + length bs then bs ! (p - off) else content k ip p)) \<and>
     (\<forall>m<MAXFILE. file_block k ip m \<noteq> 0 \<longrightarrow> file_block k' ip m = file_block k ip m)"

lemma writtenD:
  assumes "written k k' ip off bs"
  shows "file_wf k' ip" "ext k k' ip" "mapped k' ip off (off + length bs)"
    "p < MAXFILE * BSIZE \<Longrightarrow> content k' ip p = (if off \<le> p \<and> p < off + length bs then bs ! (p - off) else content k ip p)"
    "m < MAXFILE \<Longrightarrow> file_block k ip m \<noteq> 0 \<Longrightarrow> file_block k' ip m = file_block k ip m"
  using assms unfolding written_def by blast+

lemma written_Nil: "grown k k' ip \<Longrightarrow> off \<le> MAXFILE * BSIZE \<Longrightarrow> written k k' ip off []"
  unfolding written_def grown_def mapped_def by auto

lemma written_trans:
  assumes a: "written k k' ip off bs" and b: "written k' k'' ip (off + length bs) cs"
  shows "written k k'' ip off (bs @ cs)"
  unfolding written_def
proof (intro conjI allI impI)
  show "mapped k'' ip off (off + length (bs @ cs))"
    unfolding mapped_def
  proof (intro conjI allI impI)
    show "off + length (bs @ cs) \<le> MAXFILE * BSIZE" using writtenD(3) [OF b] by (simp add: mapped_def)
    then show "file_block k'' ip (j div BSIZE) \<noteq> 0" if "off \<le> j \<and> j < off + length (bs @ cs)" for j
    proof (cases "j < off + length bs")
      case True
      have "file_block k' ip (j div BSIZE) \<noteq> 0" using writtenD(3) [OF a] that True by (simp add: mapped_def)
      moreover have "j div BSIZE < MAXFILE" using that \<open>off + length (bs @ cs) \<le> _\<close> by (simp add: less_mult_imp_div_less)
      ultimately show ?thesis using writtenD(5) [OF b] by simp
    qed (use writtenD(3) [OF b] that in \<open>simp add: mapped_def\<close>)
  qed
  show "content k'' ip p = (if off \<le> p \<and> p < off + length (bs @ cs) then (bs @ cs) ! (p - off) else content k ip p)" if "p < MAXFILE * BSIZE" for p
    unfolding writtenD(4) [OF b that] writtenD(4) [OF a that] by (auto simp: nth_append)
  show "file_block k'' ip m = file_block k ip m" if "m < MAXFILE" "file_block k ip m \<noteq> 0" for m
    using writtenD(5) [OF a that] writtenD(5) [OF b that(1)] that(2) by simp
qed (use writtenD(1) [OF b] ext_trans [OF writtenD(2) [OF a] writtenD(2) [OF b]] in simp_all)

lemma in_block:
  fixes n p l q c :: nat
  assumes p: "p + l \<le> c"
  shows "n * c + p \<le> q \<and> q < n * c + p + l \<longleftrightarrow> q div c = n \<and> p \<le> q mod c \<and> q mod c < p + l"
proof (cases "q div c = n")
  case True
  have "q = n * c + q mod c" using div_mult_mod_eq [of q c] unfolding True by simp
  then show ?thesis using True by linarith
next
  case False
  then consider "q div c + 1 \<le> n" | "n + 1 \<le> q div c" by linarith
  then show ?thesis
  proof cases
    case 1
    then have "(q div c + 1) * c \<le> n * c" by (rule mult_le_mono1)
    moreover have "q < (q div c + 1) * c \<or> c = 0" using dividend_less_div_times [of c q] by (cases "c = 0") auto
    ultimately show ?thesis using False p by auto
  next
    case 2
    then have "(n + 1) * c \<le> (q div c) * c" by (rule mult_le_mono1)
    moreover have "(q div c) * c \<le> q" by simp
    moreover have "(n + 1) * c = n * c + c" by simp
    ultimately have "n * c + p + l \<le> q" using p by linarith
    then show ?thesis using False by auto
  qed
qed

lemma block_write:
  assumes t: "tx i {} W k" and wf: "file_wf k ip" and n: "n < MAXFILE" and r: "file_block k ip n = r" "r \<noteq> 0" "r \<in> W"
  shows "\<exists>b k1. bread i ROOTDEV r k = Inr (b, k1) \<and> (\<forall>bs p. p + length bs \<le> BSIZE \<longrightarrow>
    (\<exists>k2 k3. log_write b (set_data b (blk_store (b_data (bufs k1 b)) p bs) k1) = Inr k2 \<and> brelse i b k2 = Inr k3 \<and> tx i {} W k3 \<and>
       written k k3 ip (n * BSIZE + p) bs \<and> logged k3 = insert r (logged k) \<and> ind k3 ip = ind k ip))"
proof -
  obtain b k1 where k1: "bread i ROOTDEV r k = Inr (b, k1)" "b_data (bufs k1 b) = view k r"
      "\<And>d. \<exists>k2 k3. log_write b (set_data b d k1) = Inr k2 \<and> brelse i b k2 = Inr k3 \<and> tx i {} W k3 \<and> view k3 = (view k)(r := d) \<and>
         txf {} k k3 \<and> logged k3 = insert r (logged k)"
    using tx_modify [OF t r(3)] by blast
  have ne: "file_block k ip n \<noteq> 0" using r by simp
  note fbn = file_blockD(1,2) [OF wf n ne, unfolded r(1)]
  have nb: "r \<noteq> sb_bmapstart (sb k)" using fbn by (simp add: meta_def)
  have ni: "r \<noteq> ind k ip" using file_wfD(10) [OF wf n ne] by (simp add: r)
  have "\<exists>k2 k3. log_write b (set_data b (blk_store (b_data (bufs k1 b)) p bs) k1) = Inr k2 \<and> brelse i b k2 = Inr k3 \<and> tx i {} W k3 \<and>
       written k k3 ip (n * BSIZE + p) bs \<and> logged k3 = insert r (logged k) \<and> ind k3 ip = ind k ip" if p: "p + length bs \<le> BSIZE" for bs p
  proof -
    let ?d = "blk_store (view k r) p bs"
    obtain k2 k3 where k3: "log_write b (set_data b ?d k1) = Inr k2" "brelse i b k2 = Inr k3" "tx i {} W k3" "view k3 = (view k)(r := ?d)"
        "txf {} k k3" "logged k3 = insert r (logged k)" using k1(3) by blast
    note d = txfD [OF k3(5)] and rg = txf_region [OF k3(5)]
    have u: "used k3 = used k" using nb by (simp add: fun_eq_iff used_def bitmap_def k3(4) d)
    have fb: "file_block k3 ip = file_block k ip" using ni by (auto simp: fun_eq_iff file_block_def k3(4) d ind_def)
    have o: "owned k3 ip = owned k ip" "meta k3 ip = meta k ip" "ind k3 ip = ind k ip" by (simp_all add: owned_def meta_def ind_def fb d rg)
    have "file_wf k3 ip" using wf by (simp add: file_wf_def u o fb d rg)
    moreover have "ext k k3 ip"
    proof -
      have "r \<in> owned k ip" using n r by (auto simp: owned_def)
      then have "view k3 bn = view k bn" if "bn \<notin> owned k ip" for bn using that by (auto simp: k3(4))
      then show ?thesis unfolding ext_def u o by (simp add: d rg)
    qed
    moreover have "mapped k3 ip (n * BSIZE + p) (n * BSIZE + p + length bs)"
    proof -
      have "(n + 1) * BSIZE \<le> MAXFILE * BSIZE" using n by (intro mult_le_mono1) simp
      then have "n * BSIZE + p + length bs \<le> MAXFILE * BSIZE" using p by simp
      then show ?thesis unfolding mapped_def in_block [OF p] fb using ne by blast
    qed
    moreover have "content k3 ip q = (if n * BSIZE + p \<le> q \<and> q < n * BSIZE + p + length bs then bs ! (q - (n * BSIZE + p)) else content k ip q)"
      if "q < MAXFILE * BSIZE" for q
    proof -
      have l: "q div BSIZE < MAXFILE" using that by (simp add: less_mult_imp_div_less)
      show ?thesis
      proof (cases "q div BSIZE = n")
        case True
        have "content k3 ip q = ?d (q mod BSIZE)" "content k ip q = view k r (q mod BSIZE)"
          unfolding content_def file_byte_def fb k3(4) True r(1) using r(2) by simp_all
        moreover have "q - (n * BSIZE + p) = q mod BSIZE - p" using div_mult_mod_eq [of q BSIZE] unfolding True by linarith
        ultimately show ?thesis unfolding in_block [OF p] blk_store_def by (simp add: True)
      next
        case False
        have "file_block k ip (q div BSIZE) \<noteq> r" using file_wfD(9) [OF wf n l ne] False r(1) by blast
        then have "content k3 ip q = content k ip q" unfolding content_def file_byte_def fb k3(4) by simp
        then show ?thesis unfolding in_block [OF p] using False by simp
      qed
    qed
    ultimately have "written k k3 ip (n * BSIZE + p) bs" by (simp add: written_def fb)
    then show ?thesis using k3 o(3) k1(2) by auto
  qed
  then show ?thesis using k1(1) by blast
qed

text \<open>The number of blocks that the bytes from \<open>off\<close> on lie in.\<close>

definition blocks_of :: "nat \<Rightarrow> nat \<Rightarrow> nat" where
  "blocks_of off len = (if len = 0 then 0 else (off mod BSIZE + len + BSIZE - 1) div BSIZE)"

lemma blocks_of_step:
  assumes "0 < len" and "m = min len (BSIZE - off mod BSIZE)"
  shows "blocks_of off len = blocks_of (off + m) (len - m) + 1"
proof (cases "len \<le> BSIZE - off mod BSIZE")
  case True
  then have "m = len" using assms by simp
  moreover have "(off mod BSIZE + len + BSIZE - 1) div BSIZE = 1"
    using True assms mod_less_divisor [of BSIZE off] by (intro div_nat_eqI) auto
  ultimately show ?thesis using assms by (simp add: blocks_of_def)
next
  case False
  have m: "m = BSIZE - off mod BSIZE" using False assms by simp
  have "off mod BSIZE < BSIZE" by simp
  then have "off + m = off div BSIZE * BSIZE + BSIZE" using m div_mult_mod_eq [of off BSIZE] by linarith
  then have "off + m = (off div BSIZE + 1) * BSIZE" by simp
  then have "(off + m) mod BSIZE = 0" by (simp only: mod_mult_self2_is_0)
  moreover have "off mod BSIZE + len + BSIZE - 1 = ((len - m) + BSIZE - 1) + BSIZE" using False m mod_less_divisor [of BSIZE off] by simp
  then have "(off mod BSIZE + len + BSIZE - 1) div BSIZE = ((len - m) + BSIZE - 1) div BSIZE + 1" by simp
  ultimately show ?thesis using False m assms(1) by (auto simp: blocks_of_def)
qed

lemma writei_loop_ok:
  assumes "tx i {} W k" and "file_wf k ip" and "sb_bmapstart (sb k) \<in> W" and "tot \<le> n" and "length bs = n - tot"
    and "off + (n - tot) \<le> MAXFILE * BSIZE" and "card (logged k \<union> W) + ecost k ip W + blocks_of off (n - tot) < log_room (klog k)"
  shows "\<exists>t k' W'. writei_loop i ip (Local bs) off n tot k = Inr (tot + t, off + t, k') \<and> t \<le> n - tot \<and> (t < n - tot \<longrightarrow> next_free k' = None) \<and>
    tx i {} W' k' \<and> W \<subseteq> W' \<and> written k k' ip off (take t bs) \<and> logged k' \<union> W' = logged k \<union> W' \<and>
    card (logged k' \<union> W') + ecost k' ip W' \<le> card (logged k \<union> W) + ecost k ip W + blocks_of off (n - tot)"
  using assms
proof (induction "n - tot" arbitrary: tot off bs k W rule: less_induct)
  case less
  note t = less.prems(1) and wf = less.prems(2) and bm = less.prems(3)
  show ?case
  proof (cases "tot < n")
    case False
    then have "writei_loop i ip (Local bs) off n tot k = Inr (tot + 0, off + 0, k)" by (simp add: writei_loop.simps)
    moreover have "written k k ip off (take 0 bs)" using written_Nil [OF grown_same [OF wf txf_refl refl]] less.prems(6) by simp
    ultimately show ?thesis using t False by (intro exI [of _ 0] exI [of _ k] exI [of _ W]) simp
  next
    case True
    define m where "m = min (n - tot) (BSIZE - off mod BSIZE)"
    have m: "0 < m" "m \<le> n - tot" "off mod BSIZE + m \<le> BSIZE" using True mod_less_divisor [of BSIZE off] by (auto simp: m_def)
    have q: "blocks_of off (n - tot) = blocks_of (off + m) (n - (tot + m)) + 1" using blocks_of_step [OF _ m_def] True by (simp add: diff_diff_left)
    have N: "off div BSIZE < MAXFILE" using less.prems(6) True by (simp add: less_mult_imp_div_less)
    have "card (logged k \<union> W) + ecost k ip W + 1 < log_room (klog k)" using less.prems(7) q by linarith
    from bmap_ok [OF t wf bm N this] obtain r k1 W1 where "bmap_post i W ip (off div BSIZE) k r k1 W1" by blast
    note p = this [unfolded bmap_post_def] and g = this [unfolded bmap_post_def, THEN conjunct2, THEN conjunct2, THEN conjunct1]
    note x1 = extD [OF grownD(2) [OF g]]
    show ?thesis
    proof (cases "r = 0")
      case r: True
      have "writei_loop i ip (Local bs) off n tot k = Inr (tot + 0, off + 0, k1)" using p r True by (simp add: writei_loop.simps)
      moreover have "written k k1 ip off (take 0 bs)" using written_Nil [OF g] less.prems(6) by simp
      moreover have "card (logged k1 \<union> W1) + ecost k1 ip W1 \<le> card (logged k \<union> W) + ecost k ip W + blocks_of off (n - tot)" using p q by linarith
      ultimately show ?thesis using p r by (intro exI [of _ 0] exI [of _ k1] exI [of _ W1]) simp
    next
      case r: False
      have t1: "tx i {} W1 k1" and wf1: "file_wf k1 ip" and fb: "file_block k1 ip (off div BSIZE) = r" "r \<in> W1" using p r grownD(1) [OF g] by simp_all
      obtain b k2 where k2: "bread i ROOTDEV r k1 = Inr (b, k2)" "\<And>bs p. p + length bs \<le> BSIZE \<Longrightarrow>
          (\<exists>k3 k4. log_write b (set_data b (blk_store (b_data (bufs k2 b)) p bs) k2) = Inr k3 \<and> brelse i b k3 = Inr k4 \<and> tx i {} W1 k4 \<and>
            written k1 k4 ip (off div BSIZE * BSIZE + p) bs \<and> logged k4 = insert r (logged k1) \<and> ind k4 ip = ind k1 ip)"
        using block_write [OF t1 wf1 N fb(1) r fb(2)] by blast
      let ?bs = "take m bs"
      have lb: "length ?bs = m" using m less.prems(5) by simp
      obtain k3 k4 where k4: "log_write b (set_data b (blk_store (b_data (bufs k2 b)) (off mod BSIZE) ?bs) k2) = Inr k3" "brelse i b k3 = Inr k4"
          "tx i {} W1 k4" "written k1 k4 ip off ?bs" "logged k4 = insert r (logged k1)" "ind k4 ip = ind k1 ip"
        using k2(2) [of "off mod BSIZE" ?bs] m lb by auto
      have w: "written k k4 ip off ?bs" using written_trans [of k k1 ip off "[]" k4 ?bs] written_Nil [OF g] less.prems(6) k4(4) by simp
      have step: "writei_loop i ip (Local bs) off n tot k = writei_loop i ip (Local (drop m bs)) (off + m) n (tot + m) k4"
        by (subst writei_loop.simps) (use True p r k2(1) k4(1,2) file_wfD(1) [OF wf1] in \<open>simp add: copy_in_def m_def [symmetric] Let_def\<close>)
      note x = extD [OF writtenD(2) [OF w]]
      have lg: "logged k4 \<union> W1 = logged k \<union> W1" using k4(5) fb(2) p by auto
      have c: "card (logged k4 \<union> W1) + ecost k4 ip W1 \<le> card (logged k \<union> W) + ecost k ip W + 1"
      proof -
        have "logged k4 \<union> W1 = logged k1 \<union> W1" "ecost k4 ip W1 = ecost k1 ip W1" using k4(5,6) fb(2) by (auto simp: ecost_def)
        then show ?thesis using p [THEN conjunct2, THEN conjunct2, THEN conjunct2, THEN conjunct2, THEN conjunct2, THEN conjunct2] by (simp only:)
      qed
      have h: "n - (tot + m) < n - tot" "tot + m \<le> n" "length (drop m bs) = n - (tot + m)" "off + m + (n - (tot + m)) \<le> MAXFILE * BSIZE"
        using True m less.prems(5,6) by simp_all
      have bm4: "sb_bmapstart (sb k4) \<in> W1" using bm p unfolding x(1) by blast
      have room4: "card (logged k4 \<union> W1) + ecost k4 ip W1 + blocks_of (off + m) (n - (tot + m)) < log_room (klog k4)"
        using less.prems(7) c unfolding x(3) q by linarith
      from less.hyps [OF h(1) k4(3) writtenD(1) [OF w] bm4 h(2,3,4) room4]
      obtain t k' W' where k': "writei_loop i ip (Local (drop m bs)) (off + m) n (tot + m) k4 = Inr (tot + m + t, off + m + t, k')" "t \<le> n - (tot + m)"
          "t < n - (tot + m) \<longrightarrow> next_free k' = None" "tx i {} W' k'" "W1 \<subseteq> W'" "written k4 k' ip (off + m) (take t (drop m bs))" "logged k' \<union> W' = logged k4 \<union> W'"
          "card (logged k' \<union> W') + ecost k' ip W' \<le> card (logged k4 \<union> W1) + ecost k4 ip W1 + blocks_of (off + m) (n - (tot + m))"
        by (elim exE conjE) (rule that)
      have "written k k' ip off (take (m + t) bs)" using written_trans [OF w] k'(6) lb by (simp add: take_add)
      moreover have "logged k' \<union> W' = logged k \<union> W'" using k'(5,7) lg by blast
      moreover have "W \<subseteq> W'" using p k'(5) by blast
      moreover have "m + t \<le> n - tot" "m + t < n - tot \<longrightarrow> next_free k' = None" using k'(2,3) m by auto
      moreover have "card (logged k' \<union> W') + ecost k' ip W' \<le> card (logged k \<union> W) + ecost k ip W + blocks_of off (n - tot)" using k'(8) c q by linarith
      ultimately show ?thesis using step k'(1,4) by (intro exI [of _ "m + t"] exI [of _ k'] exI [of _ W']) (simp add: add.assoc)
    qed
  qed
qed

end
