(* ===== verification/Writefile.thy ===== *)
theory Writefile
  imports Writei
begin

section \<open>The contract of writei\<close>

text \<open>
  From the loop of \<open>writei\<close> and \<open>iupdate\<close>: within a transaction \<open>writei\<close> changes the content of the file
  exactly where it is to, extends its size, leaves every block alone that is not the file's or new,
  and logs a number of blocks that a transaction has room for; \<open>readi\<close> then returns what was written.
\<close>

lemma iupdate_ok:
  assumes t: "tx i {} W k" and wf: "file_wf k ip" and W: "IBLOCK (i_inum (itable k ip)) (sb k) \<in> W"
  shows "\<exists>k'. iupdate i ip k = Inr k' \<and> tx i {} W k' \<and> txf {} k k' \<and> logged k' = insert (IBLOCK (i_inum (itable k ip)) (sb k)) (logged k) \<and>
    view k' = (view k)(IBLOCK (i_inum (itable k ip)) (sb k) :=
      blk_store (view k (IBLOCK (i_inum (itable k ip)) (sb k))) (inode_off (i_inum (itable k ip))) (encode_dinode (dinode_of (itable k ip))))"
proof -
  let ?ib = "IBLOCK (i_inum (itable k ip)) (sb k)"
  obtain b k1 where k1: "bread i ROOTDEV ?ib k = Inr (b, k1)" "b_data (bufs k1 b) = view k ?ib" "txf {} k k1"
      "\<And>d. \<exists>k2 k3. log_write b (set_data b d k1) = Inr k2 \<and> brelse i b k2 = Inr k3 \<and> tx i {} W k3 \<and> view k3 = (view k)(?ib := d) \<and>
        txf {} k k3 \<and> logged k3 = insert ?ib (logged k)"
    using tx_modify [OF t W] by blast
  let ?d = "blk_store (view k ?ib) (inode_off (i_inum (itable k ip))) (encode_dinode (dinode_of (itable k ip)))"
  obtain k2 k3 where k3: "log_write b (set_data b ?d k1) = Inr k2" "brelse i b k2 = Inr k3" "tx i {} W k3" "view k3 = (view k)(?ib := ?d)"
      "txf {} k k3" "logged k3 = insert ?ib (logged k)" using k1(4) [of ?d] by blast
  have "iupdate i ip k = Inr k3"
    using k1(1,2) k3(1,2) file_wfD(1) [OF wf] by (simp add: iupdate_def txfD(9) [OF k1(3)] Let_def)
  with k3(3-6) show ?thesis by blast
qed

text \<open>A change of the inode's size or of its block on disk does not change what the file holds.\<close>

lemma inode_change:
  assumes wf: "file_wf k ip" and i: "i_addrs (itable k' ip) = i_addrs (itable k ip)" "i_dev (itable k' ip) = i_dev (itable k ip)"
      "i_inum (itable k' ip) = i_inum (itable k ip)"
    and s: "sb k' = sb k" "log_region (klog k') = log_region (klog k)"
    and v: "\<And>bn. bn \<noteq> IBLOCK (i_inum (itable k ip)) (sb k) \<Longrightarrow> view k' bn = view k bn"
  shows "file_wf k' ip" "file_block k' ip = file_block k ip" "p < MAXFILE * BSIZE \<Longrightarrow> content k' ip p = content k ip p" "used k' = used k" "next_free k' = next_free k"
proof -
  let ?ib = "IBLOCK (i_inum (itable k ip)) (sb k)"
  have bm: "bitmap k' = bitmap k" using v [OF file_wfD(8) [OF wf]] by (simp add: bitmap_def s)
  show u: "used k' = used k" "next_free k' = next_free k" by (simp_all add: fun_eq_iff used_def next_free_def bm s)
  have own: "view k' bn = view k bn" if "bn \<in> owned k ip" for bn using file_wfD(4) [OF wf that] by (intro v) (auto simp: meta_def)
  then have "view k' (ind k ip) = view k (ind k ip)" if "ind k ip \<noteq> 0" using that by (simp add: owned_def)
  then show fb: "file_block k' ip = file_block k ip" unfolding file_block_def i ind_def by (intro HOL.ext) simp
  have "owned k' ip = owned k ip" "meta k' ip = meta k ip" "ind k' ip = ind k ip" by (simp_all add: owned_def meta_def ind_def fb i s)
  then show "file_wf k' ip" using wf by (simp add: file_wf_def u fb i s)
  show "content k' ip p = content k ip p" if "p < MAXFILE * BSIZE" for p
  proof (cases "file_block k ip (p div BSIZE) = 0")
    case False
    have "p div BSIZE < MAXFILE" using that by (simp add: less_mult_imp_div_less)
    then have "file_block k ip (p div BSIZE) \<in> owned k ip" using False by (auto simp: owned_def)
    then show ?thesis using own by (simp add: content_def file_byte_def fb)
  qed (simp add: content_def fb)
qed

lemma tx_forget: "tx i {} W k \<Longrightarrow> tx i {} {} k"
proof -
  assume t: "tx i {} W k"
  obtain P where P: "logged_ok (p_pid (procs k i)) {} P k" using txE [OF t] by blast
  have "card (logged k \<union> {}) \<le> card (logged k \<union> W)" using txD(2) [OF t] by (intro card_mono) (auto simp: logged_def)
  then show ?thesis using P txD [OF t] by (intro txI [OF P]) auto
qed

text \<open>
  The blocks that a write of n bytes at \<open>off\<close> logs: the bitmap, the block of the inode, the indirect block
  and those of the bytes.
\<close>

definition write_cost :: "nat \<Rightarrow> nat \<Rightarrow> nat" where
  "write_cost off n = 3 + blocks_of off n"

definition writei_post :: "nat \<Rightarrow> nat \<Rightarrow> byte list \<Rightarrow> uint \<Rightarrow> kernel \<Rightarrow> nat \<Rightarrow> kernel \<Rightarrow> bool" where
  "writei_post i ip bs off k t k' \<longleftrightarrow>
     t \<le> length bs \<and> (t < length bs \<longrightarrow> next_free k' = None) \<and> tx i {} {} k' \<and> file_wf k' ip \<and>
     (\<forall>p<MAXFILE * BSIZE. content k' ip p = (if unat off \<le> p \<and> p < unat off + t then bs ! (p - unat off) else content k ip p)) \<and>
     mapped k' ip (unat off) (unat off + t) \<and>
     itable k' = (itable k)(ip := (itable k ip)\<lparr>i_size := max (i_size (itable k ip)) (off + of_nat t), i_addrs := i_addrs (itable k' ip)\<rparr>) \<and>
     (\<forall>bn. used k bn \<longrightarrow> used k' bn) \<and> sb k' = sb k \<and>
     (\<forall>bn. used k bn \<and> bn \<notin> owned k ip \<union> meta k ip \<longrightarrow> view k' bn = view k bn) \<and>
     card (logged k') \<le> card (logged k) + write_cost (unat off) (length bs)"

lemma writei_ok:
  assumes t: "tx i {} {} k" and wf: "file_wf k ip" and off: "off \<le> i_size (itable k ip)" and len: "length bs = unat n"
    and bound: "unat off + unat n \<le> MAXFILE * BSIZE"
    and room: "card (logged k) + write_cost (unat off) (unat n) < log_room (klog k)"
  shows "\<exists>t k'. writei i ip (Local bs) off n k = Inr (of_nat t, k') \<and> writei_post i ip bs off k t k'"
proof -
  let ?bm = "sb_bmapstart (sb k)" and ?ib = "IBLOCK (i_inum (itable k ip)) (sb k)"
  let ?W = "{?bm, ?ib}"
  have fl: "finite (logged k)" by (simp add: logged_def)
  have c: "card (logged k \<union> {?bm}) \<le> card (logged k) + 1" "card (logged k \<union> ?W) \<le> card (logged k) + 2"
    using fl by (simp_all add: card_insert_if)
  have t1: "tx i {} {?bm} k" using tx_adopt [OF t _ file_wfD(6) [OF wf]] room by (simp add: write_cost_def)
  have t2: "tx i {} ?W k" using tx_adopt [OF t1 _ file_wfD(7) [OF wf]] c(1) room by (simp add: write_cost_def insert_commute)
  have e: "ecost k ip ?W \<le> 1" by (simp add: ecost_def)
  have "card (logged k \<union> ?W) + ecost k ip ?W + blocks_of (unat off) (unat n - 0) < log_room (klog k)"
    using c(2) e room unfolding write_cost_def diff_zero by linarith
  from writei_loop_ok [OF t2 wf insertI1 le0 _ _ this, of bs] len bound
  obtain t k1 W' where k1: "writei_loop i ip (Local bs) (unat off) (unat n) 0 k = Inr (t, unat off + t, k1)" "t \<le> unat n"
      "t < unat n \<longrightarrow> next_free k1 = None" "tx i {} W' k1" "?W \<subseteq> W'" "written k k1 ip (unat off) (take t bs)" "logged k1 \<union> W' = logged k \<union> W'"
      "card (logged k1 \<union> W') + ecost k1 ip W' \<le> card (logged k \<union> ?W) + ecost k ip ?W + blocks_of (unat off) (unat n)" by auto
  note wr = writtenD [OF k1(6)] and x = extD [OF writtenD(2) [OF k1(6)]] and xi = ext_inode [OF writtenD(2) [OF k1(6)]]
  define sz where "sz = max (i_size (itable k ip)) (off + of_nat t)"
  define k2 where "k2 = (if of_nat (unat off + t) > i_size (itable k1 ip) then upd_inode ip (\<lambda>x. x\<lparr>i_size := of_nat (unat off + t)\<rparr>) k1 else k1)"
  have i2: "itable k2 = (itable k1)(ip := (itable k1 ip)\<lparr>i_size := sz\<rparr>)"
    by (auto simp: k2_def sz_def xi(3) max_def fun_eq_iff upd_inode_def)
  have s2: "sb k2 = sb k1" "klog k2 = klog k1" "view k2 = view k1" "logged k2 = logged k1" "tx i {} W' k2" using k1(4) by (simp_all add: k2_def)
  have wf2: "file_wf k2 ip" and u2: "used k2 = used k1" and c2: "\<And>p. p < MAXFILE * BSIZE \<Longrightarrow> content k2 ip p = content k1 ip p"
    and fb2: "file_block k2 ip = file_block k1 ip" and n2: "next_free k2 = next_free k1"
    using inode_change [OF wr(1), of k2] by (simp_all add: i2 s2)
  have ib: "IBLOCK (i_inum (itable k2 ip)) (sb k2) = ?ib" by (simp add: i2 s2 x(1) xi(2))
  have "?ib \<in> W'" using k1(5) by simp
  then obtain k' where k': "iupdate i ip k2 = Inr k'" "tx i {} W' k'" "txf {} k2 k'" "logged k' = insert ?ib (logged k2)"
      "\<And>bn. bn \<noteq> ?ib \<Longrightarrow> view k' bn = view k2 bn"
    using iupdate_ok [OF s2(5) wf2] unfolding ib by auto
  note f = txfD [OF k'(3)] and fr = txf_region [OF k'(3)]
  have wf': "file_wf k' ip" and u': "used k' = used k1" and c': "\<And>p. p < MAXFILE * BSIZE \<Longrightarrow> content k' ip p = content k1 ip p"
    and fb': "file_block k' ip = file_block k1 ip" and n': "next_free k' = next_free k1"
    using inode_change [OF wf2, of k'] k'(5) by (simp_all add: ib f fr u2 c2 fb2 n2)
  have "writei i ip (Local bs) off n k = Inr (of_nat t, k')"
  proof -
    have u: "unat (off + n) = unat off + unat n" using bound by (intro unat_add_lem [THEN iffD1]) simp
    have "\<not> off + n < off" "\<not> off + n > of_nat (MAXFILE * BSIZE)" using u bound by (simp_all add: word_less_nat_alt)
    then show ?thesis using off k1(1) k'(1) [unfolded k2_def] by (auto simp: writei_def Let_def not_less split: if_splits)
  qed
  moreover have "itable k' = (itable k)(ip := (itable k ip)\<lparr>i_size := sz, i_addrs := i_addrs (itable k' ip)\<rparr>)"
  proof -
    obtain a where it1: "itable k1 = (itable k)(ip := (itable k ip)\<lparr>i_addrs := a\<rparr>)" using x(7) by blast
    show ?thesis unfolding f i2 it1 by (rule HOL.ext) simp
  qed
  moreover have "card (logged k') \<le> card (logged k) + write_cost (unat off) (length bs)"
  proof -
    have "logged k' \<subseteq> logged k1 \<union> W'" using k'(4) k1(5) s2(4) by auto
    then have "card (logged k') \<le> card (logged k1 \<union> W')" using txD(2) [OF k1(4)] by (intro card_mono) (auto simp: logged_def)
    then show ?thesis using k1(8) c(2) e unfolding write_cost_def len by linarith
  qed
  moreover have "view k' bn = view k bn" if "used k bn" "bn \<notin> owned k ip \<union> meta k ip" for bn
  proof -
    have b: "bn \<noteq> ?ib" "bn \<noteq> ?bm" "bn \<notin> owned k ip" using that(2) by (auto simp: meta_def)
    show ?thesis using k'(5) [OF b(1)] x(6) [OF that(1) b(3,2)] s2(3) by simp
  qed
  moreover have "mapped k' ip (unat off) (unat off + t)" using wr(3) k1(2) len by (simp add: mapped_def fb')
  moreover have "content k' ip p = (if unat off \<le> p \<and> p < unat off + t then bs ! (p - unat off) else content k ip p)" if "p < MAXFILE * BSIZE" for p
    using k1(2) len by (auto simp: c' [OF that] wr(4) [OF that])
  moreover have "sb k' = sb k" by (simp add: f s2 x(1))
  moreover have "used k bn \<Longrightarrow> used k' bn" for bn unfolding u' by (rule x(4))
  moreover have "t < unat n \<longrightarrow> next_free k' = None" using k1(3) n' by simp
  ultimately show ?thesis using k1(2) tx_forget [OF k'(2)] wf' unfolding writei_post_def sz_def len by (intro exI [of _ t] exI [of _ k']) blast
qed

lemma blocks_of_chunk: "n \<le> 3072 \<Longrightarrow> blocks_of off n \<le> 4"
proof -
  assume "n \<le> 3072"
  moreover have "off mod BSIZE < BSIZE" by simp
  ultimately have "off mod BSIZE + n + BSIZE - 1 < 5 * BSIZE" by simp
  then have "(off mod BSIZE + n + BSIZE - 1) div BSIZE < 5" by (rule less_mult_imp_div_less)
  then show ?thesis by (simp add: blocks_of_def)
qed

lemma chunk_post:
  assumes "tx i {} {} k" and "file_wf k ip" and "off \<le> i_size (itable k ip)" and "length bs = unat n" and "unat off + unat n \<le> MAXFILE * BSIZE"
    and n: "unat n \<le> 3072" and room: "card (logged k) + 7 < log_room (klog k)"
  obtains t k' where "writei i ip (Local bs) off n k = Inr (of_nat t, k')" "writei_post i ip bs off k t k'"
    "i_size (itable k' ip) = max (i_size (itable k ip)) (off + of_nat t)" "\<forall>j. j \<noteq> ip \<longrightarrow> itable k' j = itable k j"
    "card (logged k') \<le> card (logged k) + 7"
proof -
  have c: "write_cost (unat off) (unat n) \<le> 7" using blocks_of_chunk [OF n, of "unat off"] by (simp add: write_cost_def)
  then have "card (logged k) + write_cost (unat off) (unat n) < log_room (klog k)" using room by linarith
  from writei_ok [OF assms(1-5) this] obtain t k' where k': "writei i ip (Local bs) off n k = Inr (of_nat t, k')" "writei_post i ip bs off k t k'"
    by blast
  note p = k'(2) [unfolded writei_post_def assms(4)]
  have "itable k' = (itable k)(ip := (itable k ip)\<lparr>i_size := max (i_size (itable k ip)) (off + of_nat t), i_addrs := i_addrs (itable k' ip)\<rparr>)"
    using p by blast
  then obtain a where "itable k' = (itable k)(ip := (itable k ip)\<lparr>i_size := max (i_size (itable k ip)) (off + of_nat t), i_addrs := a\<rparr>)" by blast
  then have "i_size (itable k' ip) = max (i_size (itable k ip)) (off + of_nat t)" "\<forall>j. j \<noteq> ip \<longrightarrow> itable k' j = itable k j" by simp_all
  moreover have "card (logged k') \<le> card (logged k) + 7" using p c by linarith
  ultimately show ?thesis using that k' by blast
qed

lemma content_mapped:
  assumes "mapped k ip off (off + t)" and "t \<le> length bs" and "\<And>p. p < MAXFILE * BSIZE \<Longrightarrow> off \<le> p \<Longrightarrow> p < off + t \<Longrightarrow> content k ip p = bs ! (p - off)"
  shows "map (file_byte k ip) [off..<off + t] = take t bs"
proof (rule nth_equalityI)
  fix j
  assume "j < length (map (file_byte k ip) [off..<off + t])"
  then have j: "j < t" by simp
  then have "file_block k ip ((off + j) div BSIZE) \<noteq> 0" "off + j < MAXFILE * BSIZE" using assms(1) by (auto simp: mapped_def)
  then have "file_byte k ip (off + j) = bs ! j" using assms(3) [of "off + j"] j by (simp add: content_def)
  then show "map (file_byte k ip) [off..<off + t] ! j = take t bs ! j" using j by simp
qed (use assms(2) in simp)

subsection \<open>Properties of writei\<close>



text \<open>
  C34. What \<open>writei\<close> has written to a file, \<open>readi\<close> returns from there.
\<close>

theorem readi_after_writei:
  assumes "tx i {} {} k" and "file_wf k ip" and "off \<le> i_size (itable k ip)" and "length bs = unat n" and "unat off + unat n \<le> MAXFILE * BSIZE"
    and "unat n \<le> 3072" and "card (logged k) + 7 < log_room (klog k)"
  shows "\<exists>t k' k''. writei i ip (Local bs) off n k = Inr (t, k') \<and> readi i ip (Local []) off t k' = Inr (t, Local (take (unat t) bs), k'')"
proof -
  obtain t k' where k': "writei i ip (Local bs) off n k = Inr (of_nat t, k')" "writei_post i ip bs off k t k'"
      "i_size (itable k' ip) = max (i_size (itable k ip)) (off + of_nat t)"
    using chunk_post [OF assms] by blast
  note p = k'(2) [unfolded writei_post_def assms(4)]
  let ?t = "of_nat t :: uint"
  have ut: "unat ?t = t" using p le_unat_uoi [of t n] by simp
  have u: "unat (off + ?t) = unat off + t" using assms(5) p by (subst unat_add_lem [THEN iffD1]) (simp_all add: ut)
  have w: "off \<le> off + ?t" using u by (simp add: word_le_nat_alt)
  have m: "min (unat off + unat ?t) (unat (i_size (itable k' ip))) = unat off + t" "off \<le> i_size (itable k' ip)" 
    using w u by (auto simp: k'(3) ut max_def word_le_nat_alt min_def)
  have d: "map (file_byte k' ip) [unat off..<unat off + t] = take t bs" by (rule content_mapped) (use p assms(4) in auto)
  obtain P where P: "rd i P k'" using tx_rd p by blast
  have "\<exists>k''. readi i ip (Local []) off ?t k' = Inr (of_nat (min (unat ?t) (unat (i_size (itable k' ip)) - unat off)),
        Local (map (file_byte k' ip) [unat off..<min (unat off + unat ?t) (unat (i_size (itable k' ip)))]), k'') \<and> rd i P k'' \<and> rdf P k' k''"
    by (rule readi_ok [OF P _ m(2) w]) (use p m(1) file_wfD(1) in auto)
  moreover have "min (unat ?t) (unat (i_size (itable k' ip)) - unat off) = t" using m by (simp add: ut)
  ultimately obtain k'' where "readi i ip (Local []) off ?t k' = Inr (?t, Local (take t bs), k'')" unfolding m(1) d by auto
  then show ?thesis using k'(1) by (intro exI [of _ ?t] exI [of _ k'] exI [of _ k'']) (simp add: ut)
qed

subsection \<open>A file system with an empty file\<close>

text \<open>Blocks 0 to 63 are in use, among them those of the log (2 to 31), of the inodes (40) and of the bitmap (50).\<close>

definition sample_file :: kernel where
  "sample_file = (binit (blank_kernel\<lparr>disk := (\<lambda>bn j. if bn = 50 \<and> j < 8 then 255 else 0)\<rparr>))\<lparr>klog := klog sample_log, sb := sb sample_fs,
     itable := (\<lambda>_. blank_inode\<lparr>i_dev := ROOTDEV, i_inum := 1, i_addrs := (\<lambda>_. 0)\<rparr>)\<rparr>"

lemma sample_file_simps [simp]:
  "sb sample_file = sb sample_fs" "klog sample_file = klog sample_fs" "itable sample_file ip = blank_inode\<lparr>i_dev := ROOTDEV, i_inum := 1, i_addrs := (\<lambda>_. 0)\<rparr>"
  "logged sample_file = {}"
  by (simp_all add: sample_file_def sample_fs_def logged_def sample_log_def log_count_def)

lemma sample_file_cache: "cache_ok pid {} {} sample_file"
proof -
  have "cache_ok pid {} {} (binit (blank_kernel\<lparr>disk := d\<rparr>))" for d by (rule binit_ok) (simp add: blank_kernel_def blank_buf_def)
  then show ?thesis by (simp add: sample_file_def cache_ok_def lru_list_def)
qed

lemma sample_file_view: "view sample_file bn j = (if bn = 50 \<and> j < 8 then 255 else 0)"
  using view_disk [OF sample_file_cache] by (simp add: sample_file_def disk_binit)

lemma sample_file_ok:
  "tx 0 {} {} sample_file" "file_wf sample_file 0"
proof -
  have l: "klog sample_fs = klog sample_log" by (simp add: sample_fs_def)
  have "logged_ok pid {} {} sample_file" for pid
    using sample_file_cache by (simp add: logged_ok_def) (simp add: sample_fs_def sample_log_def log_wf_def log_count_def log_room_def)
  then show "tx 0 {} {} sample_file" by (rule txI) (auto simp: l sample_log_def log_room_def)
  have u: "used sample_file bn" if "unat bn < 64" for bn
  proof -
    have ones: "(255 :: byte) = - 1" by simp
    have "bit (255 :: byte) j" if "j < 8" for j unfolding ones using that by simp
    then show ?thesis using that by (simp add: used_def block_free_bit bitmap_def sample_file_view sample_fs_def less_mult_imp_div_less)
  qed
  have fb: "file_block sample_file 0 n = 0" for n by (simp add: file_block_def)
  have r: "2 \<le> unat bn \<and> unat bn \<le> 33" if "bn \<in> log_region (klog sample_log)" for bn using sample_fs_region that by (simp add: l)
  have nr: "bn \<notin> log_region (klog sample_log)" if "33 < unat bn" for bn using r [of bn] that by auto
  show "file_wf sample_file 0"
    unfolding file_wf_def owned_def meta_def by (auto simp: fb ind_def blank_inode_def IBLOCK_def sample_fs_def dest!: r intro!: u nr)
qed



theorem readi_after_writei_witness:
  "\<exists>t k' k''. writei 0 0 (Local [7, 8]) 0 2 sample_file = Inr (t, k') \<and> readi 0 0 (Local []) 0 t k' = Inr (t, Local (take (unat t) [7, 8]), k'')"
  by (rule readi_after_writei [OF sample_file_ok]) (simp_all add: log_room_def sample_fs_def sample_log_def blank_inode_def)

end
