(* ===== verification/Ulib.thy ===== *)
theory Ulib
  imports Kstring
begin

section \<open>user/ulib.c: the C library of user programs\<close>

text \<open>
  The routines that work on raw memory are loops over byte memory, like those of the kernel; those
  that read strings get the bytes that the pointer points to, as a list: \<open>first s\<close> is \<open>*s\<close> and
  \<open>tl s\<close> is \<open>s + 1\<close>, and past the end of the list lies the NUL. System calls are arguments:
  a function that reads takes the state of what it reads from.
\<close>

definition first :: "byte list \<Rightarrow> byte" where
  "first s = (case s of [] \<Rightarrow> 0 | c # _ \<Rightarrow> c)"

lemma first_simps [simp]: "first [] = 0" "first (c # s) = c"
  by (simp_all add: first_def)

lemma first_zero: "0 \<notin> set s \<Longrightarrow> first s = 0 \<longleftrightarrow> s = []"
  by (cases s) auto

lemma first_shrinks [termination_simp]:
  "first s \<noteq> 0 \<Longrightarrow> length s - Suc 0 < length s" "48 \<le> first s \<Longrightarrow> length s - Suc 0 < length s"
  by (cases s; simp)+

subsection \<open>Strings\<close>

fun u_strcmp :: "byte list \<Rightarrow> byte list \<Rightarrow> int" where
  "u_strcmp p q =
     (if first p \<noteq> 0 \<and> first p = first q then u_strcmp (tl p) (tl q) else uint (first p) - uint (first q))"

declare u_strcmp.simps [simp del]

text \<open>\<open>s[n]\<close>, for an index that may lie past the list.\<close>

fun u_strlen :: "byte list \<Rightarrow> nat" where
  "u_strlen s = (if first s \<noteq> 0 then Suc (u_strlen (tl s)) else 0)"

declare u_strlen.simps [simp del]

text \<open>The result of \<open>strchr\<close> is the offset of the character, \<open>None\<close> for the null pointer.\<close>

fun strchr :: "byte list \<Rightarrow> byte \<Rightarrow> nat option" where
  "strchr s c = (if first s \<noteq> 0 then (if first s = c then Some 0 else map_option Suc (strchr (tl s) c)) else None)"

declare strchr.simps [simp del]

fun atoi_loop :: "byte list \<Rightarrow> cint \<Rightarrow> cint" where
  "atoi_loop s n = (if 48 \<le> first s \<and> first s \<le> 57 then atoi_loop (tl s) (n * 10 + ucast (first s) - 48) else n)"

declare atoi_loop.simps [simp del]

definition atoi :: "byte list \<Rightarrow> cint" where
  "atoi s = atoi_loop s 0"

partial_function (option) strcpy_loop :: "memory \<Rightarrow> uint64 \<Rightarrow> uint64 \<Rightarrow> memory option" where
  "strcpy_loop m s t = (if m t \<noteq> 0 then strcpy_loop (m(s := m t)) (s + 1) (t + 1) else Some (m(s := m t)))"

definition strcpy :: "memory \<Rightarrow> uint64 \<Rightarrow> uint64 \<Rightarrow> memory option" where
  "strcpy m s t = strcpy_loop m s t"

text \<open>
  \<open>gets\<close> with the result of \<open>read(0, &c, 1)\<close> as a function of the state of the input; the bytes are those
  of \<open>buf\<close> before the NUL.
\<close>

function gets_loop :: "('s \<Rightarrow> byte option \<times> 's) \<Rightarrow> int \<Rightarrow> byte list \<Rightarrow> 's \<Rightarrow> byte list \<times> 's" where
  "gets_loop rd mx buf s =
     (if int (length buf) + 1 < mx then
        (case rd s of
           (None, s1) \<Rightarrow> (buf, s1)
         | (Some c, s1) \<Rightarrow> if c = 10 \<or> c = 13 then (buf @ [c], s1) else gets_loop rd mx (buf @ [c]) s1)
      else (buf, s))"
  by pat_completeness auto
termination by (relation "measure (\<lambda>(rd, mx, buf, s). nat (mx - int (length buf)))") auto

declare gets_loop.simps [simp del]

definition gets :: "('s \<Rightarrow> byte option \<times> 's) \<Rightarrow> int \<Rightarrow> 's \<Rightarrow> byte list \<times> 's" where
  "gets rd mx s = gets_loop rd mx [] s"

subsection \<open>Memory\<close>

definition u_memset :: "memory \<Rightarrow> uint64 \<Rightarrow> cint \<Rightarrow> uint \<Rightarrow> memory" where
  "u_memset m dst c n = memset_loop m dst (ucast c) 0 (unat n)"

definition u_memmove :: "memory \<Rightarrow> uint64 \<Rightarrow> uint64 \<Rightarrow> cint \<Rightarrow> memory" where
  "u_memmove m dst src n =
     (if src > dst then move_forward m dst src (nat (sint n))
      else move_backward m (dst + of_int (sint n)) (src + of_int (sint n)) (nat (sint n)))"

definition u_memcmp :: "memory \<Rightarrow> uint64 \<Rightarrow> uint64 \<Rightarrow> uint \<Rightarrow> int" where
  "u_memcmp m s1 s2 n = memcmp_loop m s1 s2 (unat n)"

definition u_memcpy :: "memory \<Rightarrow> uint64 \<Rightarrow> uint64 \<Rightarrow> uint \<Rightarrow> memory" where
  "u_memcpy m dst src n = u_memmove m dst src n"

subsection \<open>Closed forms\<close>

lemma strchr_None: "0 \<notin> set s \<Longrightarrow> strchr s c = None \<longleftrightarrow> c = 0 \<or> c \<notin> set s"
  by (induction s) (auto simp: strchr.simps)

lemma strchr_Some:
  assumes "strchr s c = Some j"
  shows "j < length s \<and> s ! j = c \<and> c \<noteq> 0 \<and> 0 \<notin> set (take j s) \<and> c \<notin> set (take j s)"
  using assms
proof (induction s arbitrary: j)
  case (Cons x s)
  then consider "x \<noteq> 0" "x = c" "j = 0" | i where "x \<noteq> 0" "x \<noteq> c" "strchr s c = Some i" "j = Suc i"
    by (auto simp: strchr.simps [of "x # s"] split: if_splits)
  then show ?case using Cons.IH by cases auto
qed (simp add: strchr.simps)

lemma u_strlen_length: "0 \<notin> set s \<Longrightarrow> u_strlen s = length s"
  by (induction s) (auto simp: u_strlen.simps)

lemma u_strcmp_zero: "0 \<notin> set p \<Longrightarrow> 0 \<notin> set q \<Longrightarrow> u_strcmp p q = 0 \<longleftrightarrow> p = q"
proof (induction p arbitrary: q)
  case Nil
  then show ?case by (cases q) (auto simp: u_strcmp.simps uint_0_iff)
next
  case (Cons x p)
  then show ?case by (cases q) (auto simp: u_strcmp.simps [of "x # p"] uint_0_iff dest: unsigned_word_eqI)
qed

end
