(* ===== verification/Grep.thy ===== *)
theory Grep
  imports Ulib
begin

section \<open>user/grep.c: the pattern matcher and the loop over the input\<close>

text \<open>
  The matcher of grep on strings, and the loop that reads the input into a buffer of 1024 bytes and
  prints the lines that match. The reference is the language of a pattern: \<open>items\<close> parses it, and
  \<open>lang\<close> is the set of strings that the items match. The function that reads is an argument.
\<close>

abbreviation (input) star :: byte where "star \<equiv> 42"
abbreviation (input) dot :: byte where "dot \<equiv> 46"
abbreviation (input) dollar :: byte where "dollar \<equiv> 36"
abbreviation (input) caret :: byte where "caret \<equiv> 94"
abbreviation (input) newline :: byte where "newline \<equiv> 10"

subsection \<open>The matcher\<close>

function matchhere :: "byte list \<Rightarrow> byte list \<Rightarrow> bool" and matchstar :: "byte \<Rightarrow> byte list \<Rightarrow> byte list \<Rightarrow> bool" where
  "matchhere re text =
     (if first re = 0 then True
      else if first (tl re) = star then matchstar (first re) (tl (tl re)) text
      else if first re = dollar \<and> first (tl re) = 0 then first text = 0
      else if first text \<noteq> 0 \<and> (first re = dot \<or> first re = first text) then matchhere (tl re) (tl text)
      else False)"
| "matchstar c re text =
     (if matchhere re text then True
      else if first text \<noteq> 0 \<and> (first text = c \<or> c = dot) then matchstar c re (tl text)
      else False)"
  by pat_completeness auto
termination
  by (relation "inv_image (less_than <*lex*> less_than <*lex*> less_than)
      (\<lambda>x. case x of Inl (re, text) \<Rightarrow> (length re, length text, 0 :: nat) | Inr (c, re, text) \<Rightarrow> (length re, length text, 1))")
    (auto simp: first_def split: list.splits)

declare matchhere.simps [simp del] matchstar.simps [simp del]

fun match_loop :: "byte list \<Rightarrow> byte list \<Rightarrow> bool" where
  "match_loop re text = (if matchhere re text then True else if first text \<noteq> 0 then match_loop re (tl text) else False)"

declare match_loop.simps [simp del]

definition match :: "byte list \<Rightarrow> byte list \<Rightarrow> bool" where
  "match re text = (if first re = caret then matchhere (tl re) text else match_loop re text)"

subsection \<open>The loop over the input\<close>

text \<open>
  The inner loop, from \<open>p\<close> on: the bytes written to the output and those that remain in the buffer. A
  read into the buffer gets the number of bytes that are free, except for the NUL.
\<close>

function grep_lines :: "byte list \<Rightarrow> byte list \<Rightarrow> byte list \<times> byte list" where
  "grep_lines pattern p =
     (case strchr p newline of
        None \<Rightarrow> ([], p)
      | Some q \<Rightarrow>
          let (out, rest) = grep_lines pattern (drop (q + 1) p)
          in ((if match pattern (take q p) then take (q + 1) p else []) @ out, rest))"
  by pat_completeness auto
termination by (relation "measure (\<lambda>(pattern, p). length p)") (auto dest: strchr_Some)

declare grep_lines.simps [simp del]

partial_function (option) grep_loop ::
  "(nat \<Rightarrow> 's \<Rightarrow> int \<times> byte list \<times> 's) \<Rightarrow> byte list \<Rightarrow> byte list \<Rightarrow> byte list \<Rightarrow> 's \<Rightarrow> (byte list \<times> 's) option" where
  "grep_loop rd pattern buf out s =
     (let (n, bs, s1) = rd (1024 - length buf - 1) s
      in if n > 0 then
           let (o1, rest) = grep_lines pattern (buf @ bs)
           in grep_loop rd pattern rest (out @ o1) s1
         else Some (out, s1))"

definition grep :: "(nat \<Rightarrow> 's \<Rightarrow> int \<times> byte list \<times> 's) \<Rightarrow> byte list \<Rightarrow> 's \<Rightarrow> (byte list \<times> 's) option" where
  "grep rd pattern s = grep_loop rd pattern [] [] s"

subsection \<open>The language of a pattern\<close>

datatype item = One byte | Many byte | Eol

definition accepts :: "byte \<Rightarrow> byte \<Rightarrow> bool" where
  "accepts c x \<longleftrightarrow> c = dot \<or> x = c"

fun items :: "byte list \<Rightarrow> item list" where
  "items [] = []"
| "items [c] = (if c = dollar then [Eol] else [One c])"
| "items (c # d # re) = (if d = star then Many c # items re else One c # items (d # re))"

fun item_lang :: "item \<Rightarrow> byte list set" where
  "item_lang (One c) = {[x] | x. accepts c x}"
| "item_lang (Many c) = {xs. \<forall>x\<in>set xs. accepts c x}"
| "item_lang Eol = {[]}"

fun lang :: "item list \<Rightarrow> byte list set" where
  "lang [] = {[]}"
| "lang (i # is) = {u @ v | u v. u \<in> item_lang i \<and> v \<in> lang is}"

text \<open>A text begins with a match; what follows the match must be empty if the pattern ends in \<open>$\<close>.\<close>

definition begins :: "item list \<Rightarrow> byte list \<Rightarrow> bool" where
  "begins is t \<longleftrightarrow> (\<exists>u v. t = u @ v \<and> u \<in> lang is \<and> (is \<noteq> [] \<and> last is = Eol \<longrightarrow> v = []))"

lemma begins_Nil: "begins [] t"
  by (simp add: begins_def)

lemma begins_Eol: "begins [Eol] t \<longleftrightarrow> t = []"
  by (auto simp: begins_def)

lemma begins_Cons:
  assumes "i \<noteq> Eol \<or> is \<noteq> []"
  shows "begins (i # is) t \<longleftrightarrow> (\<exists>u v. t = u @ v \<and> u \<in> item_lang i \<and> begins is v)"
proof -
  have e: "i # is \<noteq> [] \<and> last (i # is) = Eol \<longleftrightarrow> is \<noteq> [] \<and> last is = Eol" using assms by auto
  show ?thesis
  proof
    assume "begins (i # is) t"
    then obtain a w where a: "t = a @ w" "a \<in> lang (i # is)" "is \<noteq> [] \<and> last is = Eol \<longrightarrow> w = []" unfolding begins_def e by blast
    from a(2) obtain u v where "a = u @ v" "u \<in> item_lang i" "v \<in> lang is" by auto
    with a have h: "t = (u @ v) @ w" "u \<in> item_lang i" "v \<in> lang is" "is \<noteq> [] \<and> last is = Eol \<longrightarrow> w = []" by simp_all
    then have "begins is (v @ w)" unfolding begins_def by blast
    then show "\<exists>u v. t = u @ v \<and> u \<in> item_lang i \<and> begins is v" using h(1,2) by (intro exI [of _ u] exI [of _ "v @ w"]) simp
  next
    assume "\<exists>u v. t = u @ v \<and> u \<in> item_lang i \<and> begins is v"
    then obtain u v w where h: "t = u @ v @ w" "u \<in> item_lang i" "v \<in> lang is" "is \<noteq> [] \<and> last is = Eol \<longrightarrow> w = []"
      unfolding begins_def by blast
    then have "u @ v \<in> lang (i # is)" by auto
    then show "begins (i # is) t" unfolding begins_def e using h(1,4) by (intro exI [of _ "u @ v"] exI [of _ w]) simp
  qed
qed

lemma begins_One: "begins (One c # is) t \<longleftrightarrow> (\<exists>x t'. t = x # t' \<and> accepts c x \<and> begins is t')"
proof -
  have "begins (One c # is) t \<longleftrightarrow> (\<exists>u v. t = u @ v \<and> u \<in> item_lang (One c) \<and> begins is v)" by (rule begins_Cons) simp
  also have "... \<longleftrightarrow> (\<exists>x t'. t = [x] @ t' \<and> accepts c x \<and> begins is t')" unfolding item_lang.simps by blast
  finally show ?thesis by simp
qed

lemma begins_Many: "begins (Many c # is) t \<longleftrightarrow> (\<exists>u v. t = u @ v \<and> (\<forall>x\<in>set u. accepts c x) \<and> begins is v)"
  by (subst begins_Cons) auto

lemma begins_Many_step: "begins (Many c # is) t \<longleftrightarrow> begins is t \<or> (\<exists>x t'. t = x # t' \<and> accepts c x \<and> begins (Many c # is) t')"
proof
  assume "begins (Many c # is) t"
  then obtain u v where u: "t = u @ v" "\<forall>x\<in>set u. accepts c x" "begins is v" by (auto simp: begins_Many)
  show "begins is t \<or> (\<exists>x t'. t = x # t' \<and> accepts c x \<and> begins (Many c # is) t')"
    using u by (cases u) (auto simp: begins_Many)
next
  assume "begins is t \<or> (\<exists>x t'. t = x # t' \<and> accepts c x \<and> begins (Many c # is) t')"
  then show "begins (Many c # is) t"
  proof
    assume "begins is t"
    then show ?thesis unfolding begins_Many by (intro exI [of _ "[]"] exI [of _ t]) simp
  next
    assume "\<exists>x t'. t = x # t' \<and> accepts c x \<and> begins (Many c # is) t'"
    then obtain x u v where "t = x # u @ v" "accepts c x" "\<forall>x\<in>set u. accepts c x" "begins is v" by (auto simp: begins_Many)
    then show ?thesis unfolding begins_Many by (intro exI [of _ "x # u"] exI [of _ v]) simp
  qed
qed

lemma matchhere_begins:
  "0 \<notin> set re \<Longrightarrow> 0 \<notin> set t \<Longrightarrow> matchhere re t = begins (items re) t"
  "0 \<notin> set re \<Longrightarrow> 0 \<notin> set t \<Longrightarrow> matchstar c re t = begins (Many c # items re) t"
proof (induction re t and c re t rule: matchhere_matchstar.induct)
  case (1 re t)
  show ?case
  proof (cases re rule: items.cases)
    case 1
    then show ?thesis by (simp add: matchhere.simps begins_Nil)
  next
    case (2 c)
    then have c: "c \<noteq> 0" using "1.prems" by auto
    show ?thesis
    proof (cases t)
      case Nil
      then show ?thesis using 2 c by (simp add: matchhere.simps begins_Eol begins_One)
    next
      case (Cons x t')
      then show ?thesis using 2 c "1.prems" by (auto simp: matchhere.simps [of "[c]"] matchhere.simps [of "[]"] begins_Eol begins_One begins_Nil accepts_def)
    qed
  next
    case (3 c d r)
    then have c: "c \<noteq> 0" "d \<noteq> 0" "0 \<notin> set r" using "1.prems" by auto
    show ?thesis
    proof (cases "d = star")
      case True
      then show ?thesis using "1.IH"(1) 3 c "1.prems" by (simp add: matchhere.simps [of "c # _ # r"])
    next
      case False
      then have "matchhere re t = (t \<noteq> [] \<and> accepts c (first t) \<and> matchhere (d # r) (tl t))"
        using 3 c "1.prems" by (cases t) (auto simp: matchhere.simps [of "c # d # r"] accepts_def)
      also have "... = begins (items re) t"
        using "1.IH"(2) 3 c False "1.prems" by (cases t) (auto simp: begins_One accepts_def)
      finally show ?thesis .
    qed
  qed
next
  case (2 c re t)
  show ?case
  proof (cases "begins (items re) t")
    case True
    then show ?thesis using "2.IH"(1) "2.prems" begins_Many_step [of c "items re" t] by (simp add: matchstar.simps [of c re t])
  next
    case False
    then have "matchstar c re t = (t \<noteq> [] \<and> accepts c (first t) \<and> matchstar c re (tl t))"
      using "2.IH"(1) "2.prems" matchstar.simps [of c re t] by (cases t) (auto simp: accepts_def)
    also have "... = begins (Many c # items re) t"
      using "2.IH" False "2.prems" begins_Many_step [of c "items re" t] by (cases t) (auto simp: accepts_def)
    finally show ?thesis .
  qed
qed

lemma match_loop_begins:
  "0 \<notin> set re \<Longrightarrow> 0 \<notin> set t \<Longrightarrow> match_loop re t \<longleftrightarrow> (\<exists>w v. t = w @ v \<and> begins (items re) v)"
proof (induction t)
  case Nil
  then show ?case by (simp add: match_loop.simps [of re "[]"] matchhere_begins)
next
  case (Cons x t)
  have "match_loop re (x # t) \<longleftrightarrow> begins (items re) (x # t) \<or> (\<exists>w v. t = w @ v \<and> begins (items re) v)"
    using Cons by (auto simp: match_loop.simps [of re "x # t"] matchhere_begins(1) [OF Cons.prems])
  also have "... \<longleftrightarrow> (\<exists>w v. x # t = w @ v \<and> begins (items re) v)" by (auto simp: Cons_eq_append_conv)
  finally show ?case .
qed

text \<open>
  What a pattern means: somewhere in the text, or at its beginning after \<open>^\<close>, there is a string of the
  pattern's language.
\<close>

definition matches :: "byte list \<Rightarrow> byte list \<Rightarrow> bool" where
  "matches re t \<longleftrightarrow>
     (if first re = caret then begins (items (tl re)) t else (\<exists>w v. t = w @ v \<and> begins (items re) v))"

lemma match_matches:
  assumes "0 \<notin> set re" and "0 \<notin> set t"
  shows "match re t = matches re t"
proof -
  have "0 \<notin> set (tl re)" using assms(1) by (cases re) auto
  then show ?thesis using assms by (simp add: match_def matches_def matchhere_begins(1) match_loop_begins)
qed

subsection \<open>Lines\<close>

text \<open>The complete lines of an input that begins in the middle of the line \<open>cur\<close>, and what follows the last of them.\<close>

fun lines_of :: "byte list \<Rightarrow> byte list \<Rightarrow> byte list list" where
  "lines_of cur [] = []"
| "lines_of cur (x # xs) = (if x = newline then cur # lines_of [] xs else lines_of (cur @ [x]) xs)"

fun rest_of :: "byte list \<Rightarrow> byte list \<Rightarrow> byte list" where
  "rest_of cur [] = cur"
| "rest_of cur (x # xs) = (if x = newline then rest_of [] xs else rest_of (cur @ [x]) xs)"

lemma lines_of_append: "lines_of cur (xs @ ys) = lines_of cur xs @ lines_of (rest_of cur xs) ys"
  by (induction xs arbitrary: cur) auto

lemma rest_of_append: "rest_of cur (xs @ ys) = rest_of (rest_of cur xs) ys"
  by (induction xs arbitrary: cur) auto

lemma lines_of_no_newline: "newline \<notin> set xs \<Longrightarrow> lines_of cur xs = [] \<and> rest_of cur xs = cur @ xs"
  by (induction xs arbitrary: cur) auto

lemma rest_of_suffix: "newline \<notin> set cur \<Longrightarrow> newline \<notin> set (rest_of cur xs) \<and> (\<exists>u. cur @ xs = u @ rest_of cur xs)"
proof (induction xs arbitrary: cur)
  case (Cons x xs)
  show ?case
  proof (cases "x = newline")
    case True
    then show ?thesis using Cons.IH [of "[]"] by (auto intro: exI [of _ "cur @ x # _"])
  next
    case False
    then show ?thesis using Cons.IH [of "cur @ [x]"] Cons.prems by auto
  qed
qed simp

lemma grep_lines_eq:
  assumes "0 \<notin> set p"
  shows "grep_lines pattern p = (concat (map (\<lambda>l. l @ [newline]) (filter (match pattern) (lines_of [] p))), rest_of [] p)"
  using assms
proof (induction p rule: grep_lines.induct [of _ pattern])
  case (1 pattern p)
  show ?case
  proof (cases "strchr p newline")
    case None
    then have "newline \<notin> set p" using strchr_None [OF "1.prems", of newline] by simp
    then show ?thesis using None lines_of_no_newline [of p "[]"] by (simp add: grep_lines.simps)
  next
    case (Some q)
    note q = strchr_Some [OF Some]
    have p: "p = take q p @ newline # drop (q + 1) p" using q id_take_nth_drop [of q p] by simp
    have "0 \<notin> set (drop (q + 1) p)" using "1.prems" by (meson in_set_dropD)
    note ih = "1.IH" [OF Some this]
    have l: "lines_of [] p = take q p # lines_of [] (drop (q + 1) p)" "rest_of [] p = rest_of [] (drop (q + 1) p)"
      using q lines_of_no_newline [of "take q p" "[]"] by (subst p, simp add: lines_of_append rest_of_append)+
    have "take (q + 1) p = take q p @ [newline]" using q by (simp add: take_Suc_conv_app_nth)
    then show ?thesis using Some ih l by (simp add: grep_lines.simps [of pattern p])
  qed
qed

subsection \<open>The input\<close>

text \<open>
  What \<open>read\<close> promises for an open file of which \<open>left s\<close> is still to be read: the number of bytes
  returned, at most as many as asked for, the next ones of the file, and none only at its end.
\<close>

definition reader :: "(nat \<Rightarrow> 's \<Rightarrow> int \<times> byte list \<times> 's) \<Rightarrow> ('s \<Rightarrow> byte list) \<Rightarrow> bool" where
  "reader rd left \<longleftrightarrow> (\<forall>n s. case rd n s of (k, bs, s1) \<Rightarrow>
     k = int (length bs) \<and> length bs \<le> n \<and> left s = bs @ left s1 \<and> (bs = [] \<longrightarrow> n = 0 \<or> left s = []))"

lemma readerE:
  assumes "reader rd left"
  obtains bs s1 where "rd n s = (int (length bs), bs, s1)" "left s = bs @ left s1" "bs = [] \<Longrightarrow> 0 < n \<Longrightarrow> left s = []"
proof -
  obtain k bs s1 where "rd n s = (k, bs, s1)" by (cases "rd n s")
  with assms have "rd n s = (int (length bs), bs, s1)" "left s = bs @ left s1" "bs = [] \<longrightarrow> n = 0 \<or> left s = []"
    unfolding reader_def by (metis (mono_tags, lifting) case_prod_conv)+
  then show ?thesis using that by blast
qed

lemma grep_loop_ok:
  assumes rd: "reader rd left" and short: "\<And>u v w. done @ left s = u @ v @ w \<Longrightarrow> newline \<notin> set v \<Longrightarrow> length v < 1023" and nul: "0 \<notin> set (done @ left s)"
  shows "\<exists>s'. grep_loop rd pattern (rest_of [] done) out s =
      Some (out @ concat (map (\<lambda>l. l @ [newline]) (filter (match pattern) (lines_of (rest_of [] done) (left s)))), s') \<and> left s' = []"
  using short nul
proof (induction "length (left s)" arbitrary: s "done" out rule: less_induct)
  case less
  let ?buf = "rest_of [] done"
  obtain u where u: "done = u @ ?buf" "newline \<notin> set ?buf" using rest_of_suffix [of "[]" "done"] by auto
  have "length ?buf < 1023" using less.prems(1) [of u ?buf "left s"] u by simp
  then have room: "0 < 1024 - length ?buf - 1" by simp
  obtain bs s1 where r: "rd (1024 - length ?buf - 1) s = (int (length bs), bs, s1)" "left s = bs @ left s1" "bs = [] \<Longrightarrow> left s = []"
    using readerE [OF rd, of "1024 - length ?buf - 1" s] room by metis
  show ?case
  proof (cases "bs = []")
    case True
    then show ?thesis using r by (simp add: grep_loop.simps)
  next
    case False
    have nb: "0 \<notin> set (?buf @ bs)" using less.prems(2) u(1) r(2) by (metis Un_iff set_append)
    have ru: "rest_of [] (done @ bs) = rest_of [] (?buf @ bs)" "lines_of [] (?buf @ bs) = lines_of ?buf bs"
      using lines_of_no_newline [OF u(2), of "[]"] by (simp_all add: rest_of_append lines_of_append)
    have step: "grep_loop rd pattern ?buf out s =
        grep_loop rd pattern (rest_of [] (done @ bs)) (out @ concat (map (\<lambda>l. l @ [newline]) (filter (match pattern) (lines_of ?buf bs)))) s1"
      using r(1) False by (subst grep_loop.simps) (simp add: grep_lines_eq [OF nb] ru)
    have "\<exists>s'. grep_loop rd pattern (rest_of [] (done @ bs)) (out @ concat (map (\<lambda>l. l @ [newline]) (filter (match pattern) (lines_of ?buf bs)))) s1 =
      Some ((out @ concat (map (\<lambda>l. l @ [newline]) (filter (match pattern) (lines_of ?buf bs)))) @
        concat (map (\<lambda>l. l @ [newline]) (filter (match pattern) (lines_of (rest_of [] (done @ bs)) (left s1)))), s') \<and> left s' = []"
    proof (rule less.hyps)
      show "length (left s1) < length (left s)" using r(2) False by simp
      show "length v < 1023" if "(done @ bs) @ left s1 = u @ v @ w" "newline \<notin> set v" for u v w
        using less.prems(1) [of u v w] that r(2) by simp
      show "0 \<notin> set ((done @ bs) @ left s1)" using less.prems(2) r(2) by simp
    qed
    moreover have "lines_of ?buf (left s) = lines_of ?buf bs @ lines_of (rest_of [] (done @ bs)) (left s1)"
      unfolding r(2) lines_of_append rest_of_append [symmetric] by simp
    ultimately show ?thesis unfolding step by simp
  qed
qed

subsection \<open>Properties\<close>

text \<open>
  C36. \<open>grep\<close> of a file without NUL bytes in which no 1023 bytes in a row are without a newline reads the
  file to its end and prints exactly those of its complete lines, in order, that contain a string of
  the pattern's language (at the beginning of the line after \<open>^\<close>, at its end before \<open>$\<close>), however
  many bytes each \<open>read\<close> returns.
\<close>

theorem grep_prints_matching_lines:
  assumes "reader rd left" and "0 \<notin> set pattern" and "0 \<notin> set (left s)"
    and "\<And>u v w. left s = u @ v @ w \<Longrightarrow> newline \<notin> set v \<Longrightarrow> length v < 1023"
  shows "\<exists>s'. grep rd pattern s = Some (concat (map (\<lambda>l. l @ [newline]) (filter (matches pattern) (lines_of [] (left s)))), s') \<and> left s' = []"
proof -
  have l: "set l \<subseteq> set cur \<union> set xs" if "l \<in> set (lines_of cur xs)" for l cur xs
    using that by (induction cur xs rule: lines_of.induct) (auto split: if_splits)
  have "match pattern l = matches pattern l" if "l \<in> set (lines_of [] (left s))" for l
    by (rule match_matches [OF assms(2)]) (use l [OF that] assms(3) in auto)
  then have "filter (match pattern) (lines_of [] (left s)) = filter (matches pattern) (lines_of [] (left s))" by (rule filter_cong [OF refl])
  then show ?thesis using grep_loop_ok [OF assms(1), of "[]" s pattern "[]"] assms(3,4) by (simp add: grep_def)
qed

text \<open>A file of two lines, read three bytes at a time; the pattern \<open>^a.*c$\<close> selects the first.\<close>

theorem grep_prints_matching_lines_witness:
  "\<exists>s'. grep (\<lambda>n s. let bs = take (min 3 n) s in (int (length bs), bs, drop (min 3 n) s)) [94, 97, 46, 42, 99, 36] [97, 98, 99, 10, 98, 99, 10] = Some ([97, 98, 99, 10], s')"
proof -
  have "reader (\<lambda>n s. let bs = take (min 3 n) s in (int (length bs), bs, drop (min 3 n) s)) (\<lambda>s. s)"
    by (auto simp: reader_def Let_def)
  note g = grep_prints_matching_lines [OF this, of "[94, 97, 46, 42, 99, 36]" "[97, 98, 99, 10, 98, 99, 10]"]
  have "matches [94, 97, 46, 42, 99, 36] [97, 98, 99]" "\<not> matches [94, 97, 46, 42, 99, 36] [98, 99]"
    by (simp_all flip: match_matches add: match_def matchhere.simps matchstar.simps)
  moreover have "length v < 1023" if "[97, 98, 99, 10, 98, 99, 10] = u @ v @ (w :: byte list)" for u v w
    using arg_cong [OF that, of length] by simp
  ultimately show ?thesis using g by auto
qed

end
