(* ===== verification/Printf.thy ===== *)
theory Printf
  imports Ulib
begin

section \<open>printf of the kernel and of user programs\<close>

text \<open>
  Formatted output as the list of the bytes printed, in order: those passed to \<open>consputc\<close> by
  kernel/printf.c, those written one by one by user/printf.c. Both convert numbers in an array
  \<open>buf[16]\<close>; a store past its end is the result \<open>panic ''out of bounds''\<close>. An argument of \<open>printf\<close>
  is a 64-bit number or a string, \<open>None\<close> for the null pointer.
\<close>

subsection \<open>kernel/printf.c\<close>

definition kdigits :: "byte list" where
  "kdigits = map of_char ''0123456789abcdef''"

function printint_loop :: "byte list \<Rightarrow> uint64 \<Rightarrow> uint64 \<Rightarrow> byte list \<Rightarrow> byte list res" where
  "printint_loop ds x base buf =
     (if length buf \<ge> 16 then panic ''out of bounds''
      else
        let buf1 = buf @ [ds ! unat (x mod base)]; x1 = x div base
        in if x1 \<noteq> 0 then printint_loop ds x1 base buf1 else Inr buf1)"
  by pat_completeness auto
termination by (relation "measure (\<lambda>(ds, x, base, buf). 16 - length buf)") auto

declare printint_loop.simps [simp del]

definition printint :: "uint64 \<Rightarrow> uint64 \<Rightarrow> bool \<Rightarrow> byte list res" where
  "printint xx base sign =
     (let neg = (sign \<and> sint xx < 0); x = (if neg then - xx else xx)
      in bindR (printint_loop kdigits x base []) (\<lambda>buf.
           if neg then (if length buf \<ge> 16 then panic ''out of bounds'' else Inr (rev (buf @ [45]))) else Inr (rev buf)))"

fun printptr_loop :: "byte list \<Rightarrow> nat \<Rightarrow> uint64 \<Rightarrow> byte list" where
  "printptr_loop ds 0 x = []"
| "printptr_loop ds (Suc n) x = ds ! unat (drop_bit 60 x) # printptr_loop ds n (push_bit 4 x)"

definition printptr :: "uint64 \<Rightarrow> byte list" where
  "printptr x = [48, 120] @ printptr_loop kdigits 16 x"

datatype varg = Num uint64 | Str "byte list option"

text \<open>\<open>va_arg\<close> of a missing argument, or of one of the other kind, is an error.\<close>

definition arg_num :: "varg list \<Rightarrow> (uint64 \<times> varg list) res" where
  "arg_num args = (case args of Num x # r \<Rightarrow> Inr (x, r) | _ \<Rightarrow> panic ''va_arg'')"

definition arg_int :: "varg list \<Rightarrow> (uint64 \<times> varg list) res" where
  "arg_int args = bindR (arg_num args) (\<lambda>(x, r). Inr (scast (ucast x :: cint), r))"

definition arg_string :: "varg list \<Rightarrow> (byte list \<times> varg list) res" where
  "arg_string args = (case args of Str s # r \<Rightarrow> Inr (case s of None \<Rightarrow> map of_char ''(null)'' | Some t \<Rightarrow> cstr t, r) | _ \<Rightarrow> panic ''va_arg'')"

text \<open>
  One conversion, from the three bytes after the \<open>%\<close>: what it prints, the arguments that remain, and
  the number of bytes of the format it takes in addition; \<open>None\<close> at the end of the format.
\<close>

definition num_conv :: "(uint64 \<times> varg list) res \<Rightarrow> uint64 \<Rightarrow> bool \<Rightarrow> nat \<Rightarrow> (byte list \<times> varg list \<times> nat) option res" where
  "num_conv a base sign n = bindR a (\<lambda>(x, r). bindR (printint x base sign) (\<lambda>bs. Inr (Some (bs, r, n))))"

definition conv :: "byte \<Rightarrow> byte \<Rightarrow> byte \<Rightarrow> varg list \<Rightarrow> (byte list \<times> varg list \<times> nat) option res" where
  "conv c0 c1 c2 args =
     (if c0 = of_char CHR ''d'' then num_conv (arg_int args) 10 True 0
      else if c0 = of_char CHR ''l'' \<and> c1 = of_char CHR ''d'' then num_conv (arg_num args) 10 True 1
      else if c0 = of_char CHR ''l'' \<and> c1 = of_char CHR ''l'' \<and> c2 = of_char CHR ''d'' then num_conv (arg_num args) 10 True 2
      else if c0 = of_char CHR ''u'' then num_conv (arg_int args) 10 False 0
      else if c0 = of_char CHR ''l'' \<and> c1 = of_char CHR ''u'' then num_conv (arg_num args) 10 False 1
      else if c0 = of_char CHR ''l'' \<and> c1 = of_char CHR ''l'' \<and> c2 = of_char CHR ''u'' then num_conv (arg_num args) 10 False 2
      else if c0 = of_char CHR ''x'' then num_conv (arg_int args) 16 False 0
      else if c0 = of_char CHR ''l'' \<and> c1 = of_char CHR ''x'' then num_conv (arg_num args) 16 False 1
      else if c0 = of_char CHR ''l'' \<and> c1 = of_char CHR ''l'' \<and> c2 = of_char CHR ''x'' then num_conv (arg_num args) 16 False 2
      else if c0 = of_char CHR ''p'' then bindR (arg_num args) (\<lambda>(x, r). Inr (Some (printptr x, r, 0)))
      else if c0 = of_char CHR ''s'' then bindR (arg_string args) (\<lambda>(s, r). Inr (Some (s, r, 0)))
      else if c0 = of_char CHR ''%'' then Inr (Some ([of_char CHR ''%''], args, 0))
      else if c0 = 0 then Inr None
      else Inr (Some ([of_char CHR ''%'', c0], args, 0)))"

text \<open>The bytes of the format after the \<open>%\<close>, as the code looks at them.\<close>

definition ahead :: "byte list \<Rightarrow> byte \<times> byte \<times> byte" where
  "ahead f =
     (let c0 = first f; c1 = (if c0 \<noteq> 0 then first (tl f) else 0); c2 = (if c1 \<noteq> 0 then first (tl (tl f)) else 0) in (c0, c1, c2))"

function printf_loop :: "byte list \<Rightarrow> varg list \<Rightarrow> byte list res" where
  "printf_loop fmt args =
     (if first fmt = 0 then Inr []
      else if first fmt \<noteq> of_char CHR ''%'' then bindR (printf_loop (tl fmt) args) (\<lambda>bs. Inr (first fmt # bs))
      else
        let (c0, c1, c2) = ahead (tl fmt)
        in bindR (conv c0 c1 c2 args) (\<lambda>r.
             case r of
               None \<Rightarrow> Inr []
             | Some (bs, args1, n) \<Rightarrow> bindR (printf_loop (drop (Suc n) (tl fmt)) args1) (\<lambda>bs1. Inr (bs @ bs1))))"
  by pat_completeness auto
termination
proof (relation "measure (\<lambda>(fmt, args). length fmt)", goal_cases)
  case (2 fmt args)
  then show ?case by (cases fmt) auto
next
  case (3 fmt args)
  then show ?case by (cases fmt) auto
qed simp

declare printf_loop.simps [simp del]

definition printf :: "byte list \<Rightarrow> varg list \<Rightarrow> byte list res" where
  "printf fmt args = printf_loop fmt args"

text \<open>What \<open>panic\<close> prints before it stops.\<close>

definition panic_output :: "byte list \<Rightarrow> byte list res" where
  "panic_output s =
     bindR (printf (map of_char ''panic: '') []) (\<lambda>a. bindR (printf (map of_char ''%s'' @ [10]) [Str (Some s)]) (\<lambda>b. Inr (a @ b)))"

subsection \<open>user/printf.c\<close>

definition udigits :: "byte list" where
  "udigits = map of_char ''0123456789ABCDEF''"

function u_printint_loop :: "uint \<Rightarrow> uint \<Rightarrow> byte list \<Rightarrow> byte list res" where
  "u_printint_loop x base buf =
     (if length buf \<ge> 16 then panic ''out of bounds''
      else
        let buf1 = buf @ [udigits ! unat (x mod base)]; x1 = x div base
        in if x1 \<noteq> 0 then u_printint_loop x1 base buf1 else Inr buf1)"
  by pat_completeness auto
termination by (relation "measure (\<lambda>(x, base, buf). 16 - length buf)") auto

declare u_printint_loop.simps [simp del]

definition u_printint :: "cint \<Rightarrow> uint \<Rightarrow> bool \<Rightarrow> byte list res" where
  "u_printint xx base sg =
     (let neg = (sg \<and> sint xx < 0); x = (if neg then - xx else xx)
      in bindR (u_printint_loop x base []) (\<lambda>buf.
           if neg then (if length buf \<ge> 16 then panic ''out of bounds'' else Inr (rev (buf @ [45]))) else Inr (rev buf)))"

definition u_printptr :: "uint64 \<Rightarrow> byte list" where
  "u_printptr x = [48, 120] @ printptr_loop udigits 16 x"

text \<open>The 64-bit arguments of the \<open>l\<close> conversions are passed to an \<open>int\<close> parameter.\<close>

definition u_num_conv :: "varg list \<Rightarrow> uint \<Rightarrow> bool \<Rightarrow> nat \<Rightarrow> (byte list \<times> varg list \<times> nat) res" where
  "u_num_conv args base sign n = bindR (arg_num args) (\<lambda>(x, r). bindR (u_printint (ucast x) base sign) (\<lambda>bs. Inr (bs, r, n)))"

definition u_conv :: "byte \<Rightarrow> byte \<Rightarrow> byte \<Rightarrow> varg list \<Rightarrow> (byte list \<times> varg list \<times> nat) res" where
  "u_conv c0 c1 c2 args =
     (if c0 = of_char CHR ''d'' then u_num_conv args 10 True 0
      else if c0 = of_char CHR ''l'' \<and> c1 = of_char CHR ''d'' then u_num_conv args 10 True 1
      else if c0 = of_char CHR ''l'' \<and> c1 = of_char CHR ''l'' \<and> c2 = of_char CHR ''d'' then u_num_conv args 10 True 2
      else if c0 = of_char CHR ''u'' then u_num_conv args 10 False 0
      else if c0 = of_char CHR ''l'' \<and> c1 = of_char CHR ''u'' then u_num_conv args 10 False 1
      else if c0 = of_char CHR ''l'' \<and> c1 = of_char CHR ''l'' \<and> c2 = of_char CHR ''u'' then u_num_conv args 10 False 2
      else if c0 = of_char CHR ''x'' then u_num_conv args 16 False 0
      else if c0 = of_char CHR ''l'' \<and> c1 = of_char CHR ''x'' then u_num_conv args 16 False 1
      else if c0 = of_char CHR ''l'' \<and> c1 = of_char CHR ''l'' \<and> c2 = of_char CHR ''x'' then u_num_conv args 16 False 2
      else if c0 = of_char CHR ''p'' then bindR (arg_num args) (\<lambda>(x, r). Inr (u_printptr x, r, 0))
      else if c0 = of_char CHR ''s'' then bindR (arg_string args) (\<lambda>(s, r). Inr (s, r, 0))
      else if c0 = of_char CHR ''%'' then Inr ([of_char CHR ''%''], args, 0)
      else Inr ([of_char CHR ''%'', c0], args, 0))"

text \<open>\<open>pct\<close> is the state of the loop: whether the last byte was a \<open>%\<close> that is still to be interpreted.\<close>

function vprintf :: "byte list \<Rightarrow> bool \<Rightarrow> varg list \<Rightarrow> byte list res" where
  "vprintf fmt pct args =
     (if first fmt = 0 then Inr []
      else if \<not> pct then
        (if first fmt = of_char CHR ''%'' then vprintf (tl fmt) True args
         else bindR (vprintf (tl fmt) False args) (\<lambda>bs. Inr (first fmt # bs)))
      else
        let (c0, c1, c2) = ahead fmt
        in bindR (u_conv c0 c1 c2 args) (\<lambda>(bs, args1, n).
             bindR (vprintf (drop (Suc n) fmt) False args1) (\<lambda>bs1. Inr (bs @ bs1))))"
  by pat_completeness auto
termination
proof (relation "measure (\<lambda>(fmt, pct, args). length fmt)", goal_cases)
  case (2 fmt pct args)
  then show ?case by (cases fmt) auto
next
  case (3 fmt pct args)
  then show ?case by (cases fmt) auto
next
  case (4 fmt pct args)
  then show ?case by (cases fmt) auto
qed simp

declare vprintf.simps [simp del]

definition u_printf :: "byte list \<Rightarrow> varg list \<Rightarrow> byte list res" where
  "u_printf fmt args = vprintf fmt False args"

subsection \<open>Numerals\<close>

function digits_of :: "nat \<Rightarrow> nat \<Rightarrow> nat list" where
  "digits_of b n = (if b < 2 \<or> n < b then [n] else digits_of b (n div b) @ [n mod b])"
  by pat_completeness auto
termination by (relation "measure snd") (auto intro: div_less_dividend)

declare digits_of.simps [simp del]

lemma digits_of_value: "foldl (\<lambda>a d. a * b + d) 0 (digits_of b n) = n"
proof (induction b n rule: digits_of.induct)
  case (1 b n)
  then show ?case by (cases "b < 2 \<or> n < b") (simp_all add: digits_of.simps [of b n] mult.commute)
qed

lemma digits_of_nonempty: "digits_of b n \<noteq> []"
  by (subst digits_of.simps) simp

lemma length_digits_of:
  assumes "2 \<le> b" and "0 < k"
  shows "length (digits_of b n) \<le> k \<longleftrightarrow> n < b ^ k"
  using assms
proof (induction b n arbitrary: k rule: digits_of.induct)
  case (1 b n)
  show ?case
  proof (cases "n < b")
    case True
    have "b \<le> b ^ k" using "1.prems" by (simp add: self_le_power)
    then show ?thesis using True "1.prems" by (simp add: digits_of.simps [of b n])
  next
    case False
    show ?thesis
    proof (cases "k = 1")
      case True
      then show ?thesis using False "1.prems" digits_of_nonempty [of b "n div b"] by (simp add: digits_of.simps [of b n])
    next
      case k: False
      then obtain j where j: "k = Suc j" "0 < j" using "1.prems" by (cases k) auto
      have "length (digits_of b (n div b)) \<le> j \<longleftrightarrow> n div b < b ^ j" using "1.IH" False "1.prems" j by simp
      also have "... \<longleftrightarrow> n < b ^ k" using "1.prems" by (simp add: j div_less_iff_less_mult mult.commute)
      finally show ?thesis using False "1.prems" by (simp add: digits_of.simps [of b n] j)
    qed
  qed
qed

lemma printint_loop_eq:
  assumes "2 \<le> unat base" and "length buf \<le> 16"
  shows "printint_loop ds x base buf =
    (let d = map (\<lambda>i. ds ! i) (rev (digits_of (unat base) (unat x))) in if length buf + length d \<le> 16 then Inr (buf @ d) else panic ''out of bounds'')"
  using assms
proof (induction ds x base buf rule: printint_loop.induct)
  case (1 ds x base buf)
  show ?case
  proof (cases "length buf \<ge> 16")
    case True
    then show ?thesis using digits_of_nonempty [of "unat base" "unat x"] "1.prems" by (simp add: printint_loop.simps [of ds x base buf] Let_def)
  next
    case False
    have z: "x div base = 0 \<longleftrightarrow> unat x < unat base" using "1.prems" by (simp add: word_unat_eq_iff unat_div div_eq_0_iff)
    show ?thesis
    proof (cases "x div base = 0")
      case True
      then have l: "unat x < unat base" using z by simp
      then have "unat (x mod base) = unat x" by (simp add: unat_mod)
      then show ?thesis using False True l "1.prems" by (simp add: printint_loop.simps [of ds x base buf] digits_of.simps [of _ "unat x"] Let_def)
    next
      case c: False
      then have l: "\<not> unat x < unat base" using z by simp
      show ?thesis using "1.IH" [OF False refl refl c] False c l "1.prems"
        by (simp add: printint_loop.simps [of ds x base buf] digits_of.simps [of _ "unat x"] Let_def unat_mod unat_div)
    qed
  qed
qed

lemma printint_eq:
  assumes "2 \<le> unat base"
  shows "printint xx base sign =
    (let neg = (sign \<and> sint xx < 0); d = map (\<lambda>i. kdigits ! i) (digits_of (unat base) (unat (if neg then - xx else xx)))
     in if length d + (if neg then 1 else 0) \<le> 16 then Inr ((if neg then [45] else []) @ d) else panic ''out of bounds'')"
  using printint_loop_eq [OF assms, of "[]" kdigits "if sign \<and> sint xx < 0 then - xx else xx"]
  by (auto simp: printint_def Let_def rev_map)

lemma uint_of_sint:
  fixes x :: "'a :: len word"
  shows "uint x = sint x mod 2 ^ LENGTH('a)"
proof -
  have "uint x = uint (word_of_int (sint x) :: 'a word)" by simp
  then show ?thesis by (simp only: uint_word_of_int)
qed

lemma uint_of_neg:
  fixes x :: "'a :: len word"
  shows "uint (- x) = (- sint x) mod 2 ^ LENGTH('a)"
proof -
  have "uint (- x) = uint (word_of_int (- sint x) :: 'a word)" by simp
  then show ?thesis by (simp only: uint_word_of_int)
qed

abbreviation (input) shown :: "nat \<Rightarrow> nat \<Rightarrow> byte list" where
  "shown b n \<equiv> map (\<lambda>i. kdigits ! i) (digits_of b n)"

lemma printint_int:
  fixes i :: cint
  shows "printint (scast i) 10 True = Inr ((if sint i < 0 then [45] else []) @ shown 10 (nat \<bar>sint i\<bar>))"
    "printint (scast i) 16 False = Inr (shown 16 (unat (scast i :: uint64)))"
    "printint (scast i) 10 False = (if sint i < 0 then panic ''out of bounds'' else Inr (shown 10 (nat (sint i))))"
proof -
  let ?x = "scast i :: uint64"
  have s: "sint ?x = sint i" by (rule sint_up_scast) (simp add: is_up)
  have r: "- 2147483648 \<le> sint i" "sint i < 2147483648" using sint_ge [of i] sint_lt [of i] by simp_all
  have ux: "uint ?x = sint i mod 18446744073709551616" "uint (- ?x) = (- sint i) mod 18446744073709551616"
    using uint_of_sint [of ?x] uint_of_neg [of ?x] unfolding s by simp_all
  have u: "unat (if sint i < 0 then - ?x else ?x) = nat \<bar>sint i\<bar>"
  proof (cases "sint i < 0")
    case True
    have "(- sint i) mod 18446744073709551616 = - sint i" using True r by (intro mod_pos_pos_trivial) simp_all
    then show ?thesis using True unfolding unat_eq_nat_uint by (simp add: ux(2))
  next
    case False
    have "sint i mod 18446744073709551616 = sint i" using False r by (intro mod_pos_pos_trivial) simp_all
    then show ?thesis using False unfolding unat_eq_nat_uint by (simp add: ux(1))
  qed
  have l10: "length (shown 10 (nat \<bar>sint i\<bar>)) \<le> 10" using r length_digits_of [of 10 10 "nat \<bar>sint i\<bar>"] by simp
  then show "printint ?x 10 True = Inr ((if sint i < 0 then [45] else []) @ shown 10 (nat \<bar>sint i\<bar>))"
    using u by (cases "sint i < 0") (simp_all add: printint_eq Let_def s)
  have "unat ?x < 16 ^ 16" using unsigned_less [where ?'a = nat, of ?x] by simp
  then show "printint ?x 16 False = Inr (shown 16 (unat ?x))" using length_digits_of [of 16 16 "unat ?x"] by (simp add: printint_eq Let_def)
  show "printint ?x 10 False = (if sint i < 0 then panic ''out of bounds'' else Inr (shown 10 (nat (sint i))))"
  proof (cases "sint i < 0")
    case True
    have "(sint i + 18446744073709551616) mod 18446744073709551616 = sint i + 18446744073709551616" using True r by (intro mod_pos_pos_trivial) simp_all
    then have "uint ?x = sint i + 18446744073709551616" unfolding ux by simp
    then have "\<not> unat ?x < 10 ^ 16" using r unfolding unat_eq_nat_uint by simp
    then show ?thesis using True length_digits_of [of 10 16 "unat ?x"] by (simp add: printint_eq Let_def)
  next
    case False
    then show ?thesis using u l10 by (simp add: printint_eq Let_def)
  qed
qed

lemma bindR_Inr_right: "bindR m Inr = m"
  by (cases m) simp_all

lemma printf_conv:
  "printf (map of_char ''%d'') [Num w] = printint (scast (ucast w :: cint)) 10 True"
  "printf (map of_char ''%x'') [Num w] = printint (scast (ucast w :: cint)) 16 False"
  "printf (map of_char ''%u'') [Num w] = printint (scast (ucast w :: cint)) 10 False"
  "printf (map of_char ''%lu'') [Num w] = printint w 10 False"
  by (simp_all add: printf_def printf_loop.simps ahead_def conv_def num_conv_def arg_int_def arg_num_def Let_def bindR_assoc bindR_Inr_right cong: bindR_cong)

subsection \<open>Properties\<close>

text \<open>
  C37. The numbers that the kernel's \<open>printf\<close> prints, for every argument w, of which \<open>%d\<close>, \<open>%x\<close> and \<open>%u\<close>
  take the low 32 bits as an \<open>int\<close> i. \<open>%d\<close> prints the decimal numeral of i with its sign and \<open>%x\<close> the
  hexadecimal one of i extended to 64 bits, and both fit into \<open>buf[16]\<close>. \<open>%u\<close> and \<open>%lu\<close> print the decimal numeral of
  a number below 10^16; for a larger one, which for \<open>%u\<close> is every negative i, they store past the
  end of \<open>buf\<close>.
\<close>

theorem printf_numbers_and_buffer:
  "printf (map of_char ''%d'') [Num w] = Inr ((if sint (ucast w :: cint) < 0 then [45] else []) @ map (\<lambda>d. kdigits ! d) (digits_of 10 (nat \<bar>sint (ucast w :: cint)\<bar>))) \<and>
    printf (map of_char ''%x'') [Num w] = Inr (map (\<lambda>d. kdigits ! d) (digits_of 16 (unat (scast (ucast w :: cint) :: uint64)))) \<and>
    printf (map of_char ''%u'') [Num w] =
      (if sint (ucast w :: cint) < 0 then panic ''out of bounds'' else Inr (map (\<lambda>d. kdigits ! d) (digits_of 10 (nat (sint (ucast w :: cint)))))) \<and>
    printf (map of_char ''%lu'') [Num w] =
      (if unat w < 10 ^ 16 then Inr (map (\<lambda>d. kdigits ! d) (digits_of 10 (unat w))) else panic ''out of bounds'') \<and>
    foldl (\<lambda>a d. a * b + d) 0 (digits_of b n) = n"
  unfolding printf_conv printint_int digits_of_value
  using length_digits_of [of 10 16 "unat w"] by (simp add: printint_eq Let_def)

end
