(* ===== verification/Virtio.thy ===== *)
theory Virtio
  imports Kalloc Ringbuf
begin

section \<open>kernel/virtio_disk.c: the driver of the virtio disk\<close>

text \<open>
  The descriptors, the two rings and the driver's own book-keeping, and every function of the driver.
  A buffer is its index in the cache; \<open>bdisk\<close> is \<open>b->disk\<close>. \<open>virtio_disk_rw\<close> is the part up to the request
  (\<open>rw_submit\<close>, which has to sleep if there are not three free descriptors) and the part after its wait
  (\<open>rw_finish\<close>). The device takes requests from the available ring and puts finished ones, in any order, on
  the used ring; the threads that wait, the device and the interrupt handler interleave in \<open>vstep\<close>.
\<close>

abbreviation (input) NUM :: nat where "NUM \<equiv> 8"

text \<open>The addresses that a descriptor points to.\<close>

datatype vaddr = NoAddr | OpsAddr nat | DataAddr nat | StatusAddr nat

record virtq_desc =
  d_addr :: vaddr
  d_len :: uint
  d_flags :: ushort
  d_next :: ushort

record virtio_blk_req =
  rq_type :: uint
  rq_reserved :: uint
  rq_sector :: uint64

record vdisk =
  vdesc :: "nat \<Rightarrow> virtq_desc"
  avail_idx :: ushort
  avail_ring :: "nat \<Rightarrow> ushort"
  used_ring_idx :: ushort
  used_ring :: "nat \<Rightarrow> uint"
  vfree :: "nat \<Rightarrow> bool"
  used_idx :: ushort
  info_b :: "nat \<Rightarrow> nat option"
  info_status :: "nat \<Rightarrow> byte"
  ops :: "nat \<Rightarrow> virtio_blk_req"
  bdisk :: "nat \<Rightarrow> bool"

subsection \<open>Descriptors\<close>








subsection \<open>Requests\<close>








subsection \<open>The threads, the device and the interrupt handler\<close>

text \<open>
  \<open>reqs\<close> are the requests that a thread waits for, with the local variable \<open>idx\<close>; \<open>seen\<close> is how far the
  device has read the available ring, and \<open>busy\<close> are the requests it works on. A thread holds the lock of
  its buffer, so there is one request for a buffer at a time.
\<close>

type_synonym request = "nat \<times> nat \<times> nat \<times> nat"

record vsys =
  vd :: vdisk
  reqs :: "request list"
  seen :: ushort
  busy :: "nat list"



definition vstart :: "vsys \<Rightarrow> bool" where
  "vstart s \<longleftrightarrow> (\<forall>i<NUM. vfree (vd s) i) \<and> avail_idx (vd s) = 0 \<and> used_ring_idx (vd s) = 0 \<and> used_idx (vd s) = 0 \<and>
     (\<forall>b. \<not> bdisk (vd s) b) \<and> reqs s = [] \<and> seen s = 0 \<and> busy s = []"







subsection \<open>Initialisation\<close>

text \<open>What the device answers when its registers are read.\<close>

record vregs =
  r_magic :: uint
  r_version :: uint
  r_device_id :: uint
  r_vendor_id :: uint
  r_features :: uint
  r_status :: "uint \<Rightarrow> uint"
  r_queue_ready :: uint
  r_queue_num_max :: uint

definition negotiate :: "uint \<Rightarrow> uint" where
  "negotiate features =
     ucast ((ucast features :: uint64) AND NOT (push_bit 5 1) AND NOT (push_bit 7 1) AND NOT (push_bit 11 1) AND NOT (push_bit 12 1) AND
       NOT (push_bit 27 1) AND NOT (push_bit 29 1) AND NOT (push_bit 28 1))"

text \<open>The three pages of the queue, zeroed.\<close>

definition alloc_queue :: "pmem \<Rightarrow> (uint64 \<times> uint64 \<times> uint64 \<times> pmem) res" where
  "alloc_queue p =
     (let (desc, p1) = kalloc p; (avail, p2) = kalloc p1; (used, p3) = kalloc p2
      in if desc = 0 \<or> avail = 0 \<or> used = 0 then panic ''virtio disk kalloc''
         else Inr (desc, avail, used, p3\<lparr>mem := memset (memset (memset (mem p3) desc 0 4096) avail 0 4096) used 0 4096\<rparr>))"

text \<open>
  The writes to the device's registers, by their offsets, in order: the status after each step (0x70), the
  features of the driver (0x20), the queue (0x30, 0x38) and the addresses of its pages (0x80 to 0xa4).
\<close>

definition virtio_disk_init :: "vregs \<Rightarrow> vdisk \<Rightarrow> pmem \<Rightarrow> ((uint \<times> uint) list \<times> vdisk \<times> pmem) res" where
  "virtio_disk_init r v p =
     (if r_magic r \<noteq> 0x74726976 \<or> r_version r \<noteq> 2 \<or> r_device_id r \<noteq> 2 \<or> r_vendor_id r \<noteq> 0x554d4551 then panic ''could not find virtio disk''
      else
        let status = r_status r (1 OR 2 OR 8)
        in if status AND 8 = 0 then panic ''virtio disk FEATURES_OK unset''
           else if r_queue_ready r \<noteq> 0 then panic ''virtio disk should not be ready''
           else if r_queue_num_max r = 0 then panic ''virtio disk has no queue 0''
           else if r_queue_num_max r < of_nat NUM then panic ''virtio disk max queue too short''
           else bindR (alloc_queue p) (\<lambda>(desc, avail, used, p1).
             Inr ([(0x70, 0), (0x70, 1), (0x70, 1 OR 2), (0x20, negotiate (r_features r)), (0x70, 1 OR 2 OR 8), (0x30, 0), (0x38, of_nat NUM),
                   (0x80, ucast desc), (0x84, ucast (drop_bit 32 desc)), (0x90, ucast avail), (0x94, ucast (drop_bit 32 avail)),
                   (0xa0, ucast used), (0xa4, ucast (drop_bit 32 used)), (0x44, 1), (0x70, status OR 4)],
                  v\<lparr>vdesc := (\<lambda>_. \<lparr>d_addr = NoAddr, d_len = 0, d_flags = 0, d_next = 0\<rparr>), avail_idx := 0, avail_ring := (\<lambda>_. 0),
                    used_ring_idx := 0, used_ring := (\<lambda>_. 0), vfree := (\<lambda>i. i < NUM)\<rparr>, p1)))"

lemma virtio_disk_init_start:
  assumes "virtio_disk_init r v p = Inr (ws, v', p')" and "used_idx v = 0" and "\<And>b. \<not> bdisk v b"
  shows "vstart \<lparr>vd = v', reqs = [], seen = 0, busy = []\<rparr>"
  using assms by (auto simp: virtio_disk_init_def vstart_def Let_def split: if_splits)

subsection \<open>Every step keeps states well-formed\<close>









lemma word_ring_same [simp]: "word_ring N d r r = []"
  by (simp add: word_ring_empty)
















subsection \<open>Properties\<close>




end
