(* ===== verification/Spec2Isabelle.thy ===== *)
theory Spec2Isabelle
  imports Spinlock Proctree Trap Writefile Grep Printf Virtio
begin

text \<open>
  A verification development of the xv6-riscv kernel with user threads, process reports and CPU quotas.
\<close>

end
